(* ===== verification/Byte_Strings.thy ===== *)
theory Byte_Strings
  imports Main "HOL-Library.Word"
begin

section \<open>Byte strings and the standard library functions on them\<close>

text \<open>
  The shared prelude. A \<open>std::string\<close> is a \<open>string\<close>, a list of 8-bit characters. The
  functions below are the part of the C++ standard library that the sources call:
  \<open>find("\r\n", pos)\<close>, \<open>substr\<close>, \<open>std::to_string\<close>, \<open>std::from_chars\<close> for
  \<open>long long\<close>, \<open>std::stoll\<close>, \<open>std::toupper\<close> and \<open>std::isspace\<close> in the C locale.
  They are library code, so the manifest maps none of them.
  A \<open>std::size_t\<close> is a \<open>nat\<close>; where an addition can leave 64 bits the
  wrap-around is written out with \<open>size_wrap\<close>.
\<close>

subsection \<open>Line ends\<close>

abbreviation CR :: char where
  "CR \<equiv> CHR 0x0D"

abbreviation LF :: char where
  "LF \<equiv> CHR 0x0A"

abbreviation CRLF :: string where
  "CRLF \<equiv> [CR, LF]"

text \<open>The index of the first CRLF, and \<open>find\<close> from a start position (\<open>None\<close> is \<open>npos\<close>).\<close>

fun crlf_index :: "string \<Rightarrow> nat option" where
  "crlf_index (a # b # s) =
     (if a = CR \<and> b = LF then Some 0 else map_option Suc (crlf_index (b # s)))"
| "crlf_index _ = None"

definition find_crlf :: "string \<Rightarrow> nat \<Rightarrow> nat option" where
  "find_crlf s pos = map_option ((+) pos) (crlf_index (drop pos s))"

definition substr :: "string \<Rightarrow> nat \<Rightarrow> nat \<Rightarrow> string" where
  "substr s pos n = take n (drop pos s)"

text \<open>Cutting the first line off, as the readers of a suffix do.\<close>

definition split_line :: "string \<Rightarrow> (string \<times> string) option" where
  "split_line s = map_option (\<lambda>n. (take n s, drop (n + 2) s)) (crlf_index s)"

text \<open>
  \<open>std::string::max_size()\<close> of a 64-bit standard library: no string is longer.
\<close>

definition max_size :: nat where
  "max_size = 2 ^ 63 - 2"

definition size_wrap :: "nat \<Rightarrow> nat" where
  "size_wrap n = n mod 2 ^ 64"

subsection \<open>Decimal numbers\<close>

definition is_digit :: "char \<Rightarrow> bool" where
  "is_digit c \<longleftrightarrow> 48 \<le> (of_char c :: nat) \<and> (of_char c :: nat) \<le> 57"

definition digit_value :: "char \<Rightarrow> nat" where
  "digit_value c = of_char c - 48"

definition digit_char :: "nat \<Rightarrow> char" where
  "digit_char n = char_of (48 + n)"

definition dec_value :: "string \<Rightarrow> nat" where
  "dec_value = foldl (\<lambda>a c. 10 * a + digit_value c) 0"

fun show_nat :: "nat \<Rightarrow> string" where
  "show_nat n =
     (if n < 10 then [digit_char n] else show_nat (n div 10) @ [digit_char (n mod 10)])"

declare show_nat.simps [simp del]

definition show_int :: "int \<Rightarrow> string" where
  "show_int i = (if i < 0 then CHR ''-'' # show_nat (nat (- i)) else show_nat (nat i))"

definition in_int64 :: "int \<Rightarrow> bool" where
  "in_int64 i \<longleftrightarrow> - (2 ^ 63) \<le> i \<and> i < 2 ^ 63"

text \<open>
  Signed 64-bit arithmetic as the compiled code does it: two's complement wrap-around.
  C++ leaves the overflow itself undefined; \<open>in_int64\<close> of the exact result says that
  there is none.
\<close>

definition wrap64 :: "int \<Rightarrow> int" where
  "wrap64 i = (i + 2 ^ 63) mod 2 ^ 64 - 2 ^ 63"

text \<open>
  \<open>std::from_chars\<close> on a \<open>long long\<close>: an optional minus sign, then digits. It returns the
  error code, how many characters it consumed, and the value, which it leaves as it was
  (\<open>v0\<close>) unless the code is \<open>Errc_ok\<close>.
\<close>

datatype errc = Errc_ok | Errc_invalid_argument | Errc_out_of_range

definition from_chars :: "string \<Rightarrow> int \<Rightarrow> errc \<times> nat \<times> int" where
  "from_chars s v0 =
     (let neg = (s \<noteq> [] \<and> s ! 0 = CHR ''-'');
          ds = takeWhile is_digit (if neg then tl s else s);
          v = (if neg then - int (dec_value ds) else int (dec_value ds));
          n = (if neg then Suc (length ds) else length ds)
      in if ds = [] then (Errc_invalid_argument, 0, v0)
         else if in_int64 v then (Errc_ok, n, v)
         else (Errc_out_of_range, n, v0))"

text \<open>
  The test every caller makes: no error and the whole range consumed.
\<close>

definition from_chars_all :: "string \<Rightarrow> int \<Rightarrow> int option" where
  "from_chars_all s v0 =
     (case from_chars s v0 of
        (ec, n, v) \<Rightarrow> if ec = Errc_ok \<and> n = length s then Some v else None)"

text \<open>
  \<open>std::isspace\<close>, \<open>std::toupper\<close>, and \<open>std::stoll\<close>, which skips white space, takes an
  optional sign and digits, and ignores what follows; it throws \<open>std::invalid_argument\<close> or
  \<open>std::out_of_range\<close>, both with the text \<open>stoll\<close>.
\<close>

definition is_space :: "char \<Rightarrow> bool" where
  "is_space c \<longleftrightarrow> c \<in> {CHR '' '', CHR 0x09, CHR 0x0A, CHR 0x0B, CHR 0x0C, CHR 0x0D}"

definition to_upper_char :: "char \<Rightarrow> char" where
  "to_upper_char c =
     (let n = (of_char c :: nat) in if 97 \<le> n \<and> n \<le> 122 then char_of (n - 32) else c)"

definition stoll :: "string \<Rightarrow> string + int" where
  "stoll s0 =
     (let s = dropWhile is_space s0;
          neg = (s \<noteq> [] \<and> s ! 0 = CHR ''-'');
          plus = (s \<noteq> [] \<and> s ! 0 = CHR ''+'');
          ds = takeWhile is_digit (if neg \<or> plus then tl s else s);
          v = (if neg then - int (dec_value ds) else int (dec_value ds))
      in if ds = [] \<or> \<not> in_int64 v then Inl ''stoll'' else Inr v)"

text \<open>\<open>std::stoi\<close> is the same with the range of a 32-bit \<open>int\<close>.\<close>

definition stoi :: "string \<Rightarrow> string + int" where
  "stoi s =
     (case stoll s of
        Inl _ \<Rightarrow> Inl ''stoi''
      | Inr v \<Rightarrow> if - (2 ^ 31) \<le> v \<and> v < 2 ^ 31 then Inr v else Inl ''stoi'')"

subsection \<open>Lemmas on line ends\<close>

text \<open>Where a cut falls in the concatenation of two parts.\<close>

lemma cut_append:
  assumes "a @ b = s @ t"
  obtains (inside) u where "a = s @ u" "u \<noteq> []" "t = u @ b" | (after) u where "s = a @ u" "b = u @ t"
  using assms unfolding append_eq_append_conv2 by (metis append_Nil append_Nil2)

lemma crlf_index_Cons:
  "crlf_index (a # s) =
     (if a = CR \<and> s \<noteq> [] \<and> s ! 0 = LF then Some 0 else map_option Suc (crlf_index s))"
  by (cases s) auto

text \<open>A line without a carriage return ends at the first CRLF after it.\<close>

lemma crlf_index_line [simp]: "CR \<notin> set h \<Longrightarrow> crlf_index (h @ CR # LF # t) = Some (length h)"
  by (induction h) (auto simp: crlf_index_Cons)

lemma crlf_index_no_CR [simp]: "CR \<notin> set h \<Longrightarrow> crlf_index h = None"
  by (induction h) (auto simp: crlf_index_Cons)

lemma crlf_index_split:
  "crlf_index s = Some n \<Longrightarrow> n + 2 \<le> length s \<and> s = take n s @ CRLF @ drop (n + 2) s"
proof (induction s arbitrary: n rule: crlf_index.induct)
  case (1 a b s)
  then show ?case by (auto split: if_splits)
qed auto

lemma crlf_index_append: "crlf_index s = Some n \<Longrightarrow> crlf_index (s @ t) = Some n"
proof (induction s arbitrary: n rule: crlf_index.induct)
  case (1 a b s)
  then show ?case by (auto split: if_splits)
qed auto

text \<open>
  The index found is the least one: cutting the string after the CRLF keeps it, and no
  shorter prefix has one.
\<close>

lemma crlf_index_take:
  "crlf_index s = Some n \<Longrightarrow> crlf_index (take m s) = (if n + 2 \<le> m then Some n else None)"
proof (induction s arbitrary: n m rule: crlf_index.induct)
  case (1 a b s)
  show ?case
  proof (cases m)
    case 0
    then show ?thesis by simp
  next
    case (Suc k)
    then show ?thesis
    proof (cases "a = CR \<and> b = LF")
      case True
      with "1.prems" Suc show ?thesis by (cases k) auto
    next
      case False
      with "1.prems" obtain n' where n': "crlf_index (b # s) = Some n'" "n = Suc n'"
        by auto
      have IH: "crlf_index (take k (b # s)) = (if n' + 2 \<le> k then Some n' else None)"
        using "1.IH" [OF False n'(1)] .
      show ?thesis
      proof (cases k)
        case 0
        with n' Suc show ?thesis by simp
      next
        case (Suc j)
        have "crlf_index (take m (a # b # s)) = map_option Suc (crlf_index (take k (b # s)))"
          using \<open>m = Suc k\<close> Suc False by auto
        with IH n' \<open>m = Suc k\<close> show ?thesis by auto
      qed
    qed
  qed
qed auto

lemma substr_at: "substr (a @ b @ c) (length a) (length b) = b"
  by (simp add: substr_def)

lemma find_crlf_bounds:
  "find_crlf s pos = Some e \<Longrightarrow> pos \<le> e \<and> e + 2 \<le> length s"
  by (auto simp: find_crlf_def dest!: crlf_index_split)

lemma find_crlf_split:
  assumes "find_crlf s pos = Some e"
  shows "drop pos s = substr s pos (e - pos) @ CRLF @ drop (e + 2) s"
proof -
  from assms obtain n where n: "crlf_index (drop pos s) = Some n" and e: "e = pos + n"
    by (auto simp: find_crlf_def)
  from crlf_index_split [OF n] e show ?thesis
    by (simp add: substr_def add.commute add.left_commute)
qed

lemma find_crlf_append:
  assumes "find_crlf s pos = Some e"
  shows "find_crlf (s @ t) pos = Some e"
proof -
  from assms obtain n where n: "crlf_index (drop pos s) = Some n" and e: "e = pos + n"
    by (auto simp: find_crlf_def)
  from n have "drop pos s \<noteq> []" by auto
  then have "drop pos (s @ t) = drop pos s @ t" by simp
  with crlf_index_append [OF n, of t] e show ?thesis by (simp add: find_crlf_def)
qed

text \<open>\<open>find\<close> followed by \<open>substr\<close> is \<open>split_line\<close> on the suffix.\<close>

lemma find_crlf_at:
  "CR \<notin> set l \<Longrightarrow> find_crlf (pre @ l @ CRLF @ r) (length pre) = Some (length pre + length l)"
  by (simp add: find_crlf_def)

lemma crlf_index_partial_line:
  assumes "CR \<notin> set l" "l @ CRLF = u @ w" "w \<noteq> []"
  shows "crlf_index u = None"
proof (rule ccontr)
  assume "crlf_index u \<noteq> None"
  then obtain n where n: "crlf_index u = Some n" by auto
  from crlf_index_split [OF n] have "n + 2 \<le> length u" by simp
  moreover have "length u < length l + 2" using arg_cong [OF assms(2), of length] assms(3) by (cases w) auto
  moreover have "crlf_index (u @ w) = Some n" by (rule crlf_index_append [OF n])
  then have "crlf_index (l @ CR # LF # []) = Some n" unfolding assms(2) [symmetric] by simp
  then have "n = length l" unfolding crlf_index_line [OF assms(1)] by simp
  ultimately show False by simp
qed

lemma find_crlf_split_line:
  "find_crlf s pos =
     (case split_line (drop pos s) of None \<Rightarrow> None | Some (l, r) \<Rightarrow> Some (pos + length l))"
  "split_line (drop pos s) = Some (l, r) \<Longrightarrow>
     substr s pos (length l) = l \<and> drop (pos + length l + 2) s = r"
proof -
  show "find_crlf s pos =
      (case split_line (drop pos s) of None \<Rightarrow> None | Some (l, r) \<Rightarrow> Some (pos + length l))"
    by (auto simp: find_crlf_def split_line_def dest!: crlf_index_split split: option.splits)
  show "substr s pos (length l) = l \<and> drop (pos + length l + 2) s = r"
    if "split_line (drop pos s) = Some (l, r)"
    using that by (auto simp: split_line_def substr_def add.commute add.left_commute
        dest!: crlf_index_split)
qed

lemma split_line_line [simp]:
  "CR \<notin> set h \<Longrightarrow> split_line (h @ CR # LF # t) = Some (h, t)"
  by (simp add: split_line_def)

lemma split_line_Some: "split_line s = Some (l, r) \<Longrightarrow> s = l @ CRLF @ r"
  by (auto simp: split_line_def dest!: crlf_index_split)

lemma split_line_append:
  assumes "split_line s = Some (l, r)"
  shows "split_line (s @ t) = Some (l, r @ t)"
proof -
  from assms obtain n where n: "crlf_index s = Some n" "l = take n s" "r = drop (n + 2) s"
    by (auto simp: split_line_def)
  from crlf_index_split [OF n(1)] have "n + 2 \<le> length s" by simp
  with crlf_index_append [OF n(1), of t] n show ?thesis by (simp add: split_line_def)
qed

lemma split_line_prefix:
  assumes "split_line (s @ t) = Some (l, r)"
  shows "split_line s = (if length l + 2 \<le> length s then Some (l, take (length s - (length l + 2)) r)
                         else None)"
proof -
  from assms obtain n where n: "crlf_index (s @ t) = Some n" and l: "l = take n (s @ t)"
    and r: "r = drop (n + 2) (s @ t)"
    by (auto simp: split_line_def)
  have "n + 2 \<le> length (s @ t)" using crlf_index_split [OF n] by blast
  then have ln: "length l = n" unfolding l by simp
  from crlf_index_take [OF n, of "length s"]
  have "crlf_index s = (if n + 2 \<le> length s then Some n else None)" by simp
  then show ?thesis
    by (auto simp: split_line_def ln l r)
qed

subsection \<open>Lemmas on decimal numbers\<close>

lemma is_digit_digit_char [simp]: "n < 10 \<Longrightarrow> is_digit (digit_char n)"
  by (simp add: is_digit_def digit_char_def)

lemma digit_value_digit_char [simp]: "n < 10 \<Longrightarrow> digit_value (digit_char n) = n"
  by (simp add: digit_value_def digit_char_def)

lemma digit_value_bound: "is_digit c \<Longrightarrow> digit_value c \<le> 9"
  unfolding digit_value_def is_digit_def by linarith

lemma not_digits [simp]:
  "\<not> is_digit CR" "\<not> is_digit LF" "\<not> is_digit (CHR ''-'')" "\<not> is_digit (CHR ''+'')"
  "\<not> is_digit (CHR ''$'')" "\<not> is_digit (CHR ''*'')" "\<not> is_digit (CHR '':'')"
  by (simp_all add: is_digit_def)

lemma digit_not_space: "is_digit c \<Longrightarrow> \<not> is_space c"
  by (auto simp: is_digit_def is_space_def)

lemma show_nat_digits: "\<forall>c \<in> set (show_nat n). is_digit c"
proof (induction n rule: show_nat.induct)
  case (1 n)
  then show ?case by (cases "n < 10") (simp_all add: show_nat.simps [of n])
qed

lemma show_nat_nonempty [simp]: "show_nat n \<noteq> []"
  by (subst show_nat.simps) simp

lemma dec_value_snoc [simp]: "dec_value (s @ [c]) = 10 * dec_value s + digit_value c"
  by (simp add: dec_value_def)

lemma dec_value_show_nat [simp]: "dec_value (show_nat n) = n"
proof (induction n rule: show_nat.induct)
  case (1 n)
  then show ?case
    by (cases "n < 10") (simp_all add: show_nat.simps [of n], simp add: dec_value_def)
qed

lemma takeWhile_show_nat [simp]: "takeWhile is_digit (show_nat n) = show_nat n"
  using show_nat_digits [of n] by (simp add: takeWhile_eq_all_conv)

lemma show_nat_no_CR [simp]: "CR \<notin> set (show_nat n)"
  using show_nat_digits [of n] by force

lemma show_nat_hd: "is_digit (show_nat n ! 0)"
  using show_nat_digits [of n] by (metis nth_mem length_greater_0_conv show_nat_nonempty)

lemma show_nat_hd_neq [simp]:
  "show_nat n ! 0 \<noteq> CHR ''-''" "show_nat n ! 0 \<noteq> CHR ''+''" "show_nat n ! 0 \<noteq> CHR ''$''"
  using show_nat_hd [of n] by (metis not_digits)+

text \<open>\<open>from_chars_all\<close> depends on the start value in no case.\<close>

lemma from_chars_all_eq:
  "from_chars_all s v0 =
     (let neg = (s \<noteq> [] \<and> s ! 0 = CHR ''-'');
          ds = (if neg then tl s else s);
          v = (if neg then - int (dec_value ds) else int (dec_value ds))
      in if ds \<noteq> [] \<and> list_all is_digit ds \<and> in_int64 v then Some v else None)"
proof -
  define ds where "ds = (if s \<noteq> [] \<and> s ! 0 = CHR ''-'' then tl s else s)"
  have len: "(if s \<noteq> [] \<and> s ! 0 = CHR ''-'' then Suc (length ds') else length ds') = length s
      \<longleftrightarrow> length ds' = length ds" for ds' :: string
    by (cases s) (auto simp: ds_def)
  show ?thesis
  proof (cases "list_all is_digit ds")
    case True
    then have tw: "takeWhile is_digit ds = ds" by (simp add: takeWhile_eq_all_conv list_all_iff)
    from True len [of ds] show ?thesis
      unfolding from_chars_all_def from_chars_def Let_def ds_def [symmetric] tw by auto
  next
    case False
    then have "length (takeWhile is_digit ds) \<noteq> length ds"
      by (metis list_all_iff set_takeWhileD takeWhile_eq_take take_all order_refl)
    with False len [of "takeWhile is_digit ds"] show ?thesis
      unfolding from_chars_all_def from_chars_def Let_def ds_def [symmetric] by auto
  qed
qed

lemma from_chars_all_Some_in_int64: "from_chars_all s v0 = Some v \<Longrightarrow> in_int64 v"
  by (auto simp: from_chars_all_eq Let_def split: if_splits)

lemma from_chars_all_no_CR: "from_chars_all s v0 = Some v \<Longrightarrow> CR \<notin> set s"
proof -
  assume a: "from_chars_all s v0 = Some v"
  then have "list_all is_digit (if s \<noteq> [] \<and> s ! 0 = CHR ''-'' then tl s else s)"
    by (auto simp: from_chars_all_eq Let_def split: if_splits)
  then show ?thesis
    by (cases s) (auto simp: list_all_iff split: if_splits)
qed

lemma from_chars_all_show_int [simp]:
  "in_int64 i \<Longrightarrow> from_chars_all (show_int i) v0 = Some i"
  using show_nat_digits by (auto simp: from_chars_all_eq show_int_def Let_def list_all_iff)

lemma from_chars_all_show_nat [simp]:
  "n < 2 ^ 63 \<Longrightarrow> from_chars_all (show_nat n) v0 = Some (int n)"
  using from_chars_all_show_int [of "int n" v0] by (simp add: show_int_def in_int64_def)

lemma stoll_show_nat [simp]: "n < 2 ^ 63 \<Longrightarrow> stoll (show_nat n) = Inr (int n)"
proof -
  assume n: "n < 2 ^ 63"
  have "dropWhile is_space (show_nat n) = show_nat n"
    using show_nat_hd [of n] digit_not_space
    by (cases "show_nat n") (auto simp: dropWhile_eq_self_iff)
  with n show ?thesis by (simp add: stoll_def Let_def in_int64_def)
qed

lemma wrap64_id [simp]: "in_int64 i \<Longrightarrow> wrap64 i = i"
  by (simp add: wrap64_def in_int64_def)

lemma wrap64_in_int64 [simp]: "in_int64 (wrap64 i)"
  using pos_mod_bound [of "2 ^ 64" "i + 2 ^ 63"] pos_mod_sign [of "2 ^ 64" "i + 2 ^ 63"]
  by (simp add: wrap64_def in_int64_def)

lemma size_wrap_id [simp]: "n < 2 ^ 64 \<Longrightarrow> size_wrap n = n"
  by (simp add: size_wrap_def)

lemma size_wrap_small: "n \<le> max_size + 4 \<Longrightarrow> size_wrap n = n"
  by (rule size_wrap_id) (simp add: max_size_def)

text \<open>Positions step over CRLF as \<open>pos + 2\<close>: keep that form.\<close>

declare add_2_eq_Suc [simp del] add_2_eq_Suc' [simp del]

end
