(* ===== verification/Kv_Map.thy ===== *)
theory Kv_Map
  imports Byte_Strings "HOL-Library.AList"
begin

section \<open>The hash map interface\<close>

text \<open>
  Three components keep a \<open>std::unordered_map\<close>: the database (\<open>store\<close>), the server
  (\<open>clients\<close>) and the authentication manager (\<open>users\<close>). The locale \<open>kv_map\<close> is what they
  rely on: lookup after insertion and erasure, distinct keys, and an iteration that visits
  each entry once. The model of \<open>std::unordered_map\<close> is an association list with distinct
  keys whose list order stands for the iteration order, which the standard leaves open.
\<close>

locale kv_map =
  fixes empty :: 'm
    and lookup :: "'m \<Rightarrow> 'k \<Rightarrow> 'v option"
    and update :: "'k \<Rightarrow> 'v \<Rightarrow> 'm \<Rightarrow> 'm"
    and delete :: "'k \<Rightarrow> 'm \<Rightarrow> 'm"
    and items :: "'m \<Rightarrow> ('k \<times> 'v) list"
    and invar :: "'m \<Rightarrow> bool"
  assumes lookup_empty: "lookup empty = Map.empty"
    and lookup_update: "invar m \<Longrightarrow> lookup (update k v m) = (lookup m)(k \<mapsto> v)"
    and lookup_delete: "invar m \<Longrightarrow> lookup (delete k m) = (lookup m)(k := None)"
    and invar_empty: "invar empty"
    and invar_update: "invar m \<Longrightarrow> invar (update k v m)"
    and invar_delete: "invar m \<Longrightarrow> invar (delete k m)"
    and items_distinct: "invar m \<Longrightarrow> distinct (map fst (items m))"
    and items_lookup: "invar m \<Longrightarrow> map_of (items m) = lookup m"
begin

text \<open>Inserting a list of pairs one after the other, as a restore loop does.\<close>

lemma invar_fold_update: "invar m \<Longrightarrow> invar (fold (\<lambda>(k, v). update k v) kvs m)"
  by (induction kvs arbitrary: m) (auto intro: invar_update)

lemma lookup_fold_update:
  "invar m \<Longrightarrow> lookup (fold (\<lambda>(k, v). update k v) kvs m) = lookup m ++ map_of (rev kvs)"
proof (induction kvs arbitrary: m)
  case Nil
  then show ?case by simp
next
  case (Cons kv kvs)
  obtain k v where kv: "kv = (k, v)" by fastforce
  have "lookup (fold (\<lambda>(k, v). update k v) kvs (update k v m)) =
      (lookup m)(k \<mapsto> v) ++ map_of (rev kvs)"
    using Cons.IH [OF invar_update [OF Cons.prems]] lookup_update [OF Cons.prems] by metis
  then show ?case by (simp add: kv map_add_def fun_eq_iff split: option.split)
qed

text \<open>Copying a map entry by entry into an empty one gives the same map.\<close>

lemma lookup_copy:
  assumes "invar m"
  shows "lookup (fold (\<lambda>(k, v). update k v) (items m) empty) = lookup m"
proof -
  have "map_of (rev (items m)) = map_of (items m)"
    using items_distinct [OF assms] map_of_inject_set [of "rev (items m)" "items m"]
    by (simp add: rev_map [symmetric])
  then show ?thesis
    by (simp add: lookup_fold_update invar_empty lookup_empty items_lookup assms)
qed

lemma items_iff: "invar m \<Longrightarrow> (k, v) \<in> set (items m) \<longleftrightarrow> lookup m k = Some v"
  using items_distinct [of m] items_lookup [of m] by (metis map_of_eq_Some_iff)

end

interpretation umap: kv_map
  "[]" map_of AList.update AList.delete "\<lambda>m. m" "\<lambda>m. distinct (map fst m)"
proof unfold_locales
  show "distinct (map fst (AList.update k v m))" if "distinct (map fst m)"
    for k :: 'a and v :: 'b and m
    using that by (rule distinct_update)
  show "distinct (map fst (AList.delete k m))" if "distinct (map fst m)"
    for k :: 'a and m :: "('a \<times> 'b) list"
    using that by (rule distinct_delete)
qed (simp_all add: update_conv' delete_conv')

lemma map_leI: "(\<And>k v. f k = Some v \<Longrightarrow> g k = Some v) \<Longrightarrow> f \<subseteq>\<^sub>m g"
  by (auto simp: map_le_def dom_def)

lemma map_leD: "f \<subseteq>\<^sub>m g \<Longrightarrow> f k = Some v \<Longrightarrow> g k = Some v"
  by (metis map_le_def domI)

text \<open>\<open>emplace\<close> inserts only when the key is absent.\<close>

definition emplace :: "'k \<Rightarrow> 'v \<Rightarrow> ('k \<times> 'v) list \<Rightarrow> ('k \<times> 'v) list" where
  "emplace k v m = (if map_of m k = None then AList.update k v m else m)"

lemma emplace_distinct [simp]: "distinct (map fst m) \<Longrightarrow> distinct (map fst (emplace k v m))"
  by (simp add: emplace_def distinct_update)

lemma map_of_emplace:
  "map_of (emplace k v m) = (if map_of m k = None then (map_of m)(k \<mapsto> v) else map_of m)"
  by (simp add: emplace_def update_conv')

end
