(* ===== verification/Database.thy ===== *)
theory Database
  imports Kv_Map "HOL-Library.Stream"
begin

section \<open>The database: keys, values and expiry times\<close>

text \<open>
  \<open>src/database.cpp\<close> and \<open>include/database.hpp\<close>. Times are the nanosecond counts of
  \<open>std::chrono::system_clock\<close>. The clock is an argument: the stream of the readings that
  successive calls of \<open>now()\<close> return, in order, with no assumption that they grow. An
  operation returns its result, the new database and the readings it left.
\<close>

subsection \<open>State and clock\<close>

record entry =
  entry_value :: string
  expires_at :: "int option"

record key_value =
  kv_key :: string
  kv_value :: string

record database =
  store :: "(string \<times> entry) list"

definition empty_database :: database where
  "empty_database = \<lparr>store = []\<rparr>"

type_synonym clock = "int stream"

definition now :: "clock \<Rightarrow> int \<times> clock" where
  "now clk = (shd clk, stl clk)"

definition ns_per_second :: int where
  "ns_per_second = 1000000000"

text \<open>\<open>duration_cast<seconds>\<close> of a nanosecond count truncates towards zero.\<close>

definition cast_seconds :: "int \<Rightarrow> int" where
  "cast_seconds d = (if 0 \<le> d then d div ns_per_second else - (- d div ns_per_second))"

subsection \<open>Operations\<close>

definition is_expired :: "entry \<Rightarrow> clock \<Rightarrow> bool \<times> clock" where
  "is_expired e clk =
     (case expires_at e of
        None \<Rightarrow> (False, clk)
      | Some x \<Rightarrow> (case now clk of (t, clk') \<Rightarrow> (x \<le> t, clk')))"

definition remove_if_expired :: "string \<Rightarrow> database \<Rightarrow> clock \<Rightarrow> database \<times> clock" where
  "remove_if_expired key db clk =
     (case map_of (store db) key of
        None \<Rightarrow> (db, clk)
      | Some e \<Rightarrow>
          (case is_expired e clk of
             (True, clk') \<Rightarrow> (db\<lparr>store := AList.delete key (store db)\<rparr>, clk')
           | (False, clk') \<Rightarrow> (db, clk')))"

definition db_set :: "string \<Rightarrow> string \<Rightarrow> database \<Rightarrow> database" where
  "db_set key v db =
     db\<lparr>store := AList.update key \<lparr>entry_value = v, expires_at = None\<rparr> (store db)\<rparr>"

definition db_get :: "string \<Rightarrow> database \<Rightarrow> clock \<Rightarrow> string option \<times> database \<times> clock" where
  "db_get key db clk =
     (case remove_if_expired key db clk of
        (db', clk') \<Rightarrow>
          (case map_of (store db') key of
             None \<Rightarrow> (None, db', clk')
           | Some e \<Rightarrow> (Some (entry_value e), db', clk')))"

definition db_del :: "string \<Rightarrow> database \<Rightarrow> clock \<Rightarrow> bool \<times> database \<times> clock" where
  "db_del key db clk =
     (case remove_if_expired key db clk of
        (db', clk') \<Rightarrow>
          (map_of (store db') key \<noteq> None, db'\<lparr>store := AList.delete key (store db')\<rparr>, clk'))"

definition db_exists :: "string \<Rightarrow> database \<Rightarrow> clock \<Rightarrow> bool \<times> database \<times> clock" where
  "db_exists key db clk =
     (case remove_if_expired key db clk of
        (db', clk') \<Rightarrow> (map_of (store db') key \<noteq> None, db', clk'))"

text \<open>
  The seconds are converted to nanoseconds and added to the clock in 64-bit arithmetic.
\<close>

definition db_expire :: "string \<Rightarrow> int \<Rightarrow> database \<Rightarrow> clock \<Rightarrow> database \<times> clock" where
  "db_expire key seconds db clk =
     (case map_of (store db) key of
        None \<Rightarrow> (db, clk)
      | Some e \<Rightarrow>
          (case now clk of
             (t, clk') \<Rightarrow>
               (db\<lparr>store := AList.update key
                    (e\<lparr>expires_at := Some (wrap64 (t + wrap64 (seconds * ns_per_second)))\<rparr>)
                    (store db)\<rparr>, clk')))"

definition db_ttl :: "string \<Rightarrow> database \<Rightarrow> clock \<Rightarrow> int \<times> database \<times> clock" where
  "db_ttl key db clk =
     (case remove_if_expired key db clk of
        (db', clk') \<Rightarrow>
          (case map_of (store db') key of
             None \<Rightarrow> (-2, db', clk')
           | Some e \<Rightarrow>
               (case expires_at e of
                  None \<Rightarrow> (-1, db', clk')
                | Some x \<Rightarrow>
                    (case now clk' of
                       (t, clk'') \<Rightarrow>
                         (let remaining = cast_seconds (wrap64 (x - t))
                          in (if remaining < 0 then 0 else remaining, db', clk''))))))"

text \<open>The loop of \<open>entries\<close>, which reads the clock once per entry that has an expiry time.\<close>

fun collect_entries :: "(string \<times> entry) list \<Rightarrow> clock \<Rightarrow> key_value list \<times> clock" where
  "collect_entries [] clk = ([], clk)"
| "collect_entries ((k, e) # rest) clk =
     (case is_expired e clk of
        (True, clk') \<Rightarrow> collect_entries rest clk'
      | (False, clk') \<Rightarrow>
          (case collect_entries rest clk' of
             (kvs, clk'') \<Rightarrow> (\<lparr>kv_key = k, kv_value = entry_value e\<rparr> # kvs, clk'')))"

definition entries :: "database \<Rightarrow> clock \<Rightarrow> key_value list \<times> clock" where
  "entries db clk = collect_entries (store db) clk"

definition restore_set :: "string \<Rightarrow> string \<Rightarrow> database \<Rightarrow> database" where
  "restore_set key v db =
     db\<lparr>store := AList.update key \<lparr>entry_value = v, expires_at = None\<rparr> (store db)\<rparr>"

definition restore_delete :: "string \<Rightarrow> database \<Rightarrow> database" where
  "restore_delete key db = db\<lparr>store := AList.delete key (store db)\<rparr>"

subsection \<open>What a database means at a time\<close>

text \<open>
  \<open>live t db\<close> is the abstract state: the keys whose entry is not expired at time \<open>t\<close>, with
  their values. An entry is expired from its expiry time on.
\<close>

definition expired_at :: "int \<Rightarrow> entry \<Rightarrow> bool" where
  "expired_at t e \<longleftrightarrow> (case expires_at e of None \<Rightarrow> False | Some x \<Rightarrow> x \<le> t)"

definition live :: "int \<Rightarrow> database \<Rightarrow> string \<Rightarrow> string option" where
  "live t db k =
     (case map_of (store db) k of
        None \<Rightarrow> None
      | Some e \<Rightarrow> if expired_at t e then None else Some (entry_value e))"

definition db_wf :: "database \<Rightarrow> bool" where
  "db_wf db \<longleftrightarrow> distinct (map fst (store db))"

text \<open>
  The contract the dispatcher and the persistence manager rely on: the four operations act
  on the live keys as on a plain map, and lazy removal is not visible at later times.
\<close>

locale kv_store =
  fixes view :: "int \<Rightarrow> 'db \<Rightarrow> string \<Rightarrow> string option"
    and inv :: "'db \<Rightarrow> bool"
    and set_op :: "string \<Rightarrow> string \<Rightarrow> 'db \<Rightarrow> 'db"
    and get_op :: "string \<Rightarrow> 'db \<Rightarrow> clock \<Rightarrow> string option \<times> 'db \<times> clock"
    and del_op :: "string \<Rightarrow> 'db \<Rightarrow> clock \<Rightarrow> bool \<times> 'db \<times> clock"
    and exists_op :: "string \<Rightarrow> 'db \<Rightarrow> clock \<Rightarrow> bool \<times> 'db \<times> clock"
  assumes inv_set: "inv db \<Longrightarrow> inv (set_op k v db)"
    and inv_get: "inv db \<Longrightarrow> get_op k db clk = (r, db', clk') \<Longrightarrow> inv db'"
    and inv_del: "inv db \<Longrightarrow> del_op k db clk = (b, db', clk') \<Longrightarrow> inv db'"
    and inv_exists: "inv db \<Longrightarrow> exists_op k db clk = (b, db', clk') \<Longrightarrow> inv db'"
    and view_set: "inv db \<Longrightarrow> view t (set_op k v db) = (view t db)(k \<mapsto> v)"
    and get_result: "inv db \<Longrightarrow> get_op k db clk = (r, db', clk') \<Longrightarrow> r = view (shd clk) db k"
    and del_result:
      "inv db \<Longrightarrow> del_op k db clk = (b, db', clk') \<Longrightarrow> b = (view (shd clk) db k \<noteq> None)"
    and exists_result:
      "inv db \<Longrightarrow> exists_op k db clk = (b, db', clk') \<Longrightarrow> b = (view (shd clk) db k \<noteq> None)"
    and view_get:
      "inv db \<Longrightarrow> get_op k db clk = (r, db', clk') \<Longrightarrow> shd clk \<le> t \<Longrightarrow> view t db' = view t db"
    and view_del: "inv db \<Longrightarrow> del_op k db clk = (b, db', clk') \<Longrightarrow>
        view t db' = (view t db)(k := None)"
    and view_exists:
      "inv db \<Longrightarrow> exists_op k db clk = (b, db', clk') \<Longrightarrow> shd clk \<le> t \<Longrightarrow> view t db' = view t db"
begin

lemma get_after_set: "inv db \<Longrightarrow> fst (get_op k (set_op k v db) clk) = Some v"
  by (cases "get_op k (set_op k v db) clk") (auto dest!: get_result [rotated] simp: inv_set view_set)

lemma get_after_set_other:
  "inv db \<Longrightarrow> k \<noteq> k' \<Longrightarrow> fst (get_op k' (set_op k v db) clk) = view (shd clk) db k'"
  by (cases "get_op k' (set_op k v db) clk") (auto dest!: get_result [rotated] simp: inv_set view_set)

lemma get_after_del:
  assumes "inv db" and "del_op k db clk = (b, db', clk')"
  shows "fst (get_op k db' clk'') = None"
  using assms inv_del [OF assms] view_del [OF assms] get_result [of db' k clk'']
  by (cases "get_op k db' clk''") auto

lemma get_after_get:
  assumes "inv db" "get_op k db clk = (r, db', clk')" "shd clk \<le> shd clk''"
  shows "fst (get_op k' db' clk'') = view (shd clk'') db k'"
  using assms inv_get [OF assms(1,2)] view_get [OF assms] get_result [of db' k' clk'']
  by (cases "get_op k' db' clk''") auto

end

subsection \<open>The operations keep the contract\<close>

named_theorems db_defs \<open>definitions of the database operations\<close>

declare is_expired_def [db_defs] remove_if_expired_def [db_defs] db_set_def [db_defs]
  db_get_def [db_defs] db_del_def [db_defs] db_exists_def [db_defs] db_expire_def [db_defs]
  db_ttl_def [db_defs] restore_set_def [db_defs] restore_delete_def [db_defs] now_def [db_defs]

lemma is_expired_now:
  "is_expired e clk =
     (expired_at (shd clk) e, if expires_at e = None then clk else stl clk)"
  by (auto simp: is_expired_def expired_at_def now_def split: option.split)

lemma expired_at_mono: "expired_at t e \<Longrightarrow> t \<le> t' \<Longrightarrow> expired_at t' e"
  by (auto simp: expired_at_def split: option.splits)

lemma live_antimono: "live t' db k = Some v \<Longrightarrow> t \<le> t' \<Longrightarrow> live t db k = Some v"
  by (auto simp: live_def dest: expired_at_mono split: option.splits if_splits)

text \<open>Lazy removal, in one equation: the entry goes exactly when it is expired now.\<close>

lemma remove_if_expired_eq:
  "remove_if_expired k db clk =
     (case map_of (store db) k of
        None \<Rightarrow> (db, clk)
      | Some e \<Rightarrow>
          (if expired_at (shd clk) e then db\<lparr>store := AList.delete k (store db)\<rparr> else db,
           if expires_at e = None then clk else stl clk))"
  by (auto simp: remove_if_expired_def is_expired_now split: option.split)

lemma remove_if_expired_wf: "db_wf db \<Longrightarrow> db_wf (fst (remove_if_expired k db clk))"
  by (auto simp: remove_if_expired_eq db_wf_def distinct_delete split: option.split)

lemma map_of_remove_if_expired:
  "map_of (store (fst (remove_if_expired k db clk))) =
     (case map_of (store db) k of
        None \<Rightarrow> map_of (store db)
      | Some e \<Rightarrow> if expired_at (shd clk) e then (map_of (store db))(k := None)
                 else map_of (store db))"
  by (auto simp: remove_if_expired_eq delete_conv' split: option.split)

lemma live_remove_if_expired:
  "shd clk \<le> t \<Longrightarrow> live t (fst (remove_if_expired k db clk)) = live t db"
  by (auto simp: live_def fun_eq_iff map_of_remove_if_expired dest: expired_at_mono
      split: option.splits)

lemma map_of_remove_if_expired_self:
  "map_of (store (fst (remove_if_expired k db clk))) k =
     (case map_of (store db) k of
        None \<Rightarrow> None | Some e \<Rightarrow> if expired_at (shd clk) e then None else Some e)"
  by (auto simp: map_of_remove_if_expired split: option.split)

lemma live_remove_if_expired_self:
  "map_option entry_value (map_of (store (fst (remove_if_expired k db clk))) k) =
     live (shd clk) db k"
  by (auto simp: map_of_remove_if_expired_self live_def split: option.split)

lemma db_get_eq:
  "db_get k db clk =
     (live (shd clk) db k, fst (remove_if_expired k db clk), snd (remove_if_expired k db clk))"
  unfolding db_get_def live_remove_if_expired_self [symmetric]
  by (auto split: prod.split option.split)

lemma db_exists_eq:
  "db_exists k db clk =
     (live (shd clk) db k \<noteq> None, fst (remove_if_expired k db clk),
      snd (remove_if_expired k db clk))"
  unfolding db_exists_def live_remove_if_expired_self [symmetric]
  by (auto split: prod.split option.split)

lemma db_del_eq:
  "db_del k db clk =
     (live (shd clk) db k \<noteq> None, restore_delete k (fst (remove_if_expired k db clk)),
      snd (remove_if_expired k db clk))"
  unfolding db_del_def live_remove_if_expired_self [symmetric] restore_delete_def
  by (auto split: prod.split option.split)

lemma db_set_eq: "db_set = restore_set"
  by (simp add: fun_eq_iff db_set_def restore_set_def)

lemma live_restore_set: "live t (restore_set k v db) = (live t db)(k \<mapsto> v)"
  by (auto simp: live_def fun_eq_iff restore_set_def update_conv' expired_at_def)

lemma live_restore_delete: "live t (restore_delete k db) = (live t db)(k := None)"
  by (auto simp: live_def fun_eq_iff restore_delete_def delete_conv')

lemma restore_set_wf [simp]: "db_wf db \<Longrightarrow> db_wf (restore_set k v db)"
  by (simp add: db_wf_def restore_set_def distinct_update)

lemma restore_delete_wf [simp]: "db_wf db \<Longrightarrow> db_wf (restore_delete k db)"
  by (simp add: db_wf_def restore_delete_def distinct_delete)

lemma db_expire_wf: "db_wf db \<Longrightarrow> db_wf (fst (db_expire k s db clk))"
  by (auto simp: db_expire_def db_wf_def now_def distinct_update split: option.split)

lemma live_empty [simp]: "live t empty_database = Map.empty"
  by (simp add: live_def empty_database_def fun_eq_iff)

lemma empty_database_wf [simp]: "db_wf empty_database"
  by (simp add: db_wf_def empty_database_def)

interpretation dbs: kv_store live db_wf db_set db_get db_del db_exists
proof unfold_locales
  fix db k clk and t :: int
  assume wf: "db_wf db"
  show "db_wf (db_set k v db)" for v using wf by (simp add: db_set_eq)
  show "live t (db_set k v db) = (live t db)(k \<mapsto> v)" for v
    by (simp add: db_set_eq live_restore_set)
  show "db_wf db'" if "db_get k db clk = (r, db', clk')" for r db' clk'
    using that remove_if_expired_wf [OF wf, of k clk] by (auto simp: db_get_eq)
  show "db_wf db'" if "db_exists k db clk = (r, db', clk')" for r db' clk'
    using that remove_if_expired_wf [OF wf, of k clk] by (auto simp: db_exists_eq)
  show "db_wf db'" if "db_del k db clk = (r, db', clk')" for r db' clk'
    using that remove_if_expired_wf [OF wf, of k clk] by (auto simp: db_del_eq)
  show "r = live (shd clk) db k" if "db_get k db clk = (r, db', clk')" for r db' clk'
    using that by (simp add: db_get_eq)
  show "r = (live (shd clk) db k \<noteq> None)" if "db_del k db clk = (r, db', clk')" for r db' clk'
    using that by (simp add: db_del_eq)
  show "r = (live (shd clk) db k \<noteq> None)" if "db_exists k db clk = (r, db', clk')" for r db' clk'
    using that by (simp add: db_exists_eq)
  show "live t db' = live t db" if "db_get k db clk = (r, db', clk')" "shd clk \<le> t" for r db' clk'
    using that live_remove_if_expired [of clk t k db] by (auto simp: db_get_eq)
  show "live t db' = live t db" if "db_exists k db clk = (r, db', clk')" "shd clk \<le> t"
    for r db' clk'
    using that live_remove_if_expired [of clk t k db] by (auto simp: db_exists_eq)
  show "live t db' = (live t db)(k := None)" if "db_del k db clk = (r, db', clk')" for r db' clk'
  proof -
    from that have "db' = restore_delete k (fst (remove_if_expired k db clk))"
      by (simp add: db_del_eq)
    then show ?thesis
      by (auto simp: live_restore_delete live_def fun_eq_iff map_of_remove_if_expired
          split: option.split)
  qed
qed

subsection \<open>Entries of a database\<close>

abbreviation kv_pair :: "key_value \<Rightarrow> string \<times> string" where
  "kv_pair kv \<equiv> (kv_key kv, kv_value kv)"

lemma collect_entries_Cons:
  "fst (collect_entries ((k, e) # rest) clk) =
     (if expired_at (shd clk) e then [] else [\<lparr>kv_key = k, kv_value = entry_value e\<rparr>]) @
     fst (collect_entries rest (snd (is_expired e clk)))"
  by (simp add: is_expired_now split: prod.split)

lemma collect_entries_keys: "kv_key ` set (fst (collect_entries es clk)) \<subseteq> fst ` set es"
proof (induction es arbitrary: clk)
  case (Cons ke es)
  obtain k e where ke: "ke = (k, e)" by fastforce
  show ?case
    using Cons.IH [of "snd (is_expired e clk)"] unfolding ke collect_entries_Cons by auto
qed simp

lemma collect_entries_distinct:
  "distinct (map fst es) \<Longrightarrow> distinct (map kv_key (fst (collect_entries es clk)))"
proof (induction es arbitrary: clk)
  case (Cons ke es)
  obtain k e where ke: "ke = (k, e)" by fastforce
  show ?case
    using Cons.IH [of "snd (is_expired e clk)"] Cons.prems
      collect_entries_keys [of es "snd (is_expired e clk)"]
    unfolding ke collect_entries_Cons by (auto simp: image_iff subset_iff)
qed simp

text \<open>
  An entry is written when it is unexpired at its own reading. When the readings of the loop,
  one per entry at most, lie between \<open>t0\<close> and \<open>t1\<close>, all that is live at \<open>t1\<close> is there and
  all that is there was live at \<open>t0\<close>.
\<close>

definition readings :: "nat \<Rightarrow> int \<Rightarrow> int \<Rightarrow> clock \<Rightarrow> bool" where
  "readings n t0 t1 clk \<longleftrightarrow> (\<forall>r \<in> set (stake n clk). t0 \<le> r \<and> r \<le> t1)"

lemma readings_mono:
  assumes "readings n t0 t1 clk" "m \<le> n"
  shows "readings m t0 t1 clk"
proof -
  have "set (stake m clk) \<subseteq> set (stake n clk)"
    using take_stake [of m n clk] assms(2) by (metis min.absorb1 set_take_subset)
  with assms(1) show ?thesis by (auto simp: readings_def)
qed

lemma readings_is_expired:
  assumes "readings (Suc n) t0 t1 clk"
  shows "t0 \<le> shd clk" and "shd clk \<le> t1" and "readings n t0 t1 (snd (is_expired e clk))"
  using assms readings_mono [OF assms, of n] by (auto simp: is_expired_now readings_def)

lemma readings_sconst [simp]: "readings n t0 t1 (sconst t) \<longleftrightarrow> n = 0 \<or> t0 \<le> t \<and> t \<le> t1"
  by (cases n) (auto simp: readings_def)

lemma collect_entries_complete:
  assumes "readings (length es) t0 t1 clk"
  shows "(k, e) \<in> set es \<Longrightarrow> \<not> expired_at t1 e \<Longrightarrow>
      \<lparr>kv_key = k, kv_value = entry_value e\<rparr> \<in> set (fst (collect_entries es clk))"
  using assms
proof (induction es arbitrary: clk)
  case (Cons ke es)
  obtain k' e' where ke: "ke = (k', e')" by fastforce
  note bounds = readings_is_expired [OF Cons.prems(3) [simplified]]
  have "\<not> expired_at (shd clk) e" using Cons.prems(2) bounds(2) expired_at_mono by blast
  with Cons.IH [OF _ Cons.prems(2) bounds(3)] Cons.prems(1) show ?case
    by (auto simp: ke collect_entries_Cons simp del: collect_entries.simps)
qed simp

lemma collect_entries_sound:
  assumes "readings (length es) t0 t1 clk"
  shows "kv \<in> set (fst (collect_entries es clk)) \<Longrightarrow>
      \<exists>e. (kv_key kv, e) \<in> set es \<and> kv_value kv = entry_value e \<and> \<not> expired_at t0 e"
  using assms
proof (induction es arbitrary: clk)
  case (Cons ke es)
  obtain k' e' where ke: "ke = (k', e')" by fastforce
  note bounds = readings_is_expired [OF Cons.prems(2) [simplified]]
  have "\<not> expired_at t0 e'" if "\<not> expired_at (shd clk) e'"
    using that bounds(1) expired_at_mono by blast
  with Cons.IH [OF _ bounds(3)] Cons.prems(1) show ?case
    by (fastforce simp: ke collect_entries_Cons simp del: collect_entries.simps split: if_splits)
qed simp

text \<open>With clock readings between \<open>t0\<close> and \<open>t1\<close>, \<open>entries\<close> lists each key at
  most once, every pair live at \<open>t1\<close>, and only pairs live at \<open>t0\<close>.\<close>

lemma entries_live:
  assumes "db_wf db" and "readings (length (store db)) t0 t1 clk"
  shows "distinct (map kv_key (fst (entries db clk))) \<and>
    live t1 db \<subseteq>\<^sub>m map_of (map kv_pair (fst (entries db clk))) \<and>
    map_of (map kv_pair (fst (entries db clk))) \<subseteq>\<^sub>m live t0 db"
proof (intro conjI)
  show d: "distinct (map kv_key (fst (entries db clk)))"
    using assms(1) by (simp add: entries_def db_wf_def collect_entries_distinct)
  then have d': "distinct (map fst (map kv_pair (fst (entries db clk))))" by (simp add: comp_def)
  show "live t1 db \<subseteq>\<^sub>m map_of (map kv_pair (fst (entries db clk)))"
  proof (rule map_leI)
    fix k v
    assume "live t1 db k = Some v"
    then obtain e where "map_of (store db) k = Some e" "v = entry_value e" "\<not> expired_at t1 e"
      by (auto simp: live_def split: option.splits if_splits)
    then have "(k, v) \<in> kv_pair ` set (fst (entries db clk))"
      using collect_entries_complete [OF assms(2) map_of_SomeD] by (force simp: entries_def)
    with d' show "map_of (map kv_pair (fst (entries db clk))) k = Some v" by simp
  qed
  show "map_of (map kv_pair (fst (entries db clk))) \<subseteq>\<^sub>m live t0 db"
  proof (rule map_leI)
    fix k v
    assume "map_of (map kv_pair (fst (entries db clk))) k = Some v"
    then obtain kv where "kv \<in> set (fst (collect_entries (store db) clk))" "kv_pair kv = (k, v)"
      by (auto dest!: map_of_SomeD simp: entries_def)
    with collect_entries_sound [OF assms(2), of kv] assms(1) show "live t0 db k = Some v"
      by (auto simp: live_def db_wf_def)
  qed
qed

subsection \<open>Expiry times\<close>

lemma live_expire:
  "live t' (fst (db_expire k s db clk)) =
     (case map_of (store db) k of
        None \<Rightarrow> live t' db
      | Some e \<Rightarrow> (live t' db)
          (k := if wrap64 (shd clk + wrap64 (s * ns_per_second)) \<le> t' then None
                else Some (entry_value e)))"
  by (auto simp: live_def db_expire_def now_def update_conv' fun_eq_iff expired_at_def
      split: option.split)

lemma wrap64_expiry:
  assumes "in_int64 (s * ns_per_second)" "in_int64 (t + s * ns_per_second)"
  shows "wrap64 (t + wrap64 (s * ns_per_second)) = t + s * ns_per_second"
  using assms by simp

lemma live_SomeE:
  assumes "live t db k = Some v"
  obtains e where "map_of (store db) k = Some e" "entry_value e = v" "\<not> expired_at t e"
  using assms by (auto simp: live_def split: option.splits if_splits)

lemma db_ttl_None: "live (shd clk) db k = None \<Longrightarrow> fst (db_ttl k db clk) = -2"
  using live_remove_if_expired_self [of k db clk]
  by (auto simp: db_ttl_def split: prod.split option.split)

lemma db_ttl_Some:
  assumes "map_of (store db) k = Some e" "\<not> expired_at (shd clk) e"
  shows "fst (db_ttl k db clk) =
      (case expires_at e of
         None \<Rightarrow> -1 | Some x \<Rightarrow> max 0 (cast_seconds (wrap64 (x - shd (stl clk)))))"
  using assms
  by (auto simp: db_ttl_def remove_if_expired_eq now_def Let_def split: option.split)

text \<open>Clamped at zero, truncation and rounding down agree.\<close>

lemma max_cast_seconds [simp]: "max 0 (cast_seconds d) = max 0 (d div ns_per_second)"
  by (auto simp: cast_seconds_def ns_per_second_def max_def pos_imp_zdiv_nonneg_iff)

subsection \<open>Properties\<close>

text \<open>C1 (db_refines_map): SET, GET, DEL and EXISTS act on the live keys as on a plain map.
  GET and EXISTS answer from the state at their clock reading, their lazy removal is
  invisible at that time and later, DEL removes exactly its key, SET stores exactly its pair
  and clears an old expiry time, and all of them keep the keys distinct.\<close>

theorem db_refines_map:
  assumes "db_wf db"
  shows "(live t (db_set k v db) = (live t db)(k \<mapsto> v) \<and> db_wf (db_set k v db)) \<and>
    (case db_get k db clk of (r, db', _) \<Rightarrow>
       r = live (shd clk) db k \<and> (shd clk \<le> t \<longrightarrow> live t db' = live t db) \<and> db_wf db') \<and>
    (case db_exists k db clk of (b, db', _) \<Rightarrow>
       b = (live (shd clk) db k \<noteq> None) \<and> (shd clk \<le> t \<longrightarrow> live t db' = live t db) \<and> db_wf db') \<and>
    (case db_del k db clk of (b, db', _) \<Rightarrow>
       b = (live (shd clk) db k \<noteq> None) \<and> live t db' = (live t db)(k := None) \<and> db_wf db')"
proof (intro conjI)
  show "live t (db_set k v db) = (live t db)(k \<mapsto> v)" "db_wf (db_set k v db)"
    using assms by (simp_all add: dbs.view_set dbs.inv_set)
  show "case db_get k db clk of (r, db', _) \<Rightarrow>
      r = live (shd clk) db k \<and> (shd clk \<le> t \<longrightarrow> live t db' = live t db) \<and> db_wf db'"
    using dbs.get_result [OF assms] dbs.view_get [OF assms] dbs.inv_get [OF assms]
    by (auto split: prod.split)
  show "case db_exists k db clk of (b, db', _) \<Rightarrow>
      b = (live (shd clk) db k \<noteq> None) \<and> (shd clk \<le> t \<longrightarrow> live t db' = live t db) \<and> db_wf db'"
    using dbs.exists_result [OF assms] dbs.view_exists [OF assms] dbs.inv_exists [OF assms]
    by (auto split: prod.split)
  show "case db_del k db clk of (b, db', _) \<Rightarrow>
      b = (live (shd clk) db k \<noteq> None) \<and> live t db' = (live t db)(k := None) \<and> db_wf db'"
    using dbs.del_result [OF assms] dbs.view_del [OF assms] dbs.inv_del [OF assms]
    by (auto split: prod.split)
qed

definition sample_db :: database where
  "sample_db = \<lparr>store = [(''a'', \<lparr>entry_value = ''1'', expires_at = None\<rparr>),
                         (''b'', \<lparr>entry_value = ''2'', expires_at = Some 100\<rparr>)]\<rparr>"

lemma sample_db_wf: "db_wf sample_db"
  by (simp add: db_wf_def sample_db_def)

theorem db_refines_map_witness:
  "db_wf sample_db \<and> fst (db_get ''b'' sample_db (sconst 100)) = None \<and>
   live 100 (db_set ''b'' ''3'' sample_db) ''b'' = Some ''3'' \<and>
   live 50 (fst (snd (db_del ''a'' sample_db (sconst 50)))) ''a'' = None"
proof -
  have "live 100 sample_db ''b'' = None"
    by (simp add: sample_db_def live_def expired_at_def)
  then show ?thesis
    using db_refines_map [OF sample_db_wf, of 100 "''b''" "''3''" "sconst 100"]
      db_refines_map [OF sample_db_wf, of 50 "''a''" "''3''" "sconst 50"] sample_db_wf
    by (auto split: prod.splits)
qed

text \<open>C35 (expire_live_until): EXPIRE on a live key, with seconds whose nanosecond count fits in
  64 bits, keeps the value until exactly that long after its clock reading and drops the key
  from then on; every other key is unchanged at every time.\<close>

theorem expire_live_until:
  assumes "live (shd clk) db k = Some v"
    and "in_int64 (s * ns_per_second)" "in_int64 (shd clk + s * ns_per_second)"
  shows "live t (fst (db_expire k s db clk)) =
    (live t db)(k := if shd clk + s * ns_per_second \<le> t then None else Some v)"
proof -
  from assms(1) obtain e where "map_of (store db) k = Some e" "entry_value e = v"
    by (rule live_SomeE)
  then show ?thesis by (simp add: live_expire wrap64_expiry [OF assms(2,3)])
qed

theorem expire_live_until_witness:
  "live 0 sample_db ''a'' = Some ''1'' \<and> in_int64 (2 * ns_per_second) \<and>
   in_int64 (0 + 2 * ns_per_second) \<and>
   live 1999999999 (fst (db_expire ''a'' 2 sample_db (sconst 0))) ''a'' = Some ''1'' \<and>
   live 2000000000 (fst (db_expire ''a'' 2 sample_db (sconst 0))) ''a'' = None"
proof -
  have h: "live (shd (sconst 0)) sample_db ''a'' = Some ''1''"
    by (simp add: sample_db_def live_def expired_at_def)
  have i: "in_int64 (2 * ns_per_second)" "in_int64 (shd (sconst 0) + 2 * ns_per_second)"
    by (simp_all add: in_int64_def ns_per_second_def)
  show ?thesis
    using expire_live_until [OF h i, of 1999999999] expire_live_until [OF h i, of 2000000000] h i
    by (simp add: ns_per_second_def)
qed

text \<open>C36 (expire_revives_expired): EXPIRE does not check whether the key has already expired. On
  an entry that expired but was not yet removed, a positive EXPIRE makes the key live again
  with its old value, although no key was live before.\<close>

theorem expire_revives_expired:
  assumes "map_of (store db) k = Some e" "expired_at (shd clk) e"
    and "0 < s" "in_int64 (s * ns_per_second)" "in_int64 (shd clk + s * ns_per_second)"
  shows "live (shd clk) db k = None \<and>
    live (shd clk) (fst (db_expire k s db clk)) k = Some (entry_value e)"
  using assms wrap64_expiry [OF assms(4,5)]
  by (simp add: live_expire) (simp add: live_def ns_per_second_def)

theorem expire_revives_expired_witness:
  "live 200 sample_db ''b'' = None \<and>
   live 200 (fst (db_expire ''b'' 10 sample_db (sconst 200))) ''b'' = Some ''2''"
  using expire_revives_expired [of sample_db "''b''" "\<lparr>entry_value = ''2'', expires_at = Some 100\<rparr>"
      "sconst 200" 10]
  by (simp add: sample_db_def expired_at_def in_int64_def ns_per_second_def)

text \<open>C37 (expire_overflow): EXPIRE with the largest accepted number of seconds overflows the
  conversion to nanoseconds; in two's complement the key is already dead when the command
  returns.\<close>

theorem expire_overflow:
  assumes "in_int64 (shd clk - ns_per_second)"
  shows "in_int64 (2 ^ 63 - 1) \<and> \<not> in_int64 ((2 ^ 63 - 1) * ns_per_second) \<and>
    live (shd clk) (fst (db_expire k (2 ^ 63 - 1) db clk)) k = None"
proof -
  have "wrap64 ((2 ^ 63 - 1) * ns_per_second) = - ns_per_second"
    by (simp add: wrap64_def ns_per_second_def)
  moreover have "wrap64 (shd clk + - ns_per_second) = shd clk - ns_per_second"
    using assms by simp
  ultimately have "wrap64 (shd clk + wrap64 ((2 ^ 63 - 1) * ns_per_second)) \<le> shd clk"
    by (simp add: ns_per_second_def)
  then show ?thesis
    unfolding live_expire
    by (auto simp: live_def in_int64_def ns_per_second_def split: option.split)
qed

theorem expire_overflow_witness:
  "live 5 sample_db ''a'' = Some ''1'' \<and>
   live 5 (fst (db_expire ''a'' (2 ^ 63 - 1) sample_db (sconst 5))) ''a'' = None"
  using expire_overflow [of "sconst 5" "''a''" sample_db]
  by (simp add: in_int64_def ns_per_second_def) (simp add: sample_db_def live_def expired_at_def)

text \<open>C38 (ttl_meaning): TTL answers -2 exactly for a key that is not live at its first clock
  reading, -1 exactly for a live key without expiry time, and otherwise the whole seconds
  left at its second reading, rounded down and never below zero.\<close>

theorem ttl_meaning:
  "fst (db_ttl k db clk) =
    (case map_of (store db) k of
       None \<Rightarrow> -2
     | Some e \<Rightarrow>
         if expired_at (shd clk) e then -2
         else (case expires_at e of
             None \<Rightarrow> -1
           | Some x \<Rightarrow> max 0 (wrap64 (x - shd (stl clk)) div ns_per_second)))"
proof (cases "map_of (store db) k")
  case None
  then show ?thesis using db_ttl_None [of clk db k] by (simp add: live_def)
next
  case (Some e)
  show ?thesis
  proof (cases "expired_at (shd clk) e")
    case True
    with Some show ?thesis using db_ttl_None [of clk db k] by (simp add: live_def)
  next
    case False
    with Some db_ttl_Some [OF Some False] show ?thesis
      by (auto split: option.split)
  qed
qed

text \<open>A TTL that reads a later clock value than the EXPIRE before
  it, within the same second, answers one second less than was set.\<close>

lemma ttl_just_after_expire:
  assumes "live t0 db k = Some v" "shd clk = t0" "0 < s"
    and "in_int64 (s * ns_per_second)" "in_int64 (t0 + s * ns_per_second)"
    and "shd clk' \<le> t1" "shd (stl clk') = t1" "t0 < t1" "t1 \<le> t0 + ns_per_second"
    and "shd clk' < t0 + s * ns_per_second"
  shows "fst (db_ttl k (fst (db_expire k s db clk)) clk') = s - 1"
proof -
  from assms(1) obtain e where e: "map_of (store db) k = Some e" "entry_value e = v"
    by (rule live_SomeE)
  define e' where "e' = e\<lparr>expires_at := Some (t0 + s * ns_per_second)\<rparr>"
  have m: "map_of (store (fst (db_expire k s db clk))) k = Some e'"
    using e assms(2) wrap64_expiry [OF assms(4,5)]
    by (simp add: db_expire_def now_def update_conv' e'_def)
  have ne: "\<not> expired_at (shd clk') e'"
    using assms(10) by (simp add: e'_def expired_at_def)
  have d: "t0 + s * ns_per_second - t1 = (s - 1) * ns_per_second + (ns_per_second - (t1 - t0))"
    by (simp add: algebra_simps)
  moreover have "(t0 + s * ns_per_second - t1) div ns_per_second = s - 1"
    unfolding d using assms(8,9) by (simp add: ns_per_second_def)
  moreover have "in_int64 (t0 + s * ns_per_second - t1)"
    using assms(4,8,9,3) by (auto simp: in_int64_def ns_per_second_def)
  ultimately have "max 0 (wrap64 (t0 + s * ns_per_second - t1) div ns_per_second) = s - 1"
    using assms(3) by simp
  then show ?thesis
    using db_ttl_Some [OF m ne] assms(7) by (simp add: e'_def)
qed

end
