(* ===== verification/Disk.thy ===== *)
theory Disk
  imports Byte_Strings
begin

section \<open>System calls and whole-buffer input and output\<close>

text \<open>
  The operating system under \<open>src/persistence.cpp\<close>, and the helpers of its anonymous
  namespace that call it. A disk is the contents of the files by path, with the schedule of
  outcomes that the next system calls will have; an exhausted schedule means success. A call
  may fail with the text \<open>strerror\<close> gives, be interrupted by a signal, or transfer fewer
  bytes than asked. A file descriptor is modelled by the path it was opened on.
\<close>

subsection \<open>Computations that may throw\<close>

text \<open>
  A method that changes a state and may throw a \<open>std::runtime_error\<close>: the message is on the
  left, and the changes made before the throw stay.
\<close>

type_synonym ('s, 'a) io = "'s \<Rightarrow> (string + 'a) \<times> 's"

definition return_io :: "'a \<Rightarrow> ('s, 'a) io" where
  "return_io x = (\<lambda>s. (Inr x, s))"

definition throw_io :: "string \<Rightarrow> ('s, 'a) io" where
  "throw_io m = (\<lambda>s. (Inl m, s))"

definition bind_io :: "('s, 'a) io \<Rightarrow> ('a \<Rightarrow> ('s, 'b) io) \<Rightarrow> ('s, 'b) io" where
  "bind_io m f = (\<lambda>s. case m s of (Inl e, s') \<Rightarrow> (Inl e, s') | (Inr x, s') \<Rightarrow> f x s')"

definition then_io :: "('s, 'a) io \<Rightarrow> ('s, 'b) io \<Rightarrow> ('s, 'b) io" where
  "then_io m k = bind_io m (\<lambda>_. k)"

subsection \<open>The disk\<close>

datatype sysret = Sys_ok | Sys_short nat | Sys_intr | Sys_fail string

record disk =
  files :: "string \<Rightarrow> string option"
  sched :: "sysret list"

definition next_ret :: "('a disk_scheme, sysret) io" where
  "next_ret d =
     (case sched d of [] \<Rightarrow> (Inr Sys_ok, d) | r # rs \<Rightarrow> (Inr r, d\<lparr>sched := rs\<rparr>))"

text \<open>A call that only succeeds or fails: \<open>Some\<close> of the error text on failure.\<close>

definition call_status :: "('a disk_scheme, string option) io" where
  "call_status =
     bind_io next_ret (\<lambda>r. return_io
       (case r of Sys_fail m \<Rightarrow> Some m | Sys_intr \<Rightarrow> Some ''Interrupted system call'' | _ \<Rightarrow> None))"

definition append_file :: "string \<Rightarrow> string \<Rightarrow> 'a disk_scheme \<Rightarrow> 'a disk_scheme" where
  "append_file path bytes d =
     d\<lparr>files := (files d)(path \<mapsto> (case files d path of None \<Rightarrow> [] | Some c \<Rightarrow> c) @ bytes)\<rparr>"

datatype ssize = Count nat | Interrupted | Failed string

text \<open>\<open>write\<close>: at most the bytes given, appended to the file that the descriptor is at the end of.\<close>

definition sys_write :: "string \<Rightarrow> string \<Rightarrow> 'a disk_scheme \<Rightarrow> ssize \<times> 'a disk_scheme" where
  "sys_write path bytes d =
     (case next_ret d of
        (Inl _, d') \<Rightarrow> (Failed [], d')
      | (Inr r, d') \<Rightarrow>
          (case r of
             Sys_ok \<Rightarrow> (Count (length bytes), append_file path bytes d')
           | Sys_short n \<Rightarrow>
               (Count (min n (length bytes)), append_file path (take n bytes) d')
           | Sys_intr \<Rightarrow> (Interrupted, d')
           | Sys_fail m \<Rightarrow> (Failed m, d')))"

text \<open>\<open>read\<close> of up to \<open>n\<close> bytes from the part of the file not yet read.\<close>

definition sys_read :: "nat \<Rightarrow> string \<Rightarrow> 'a disk_scheme \<Rightarrow> (ssize \<times> string) \<times> 'a disk_scheme" where
  "sys_read n rest d =
     (case next_ret d of
        (Inl _, d') \<Rightarrow> ((Failed [], rest), d')
      | (Inr r, d') \<Rightarrow>
          (case r of
             Sys_ok \<Rightarrow> ((Count (min n (length rest)), rest), d')
           | Sys_short m \<Rightarrow> ((Count (min m (min n (length rest))), rest), d')
           | Sys_intr \<Rightarrow> ((Interrupted, rest), d')
           | Sys_fail m \<Rightarrow> ((Failed m, rest), d')))"

lemma sched_append_file [simp]: "sched (append_file path bytes d) = sched d"
  by (simp add: append_file_def)

lemma sched_sys_write: "sys_write path bytes d = (r, d') \<Longrightarrow> sched d' = tl (sched d)"
  by (auto simp: sys_write_def next_ret_def split: list.splits sysret.splits)

lemma sys_write_Interrupted: "sys_write path bytes d = (Interrupted, d') \<Longrightarrow> sched d \<noteq> []"
  by (auto simp: sys_write_def next_ret_def split: list.splits sysret.splits)

lemma sched_sys_read: "sys_read n rest d = (r, d') \<Longrightarrow> sched d' = tl (sched d)"
  by (auto simp: sys_read_def next_ret_def split: list.splits sysret.splits)

lemma sys_read_Interrupted: "sys_read n rest d = ((Interrupted, rest'), d') \<Longrightarrow> sched d \<noteq> []"
  by (auto simp: sys_read_def next_ret_def split: list.splits sysret.splits)

text \<open>What shrinks in the loops: the schedule never grows, and an interrupted call uses it up.\<close>

lemma sys_write_le: "(r, d') = sys_write path bytes d \<Longrightarrow> length (sched d') \<le> length (sched d)"
  by (metis sched_sys_write length_tl diff_le_self)

lemma sys_write_lt:
  "(Interrupted, d') = sys_write path bytes d \<Longrightarrow> length (sched d') < length (sched d)"
  by (metis sched_sys_write sys_write_Interrupted length_tl diff_less length_greater_0_conv
      zero_less_one)

lemma sys_read_le: "(r, d') = sys_read n rest d \<Longrightarrow> length (sched d') \<le> length (sched d)"
  by (metis sched_sys_read length_tl diff_le_self)

lemma sys_read_lt:
  "((Interrupted, rest'), d') = sys_read n rest d \<Longrightarrow> length (sched d') < length (sched d)"
  by (metis sched_sys_read sys_read_Interrupted length_tl diff_less length_greater_0_conv
      zero_less_one)

lemma sys_read_Count:
  "((Count k, rest'), d') = sys_read n rest d \<Longrightarrow> k \<le> n \<and> k \<le> length rest"
  by (auto simp: sys_read_def next_ret_def split: list.splits sysret.splits)

subsection \<open>\<open>write_exact\<close> and \<open>read_exact\<close>\<close>

definition throw_system_error :: "string \<Rightarrow> string \<Rightarrow> ('s, 'a) io" where
  "throw_system_error operation strerror = throw_io (operation @ '': '' @ strerror)"

function (sequential) write_loop ::
  "string \<Rightarrow> string \<Rightarrow> nat \<Rightarrow> 'a disk_scheme \<Rightarrow> (string + unit) \<times> 'a disk_scheme" where
  "write_loop path bytes written d =
     (if written < length bytes
      then (case sys_write path (drop written bytes) d of
              (Interrupted, d') \<Rightarrow> write_loop path bytes written d'
            | (Failed m, d') \<Rightarrow> throw_system_error ''write'' m d'
            | (Count n, d') \<Rightarrow>
                if n = 0 then throw_io ''write returned zero bytes'' d'
                else write_loop path bytes (written + n) d')
      else return_io () d)"
  by pat_completeness auto
termination
proof (relation "measure (\<lambda>(path, bytes, written, d). length (sched d) + (length bytes - written))",
    goal_cases)
  case (2 path bytes written d x y n)
  then show ?case using sys_write_le [OF 2(2)] by simp
next
  case (3 path bytes written d x y)
  then show ?case using sys_write_lt [of y path "drop written bytes" d] by simp
qed simp

declare write_loop.simps [simp del]

definition write_exact :: "string \<Rightarrow> string \<Rightarrow> ('a disk_scheme, unit) io" where
  "write_exact path bytes = write_loop path bytes 0"

text \<open>\<open>read_exact\<close> fills a buffer of \<open>want\<close> bytes from the unread part of the file.\<close>

function (sequential) read_loop ::
  "nat \<Rightarrow> string \<Rightarrow> string \<Rightarrow> 'a disk_scheme \<Rightarrow> (string + string \<times> string) \<times> 'a disk_scheme" where
  "read_loop want got rest d =
     (if length got < want
      then (case sys_read (want - length got) rest d of
              ((Interrupted, _), d') \<Rightarrow> read_loop want got rest d'
            | ((Failed m, _), d') \<Rightarrow> throw_system_error ''read'' m d'
            | ((Count n, _), d') \<Rightarrow>
                if n = 0 then throw_io ''unexpected end of file'' d'
                else read_loop want (got @ take n rest) (drop n rest) d')
      else return_io (got, rest) d)"
  by pat_completeness auto
termination
proof (relation "measure (\<lambda>(want, got, rest, d). length (sched d) + (want - length got))",
    goal_cases)
  case (2 want got rest d x y x1 x2 n)
  then show ?case
    using sys_read_le [of x y "want - length got" rest d]
      sys_read_Count [of n x2 y "want - length got" rest d] by auto
next
  case (3 want got rest d x y)
  then show ?case by (auto dest!: sys_read_lt)
qed simp

declare read_loop.simps [simp del]

definition read_exact :: "nat \<Rightarrow> string \<Rightarrow> ('a disk_scheme, string \<times> string) io" where
  "read_exact want rest = read_loop want [] rest"

subsection \<open>The other helpers\<close>

definition fsync_file :: "('a disk_scheme, unit) io" where
  "fsync_file =
     bind_io call_status (\<lambda>st.
       case st of Some m \<Rightarrow> throw_system_error ''fsync'' m | None \<Rightarrow> return_io ())"

definition fsync_directory :: "('a disk_scheme, unit) io" where
  "fsync_directory =
     bind_io call_status (\<lambda>st.
       case st of
         Some m \<Rightarrow> throw_system_error ''open persistence directory'' m
       | None \<Rightarrow>
           bind_io call_status (\<lambda>st.
             case st of
               Some m \<Rightarrow> throw_system_error ''fsync persistence directory'' m
             | None \<Rightarrow> return_io ()))"

text \<open>
  A \<open>std::uint64_t\<close> goes to the file as its eight bytes in memory. The hosts the build
  targets are little-endian, and so is the model.
\<close>

fun le_bytes :: "nat \<Rightarrow> nat \<Rightarrow> string" where
  "le_bytes 0 v = []"
| "le_bytes (Suc n) v = char_of (v mod 256) # le_bytes n (v div 256)"

fun le_value :: "string \<Rightarrow> nat" where
  "le_value [] = 0"
| "le_value (c # s) = of_char c + 256 * le_value s"

definition uint64_bytes :: "64 word \<Rightarrow> string" where
  "uint64_bytes v = le_bytes 8 (unat v)"

definition MAX_STRING_SIZE :: nat where
  "MAX_STRING_SIZE = 512 * 1024"

definition write_uint64_to_fd :: "string \<Rightarrow> 64 word \<Rightarrow> ('a disk_scheme, unit) io" where
  "write_uint64_to_fd path v = write_exact path (uint64_bytes v)"

definition write_string_to_fd :: "string \<Rightarrow> string \<Rightarrow> ('a disk_scheme, unit) io" where
  "write_string_to_fd path v =
     (if MAX_STRING_SIZE < length v then throw_io ''String exceeds snapshot size limit''
      else then_io (write_uint64_to_fd path (of_nat (length v)))
             (if v \<noteq> [] then write_exact path v else return_io ()))"

subsection \<open>Lemmas\<close>

lemma length_le_bytes [simp]: "length (le_bytes n v) = n"
  by (induction n arbitrary: v) auto

lemma le_value_le_bytes: "le_value (le_bytes n v) = v mod 256 ^ n"
proof (induction n arbitrary: v)
  case (Suc n)
  have "v mod 256 ^ Suc n = v mod 256 + 256 * (v div 256 mod 256 ^ n)"
    by (simp add: mod_mult2_eq mult.commute)
  then show ?case by (simp add: Suc.IH)
qed simp

lemma length_uint64_bytes [simp]: "length (uint64_bytes v) = 8"
  by (simp add: uint64_bytes_def)

lemma le_value_uint64_bytes [simp]: "le_value (uint64_bytes v) = unat v"
  using unsigned_less [of v, where 'a = nat] by (simp add: uint64_bytes_def le_value_le_bytes)

lemma io_simps [simp]:
  "return_io x s = (Inr x, s)" "throw_io m s = (Inl m, s)"
  "throw_system_error op m s = (Inl (op @ '': '' @ m), s)"
  by (simp_all add: return_io_def throw_io_def throw_system_error_def)

lemma bind_io_Inl: "m s = (Inl e, s') \<Longrightarrow> bind_io m f s = (Inl e, s')"
  and bind_io_Inr: "m s = (Inr x, s') \<Longrightarrow> bind_io m f s = f x s'"
  and then_io_Inl: "m s = (Inl e, s') \<Longrightarrow> then_io m k s = (Inl e, s')"
  and then_io_Inr: "m s = (Inr x, s') \<Longrightarrow> then_io m k s = k s'"
  by (simp_all add: bind_io_def then_io_def)

lemma then_io_split:
  assumes "then_io m k s = (r, s')"
  obtains (thrown) e where "m s = (Inl e, s')" "r = Inl e"
    | (returned) x t where "m s = (Inr x, t)" "k t = (r, s')"
  using assms by (auto simp: then_io_def bind_io_def split: prod.splits sum.splits)

lemma bind_io_split:
  assumes "bind_io m f s = (r, s')"
  obtains (thrown) e where "m s = (Inl e, s')" "r = Inl e"
    | (returned) x t where "m s = (Inr x, t)" "f x t = (r, s')"
  using assms by (auto simp: bind_io_def split: prod.splits sum.splits)

text \<open>A call that transfers nothing leaves the disk but for the schedule.\<close>

lemma call_status_frame: "call_status d = (r, d') \<Longrightarrow> \<exists>st. r = Inr st \<and> d' = d\<lparr>sched := tl (sched d)\<rparr>"
  by (cases "sched d") (auto simp: call_status_def bind_io_def next_ret_def)

lemma sys_write_effect:
  assumes "sys_write path bytes d = (r, d')" "files d path = Some c"
  shows "\<exists>n \<le> length bytes.
      d' = d\<lparr>files := (files d)(path \<mapsto> c @ take n bytes), sched := tl (sched d)\<rparr> \<and>
      (case r of Count k \<Rightarrow> k = n | _ \<Rightarrow> n = 0)"
proof (cases "fst (next_ret d)")
  case (Inl e)
  then show ?thesis by (simp add: next_ret_def split: list.splits)
next
  case (Inr x)
  then have nr: "next_ret d = (Inr x, d\<lparr>sched := tl (sched d)\<rparr>)"
    by (auto simp: next_ret_def split: list.splits)
  have same: "(files d)(path \<mapsto> c) = files d" using assms(2) by auto
  show ?thesis
  proof (cases x)
    case Sys_ok
    with nr assms show ?thesis
      by (intro exI [where x = "length bytes"]) (auto simp: sys_write_def append_file_def)
  next
    case (Sys_short k)
    with nr assms show ?thesis
      by (intro exI [where x = "min k (length bytes)"]) (auto simp: sys_write_def append_file_def min_def)
  qed (use nr assms same in \<open>auto simp: sys_write_def intro!: exI [where x = 0]\<close>)
qed

definition benign :: "sysret list \<Rightarrow> bool" where
  "benign rs \<longleftrightarrow> (\<forall>r \<in> set rs. r \<noteq> Sys_short 0 \<and> (\<forall>m. r \<noteq> Sys_fail m))"

lemma benign_tl [simp]: "benign rs \<Longrightarrow> benign (tl rs)"
  by (cases rs) (auto simp: benign_def)

lemma sys_write_benign:
  assumes "benign (sched d)" "bytes \<noteq> []" "sys_write path bytes d = (r, d')"
  shows "r = Interrupted \<or> (\<exists>n. r = Count n \<and> n \<noteq> 0)"
  using assms
  by (cases "sched d") (auto simp: sys_write_def next_ret_def benign_def split: sysret.splits)

lemma set_tl_subset: "set (tl xs) \<subseteq> set xs"
  by (cases xs) auto

text \<open>Stronger: no signal arrives either, which \<open>open\<close>, \<open>fsync\<close> and \<open>rename\<close> would report.\<close>

definition smooth :: "sysret list \<Rightarrow> bool" where
  "smooth rs \<longleftrightarrow> benign rs \<and> Sys_intr \<notin> set rs"

lemma smooth_subset: "smooth rs \<Longrightarrow> set rs' \<subseteq> set rs \<Longrightarrow> smooth rs'"
  by (auto simp: smooth_def benign_def)

lemma smooth_tl [simp]: "smooth rs \<Longrightarrow> smooth (tl rs)"
  by (cases rs) (auto simp: smooth_def benign_def)

lemma smooth_Nil [simp]: "smooth []"
  by (simp add: smooth_def benign_def)

text \<open>
  Whatever the calls return, the file gets a prefix of the rest of the data, and all of it
  when the loop returns; nothing else on the disk changes. Without failures it does return.
\<close>

lemma write_loop_effect:
  assumes "write_loop path bytes written d = (r, d')" "files d path = Some c"
    "written \<le> length bytes"
  shows "\<exists>n rs. d' = d\<lparr>files := (files d)(path \<mapsto> c @ take n (drop written bytes)), sched := rs\<rparr> \<and>
      written + n \<le> length bytes \<and> (r = Inr () \<longleftrightarrow> written + n = length bytes) \<and>
      (benign (sched d) \<longrightarrow> r = Inr ()) \<and> set rs \<subseteq> set (sched d)"
  using assms
proof (induction path bytes written d arbitrary: c r d' rule: write_loop.induct)
  case (1 path bytes written d)
  obtain w d1 where w: "sys_write path (drop written bytes) d = (w, d1)" by fastforce
  have same: "(files d)(path \<mapsto> c) = files d"
    using "1.prems"(2) by auto
  show ?case
  proof (cases "written < length bytes")
    case False
    with "1.prems" have "d' = d" "r = Inr ()" "written = length bytes"
      by (simp_all add: write_loop.simps [of path bytes written d])
    then show ?thesis
      by (intro exI [where x = 0] exI [where x = "sched d"]) (simp add: same)
  next
    case True
    from sys_write_effect [OF w "1.prems"(2)] obtain n where n: "n \<le> length bytes - written"
      and d1: "d1 = d\<lparr>files := (files d)(path \<mapsto> c @ take n (drop written bytes)), sched := tl (sched d)\<rparr>"
      and k: "case w of Count k \<Rightarrow> k = n | _ \<Rightarrow> n = 0" by auto
    have ben: "w = Interrupted \<or> (\<exists>n. w = Count n \<and> n \<noteq> 0)" if "benign (sched d)"
      using sys_write_benign [OF that _ w] True by simp
    have f1: "files d1 path = Some (c @ take n (drop written bytes))" by (simp add: d1)
    have step: "\<exists>m rs. d' = d\<lparr>files := (files d)(path \<mapsto> c @ take m (drop written bytes)), sched := rs\<rparr> \<and>
        written + m \<le> length bytes \<and> (r = Inr () \<longleftrightarrow> written + m = length bytes) \<and>
        (benign (sched d) \<longrightarrow> r = Inr ()) \<and> set rs \<subseteq> set (sched d)"
      if "\<exists>m rs. d' = d1\<lparr>files := (files d1)(path \<mapsto> (c @ take n (drop written bytes)) @
              take m (drop (written + n) bytes)), sched := rs\<rparr> \<and>
        written + n + m \<le> length bytes \<and> (r = Inr () \<longleftrightarrow> written + n + m = length bytes) \<and>
        (benign (sched d1) \<longrightarrow> r = Inr ()) \<and> set rs \<subseteq> set (sched d1)"
    proof -
      from that obtain m rs where m: "d' = d1\<lparr>files := (files d1)(path \<mapsto> (c @ take n (drop written bytes)) @
              take m (drop (written + n) bytes)), sched := rs\<rparr>"
        "written + n + m \<le> length bytes" "r = Inr () \<longleftrightarrow> written + n + m = length bytes"
        "benign (sched d1) \<longrightarrow> r = Inr ()" "set rs \<subseteq> set (sched d1)" by blast
      have "take n (drop written bytes) @ take m (drop (written + n) bytes) =
          take (n + m) (drop written bytes)"
        by (simp add: take_add add.commute [of written n])
      moreover have "set rs \<subseteq> set (sched d)" using m(5) set_tl_subset by (fastforce simp: d1)
      ultimately show ?thesis
        using m(1-4) by (intro exI [where x = "n + m"] exI [where x = rs]) (auto simp: d1 simp del: fun_upd_apply)
    qed
    show ?thesis
    proof (cases w)
      case (Failed m)
      with "1.prems"(1) True w have "d' = d1" "r = Inl (''write'' @ '': '' @ m)"
        by (simp_all add: write_loop.simps [of path bytes written d])
      moreover have "\<not> benign (sched d)" "n = 0" "set (tl (sched d)) \<subseteq> set (sched d)"
        using ben k Failed by (auto dest: subsetD [OF set_tl_subset])
      ultimately show ?thesis
        using True by (intro exI [where x = 0] exI [where x = "tl (sched d)"]) (simp add: d1 del: fun_upd_apply)
    next
      case Interrupted
      with k have n0: "n = 0" by simp
      from "1.prems"(1) True w Interrupted have "write_loop path bytes written d1 = (r, d')"
        by (simp add: write_loop.simps [of path bytes written d])
      from "1.IH"(2) [OF True w [symmetric] Interrupted this f1] True n0 show ?thesis
        by (intro step) (simp del: fun_upd_apply)
    next
      case (Count j)
      with k have j: "w = Count n" by simp
      show ?thesis
      proof (cases "n = 0")
        case True
        with "1.prems"(1) \<open>written < length bytes\<close> w j
        have "d' = d1" "r = Inl ''write returned zero bytes''"
          by (simp_all add: write_loop.simps [of path bytes written d])
        moreover have "\<not> benign (sched d)" "set (tl (sched d)) \<subseteq> set (sched d)"
          using ben j True by (auto dest: subsetD [OF set_tl_subset])
        ultimately show ?thesis
          using True \<open>written < length bytes\<close>
          by (intro exI [where x = 0] exI [where x = "tl (sched d)"]) (simp add: d1 del: fun_upd_apply)
      next
        case False
        from "1.prems"(1) True w j False have "write_loop path bytes (written + n) d1 = (r, d')"
          by (simp add: write_loop.simps [of path bytes written d])
        from "1.IH"(1) [OF True w [symmetric] j False this f1] n True show ?thesis
          by (intro step) (simp del: fun_upd_apply)
      qed
    qed
  qed
qed

subsection \<open>Writers: computations that append a known text to one file\<close>

text \<open>
  \<open>appends path out m\<close>: whatever happens, \<open>m\<close> appends a prefix of \<open>out\<close> to the file at
  \<open>path\<close>, all of it when it returns, and changes nothing else but the schedule.
  \<open>returns_ok path m\<close>: on an existing file and with no failing call ahead, \<open>m\<close> returns.
\<close>

definition appends :: "string \<Rightarrow> string \<Rightarrow> ('a disk_scheme, 'b) io \<Rightarrow> bool" where
  "appends path out m \<longleftrightarrow>
     (\<forall>d r d' c. m d = (r, d') \<longrightarrow> files d path = Some c \<longrightarrow>
        (\<exists>w v rs. out = w @ v \<and> (\<forall>x. r = Inr x \<longrightarrow> v = []) \<and>
           d' = d\<lparr>files := (files d)(path \<mapsto> c @ w), sched := rs\<rparr>))"

definition returns_ok :: "string \<Rightarrow> ('a disk_scheme, 'b) io \<Rightarrow> bool" where
  "returns_ok path m \<longleftrightarrow>
     (\<forall>d. smooth (sched d) \<longrightarrow> files d path \<noteq> None \<longrightarrow>
        (\<exists>x d'. m d = (Inr x, d') \<and> smooth (sched d') \<and> files d' path \<noteq> None))"

lemma appends_run:
  "appends path out m \<Longrightarrow> m d = (r, d') \<Longrightarrow> files d path = Some c \<Longrightarrow>
     \<exists>w v rs. out = w @ v \<and> (\<forall>x. r = Inr x \<longrightarrow> v = []) \<and>
       d' = d\<lparr>files := (files d)(path \<mapsto> c @ w), sched := rs\<rparr>"
  unfolding appends_def by meson

lemma appendsD:
  assumes "appends path out m" "m d = (r, d')" "files d path = Some c"
  obtains w v rs where "out = w @ v" "\<And>x. r = Inr x \<Longrightarrow> v = []"
    "d' = d\<lparr>files := (files d)(path \<mapsto> c @ w), sched := rs\<rparr>"
proof -
  from assms(1) [unfolded appends_def, rule_format, OF assms(2,3)] obtain w v rs where
    "out = w @ v" "\<forall>x. r = Inr x \<longrightarrow> v = []"
    "d' = d\<lparr>files := (files d)(path \<mapsto> c @ w), sched := rs\<rparr>" by (elim exE conjE)
  with that show thesis by simp
qed

lemma appends_none:
  assumes "\<And>d r d'. m d = (r, d') \<Longrightarrow> \<exists>rs. d' = d\<lparr>sched := rs\<rparr>"
  shows "appends path [] m"
  unfolding appends_def
proof (intro allI impI)
  fix d d' :: "'a disk_scheme" and r c
  assume "m d = (r, d')" "files d path = Some c"
  then obtain rs where "d' = d\<lparr>sched := rs\<rparr>" "(files d)(path \<mapsto> c @ []) = files d"
    using assms by fastforce
  then show "\<exists>w v rs. [] = w @ v \<and> (\<forall>x. r = Inr x \<longrightarrow> v = []) \<and>
      d' = d\<lparr>files := (files d)(path \<mapsto> c @ w), sched := rs\<rparr>"
    by (intro exI [where x = "[]"] exI [where x = rs]) (simp del: fun_upd_apply)
qed

lemma appends_return: "appends path [] (return_io x)"
proof (rule appends_none)
  fix d d' :: "'a disk_scheme" and r
  assume "return_io x d = (r, d')"
  then have "d' = d\<lparr>sched := sched d\<rparr>" by simp
  then show "\<exists>rs. d' = d\<lparr>sched := rs\<rparr>" ..
qed

lemma appends_throw: "appends path out (throw_io e)"
  unfolding appends_def
proof (intro allI impI)
  fix d d' :: "'a disk_scheme" and r c
  assume "throw_io e d = (r, d')" "files d path = Some c"
  then have "r = Inl e" "d' = d" "(files d)(path \<mapsto> c @ []) = files d" by auto
  then show "\<exists>w v rs. out = w @ v \<and> (\<forall>x. r = Inr x \<longrightarrow> v = []) \<and>
      d' = d\<lparr>files := (files d)(path \<mapsto> c @ w), sched := rs\<rparr>"
    by (intro exI [where x = "[]"] exI [where x = out] exI [where x = "sched d"])
      (simp del: fun_upd_apply)
qed

lemma appends_then:
  assumes "appends path o1 m" "appends path o2 k"
  shows "appends path (o1 @ o2) (then_io m k)"
  unfolding appends_def
proof (intro allI impI)
  fix d d' :: "'a disk_scheme" and r c
  assume run: "then_io m k d = (r, d')" and c: "files d path = Some c"
  from run show "\<exists>w v rs. o1 @ o2 = w @ v \<and> (\<forall>x. r = Inr x \<longrightarrow> v = []) \<and>
      d' = d\<lparr>files := (files d)(path \<mapsto> c @ w), sched := rs\<rparr>"
  proof (cases rule: then_io_split)
    case (thrown e)
    from appendsD [OF assms(1) thrown(1) c] obtain w v rs where "o1 = w @ v"
      "d' = d\<lparr>files := (files d)(path \<mapsto> c @ w), sched := rs\<rparr>" by metis
    with thrown show ?thesis
      by (intro exI [where x = w] exI [where x = "v @ o2"] exI [where x = rs]) simp
  next
    case (returned x t)
    from appendsD [OF assms(1) returned(1) c] obtain rs where
      t: "t = d\<lparr>files := (files d)(path \<mapsto> c @ o1), sched := rs\<rparr>"
      by (metis append_Nil2)
    then have "files t path = Some (c @ o1)" by simp
    from appendsD [OF assms(2) returned(2) this] obtain w v rs' where
      "o2 = w @ v" "\<And>y. r = Inr y \<Longrightarrow> v = []"
      "d' = t\<lparr>files := (files t)(path \<mapsto> (c @ o1) @ w), sched := rs'\<rparr>" by metis
    with t show ?thesis
      by (intro exI [where x = "o1 @ w"] exI [where x = v] exI [where x = rs'])
        (auto simp del: fun_upd_apply)
  qed
qed

lemma returns_ok_then:
  assumes "returns_ok path m" "returns_ok path k"
  shows "returns_ok path (then_io m k)"
  unfolding returns_ok_def
proof (intro allI impI)
  fix d :: "'a disk_scheme"
  assume "smooth (sched d)" "files d path \<noteq> None"
  then obtain x d1 where 1: "m d = (Inr x, d1)" "smooth (sched d1)" "files d1 path \<noteq> None"
    using assms(1) unfolding returns_ok_def by meson
  then obtain y d2 where "k d1 = (Inr y, d2)" "smooth (sched d2)" "files d2 path \<noteq> None"
    using assms(2) unfolding returns_ok_def by meson
  then show "\<exists>x d'. then_io m k d = (Inr x, d') \<and> smooth (sched d') \<and> files d' path \<noteq> None"
    using then_io_Inr [of m d x d1 k, OF 1(1)] by metis
qed

lemma returns_ok_return [simp]: "returns_ok path (return_io x)"
  by (simp add: returns_ok_def)

lemma returns_ok_status:
  assumes "\<And>d. smooth (sched d) \<Longrightarrow> m d = (Inr (), d\<lparr>sched := tl (sched d)\<rparr>)"
  shows "returns_ok path m"
  using assms by (auto simp: returns_ok_def)

lemma write_exact_appends: "appends path bytes (write_exact path bytes)"
  unfolding appends_def
proof (intro allI impI)
  fix d d' :: "'a disk_scheme" and r c
  assume "write_exact path bytes d = (r, d')" "files d path = Some c"
  from write_loop_effect [OF this [unfolded write_exact_def]] obtain n rs where
    "d' = d\<lparr>files := (files d)(path \<mapsto> c @ take n bytes), sched := rs\<rparr>" "n \<le> length bytes"
    "r = Inr () \<longleftrightarrow> n = length bytes" by auto
  then show "\<exists>w v rs. bytes = w @ v \<and> (\<forall>x. r = Inr x \<longrightarrow> v = []) \<and>
      d' = d\<lparr>files := (files d)(path \<mapsto> c @ w), sched := rs\<rparr>"
    by (intro exI [where x = "take n bytes"] exI [where x = "drop n bytes"] exI [where x = rs])
      (simp del: fun_upd_apply)
qed

lemma write_exact_ok: "returns_ok path (write_exact path bytes)"
  unfolding returns_ok_def
proof (intro allI impI)
  fix d :: "'a disk_scheme"
  assume b: "smooth (sched d)" and "files d path \<noteq> None"
  then obtain c where c: "files d path = Some c" by auto
  obtain r d' where run: "write_exact path bytes d = (r, d')" by fastforce
  from write_loop_effect [OF run [unfolded write_exact_def] c] b obtain n rs where
    "d' = d\<lparr>files := (files d)(path \<mapsto> c @ take n bytes), sched := rs\<rparr>"
    "r = Inr ()" "set rs \<subseteq> set (sched d)" by (auto simp: smooth_def)
  with run smooth_subset [OF b] show "\<exists>x d'. write_exact path bytes d = (Inr x, d') \<and> smooth (sched d') \<and>
      files d' path \<noteq> None"
    by simp
qed

lemma write_uint64_appends: "appends path (uint64_bytes v) (write_uint64_to_fd path v)"
  unfolding write_uint64_to_fd_def by (rule write_exact_appends)

lemma write_uint64_ok: "returns_ok path (write_uint64_to_fd path v)"
  unfolding write_uint64_to_fd_def by (rule write_exact_ok)

lemma write_string_appends:
  "appends path (uint64_bytes (of_nat (length v)) @ v) (write_string_to_fd path v)"
proof (cases "MAX_STRING_SIZE < length v \<or> v = []")
  case True
  then show ?thesis
    using appends_then [OF write_uint64_appends appends_return, of path "of_nat (length v)" "()"]
    by (auto simp: write_string_to_fd_def MAX_STRING_SIZE_def intro: appends_throw)
next
  case False
  then show ?thesis
    using appends_then [OF write_uint64_appends write_exact_appends, of path "of_nat (length v)" v]
    by (simp add: write_string_to_fd_def)
qed

lemma write_string_ok:
  "length v \<le> MAX_STRING_SIZE \<Longrightarrow> returns_ok path (write_string_to_fd path v)"
  unfolding write_string_to_fd_def
  using returns_ok_then [OF write_uint64_ok write_exact_ok, of path "of_nat (length v)" v]
    returns_ok_then [OF write_uint64_ok returns_ok_return, of path "of_nat (length v)" "()"]
  by auto

text \<open>The limit on strings is the only thing a writer can refuse: above it, it throws at once.\<close>

lemma write_string_too_long:
  "MAX_STRING_SIZE < length v \<Longrightarrow>
     write_string_to_fd path v d = (Inl ''String exceeds snapshot size limit'', d)"
  by (simp add: write_string_to_fd_def)

lemma fsync_file_frame:
  "fsync_file d = (r, d') \<Longrightarrow> d' = d\<lparr>sched := tl (sched d)\<rparr>"
  by (cases "sched d")
    (auto simp: fsync_file_def call_status_def bind_io_def next_ret_def split: option.splits sysret.splits)

lemma fsync_file_appends: "appends path [] fsync_file"
  by (rule appends_none) (blast dest: fsync_file_frame)

lemma fsync_directory_frame:
  "fsync_directory d = (r, d') \<Longrightarrow> \<exists>rs. d' = d\<lparr>sched := rs\<rparr>"
  unfolding fsync_directory_def
  by (elim bind_io_split) (auto dest!: call_status_frame split: option.splits elim!: bind_io_split)

lemma call_status_smooth:
  "smooth (sched d) \<Longrightarrow> call_status d = (Inr None, d\<lparr>sched := tl (sched d)\<rparr>)"
  by (cases "sched d")
    (auto simp: call_status_def bind_io_def next_ret_def smooth_def benign_def split: sysret.splits)

lemma fsync_file_smooth:
  "smooth (sched d) \<Longrightarrow> fsync_file d = (Inr (), d\<lparr>sched := tl (sched d)\<rparr>)"
  by (simp add: fsync_file_def bind_io_def call_status_smooth)

lemma fsync_file_ok: "returns_ok path fsync_file"
  by (rule returns_ok_status) (rule fsync_file_smooth)

lemma fsync_directory_smooth:
  "smooth (sched d) \<Longrightarrow> fsync_directory d = (Inr (), d\<lparr>sched := tl (tl (sched d))\<rparr>)"
  by (simp add: fsync_directory_def bind_io_def call_status_smooth)

lemma sys_read_frame:
  "((c, rest'), d') = sys_read n rest d \<Longrightarrow> rest' = rest \<and> d' = d\<lparr>sched := tl (sched d)\<rparr>"
  by (cases "sched d") (auto simp: sys_read_def next_ret_def split: sysret.splits)

lemma sys_read_benign:
  assumes "benign (sched d)" "n \<noteq> 0" "rest \<noteq> []" "((c, rest'), d') = sys_read n rest d"
  shows "c = Interrupted \<or> (\<exists>k. c = Count k \<and> k \<noteq> 0)"
  using assms
  by (cases "sched d") (auto simp: sys_read_def next_ret_def benign_def min_def split: sysret.splits)

lemma read_loop_effect:
  assumes "read_loop want got rest d = (r, d')" "length got \<le> want"
  shows "files d' = files d \<and>
    (\<forall>x. r = Inr x \<longrightarrow> x = (got @ take (want - length got) rest, drop (want - length got) rest) \<and>
        want - length got \<le> length rest) \<and>
    (benign (sched d) \<and> want - length got \<le> length rest \<longrightarrow> (\<exists>x. r = Inr x))"
  using assms
proof (induction want got rest d rule: read_loop.induct)
  case (1 want got rest d)
  show ?case
  proof (cases "length got < want")
    case False
    with "1.prems" show ?thesis by (auto simp: read_loop.simps [of want got rest d])
  next
    case True
    obtain c rest1 d1 where w: "sys_read (want - length got) rest d = ((c, rest1), d1)"
      by (cases "sys_read (want - length got) rest d") auto
    from sys_read_frame [OF w [symmetric]]
    have fr: "rest1 = rest" "files d1 = files d" "sched d1 = tl (sched d)" by simp_all
    have ben: "c = Interrupted \<or> (\<exists>k. c = Count k \<and> k \<noteq> 0)"
      if "benign (sched d)" "want - length got \<le> length rest"
    proof (rule sys_read_benign [OF that(1) _ _ w [symmetric]])
      show "rest \<noteq> []" using that(2) True by auto
    qed (use True in simp)
    show ?thesis
    proof (cases c)
      case (Failed m)
      with "1.prems"(1) True w fr ben show ?thesis
        by (auto simp: read_loop.simps [of want got rest d])
    next
      case Interrupted
      with "1.prems"(1) True w have "read_loop want got rest d1 = (r, d')"
        by (simp add: read_loop.simps [of want got rest d])
      from "1.IH"(2) [OF True w [symmetric] refl Interrupted this "1.prems"(2)] fr
      show ?thesis by auto
    next
      case (Count k)
      with sys_read_Count [of k rest1 d1 "want - length got" rest d] w
      have k: "k \<le> want - length got" "k \<le> length rest" by simp_all
      show ?thesis
      proof (cases "k = 0")
        case True
        with "1.prems"(1) \<open>length got < want\<close> w Count fr ben show ?thesis
          by (auto simp: read_loop.simps [of want got rest d])
      next
        case False
        from "1.prems"(1) True w Count False
        have run: "read_loop want (got @ take k rest) (drop k rest) d1 = (r, d')"
          by (simp add: read_loop.simps [of want got rest d])
        have lk: "length (got @ take k rest) = length got + k" using k by simp
        then have len: "length (got @ take k rest) \<le> want" using k True by simp
        from "1.IH"(1) [OF True w [symmetric] refl Count False run len] k fr
        have IH: "files d' = files d"
          "\<forall>x. r = Inr x \<longrightarrow> x = ((got @ take k rest) @ take (want - (length got + k)) (drop k rest),
             drop (k + (want - (length got + k))) rest) \<and> want - (length got + k) \<le> length rest - k"
          "benign (tl (sched d)) \<and> want - (length got + k) \<le> length rest - k \<longrightarrow> (\<exists>x. r = Inr x)"
          unfolding lk length_drop drop_drop by (auto simp: add.commute)
        have "take k rest @ take (want - (length got + k)) (drop k rest) = take (want - length got) rest"
        proof -
          have "k + (want - (length got + k)) = want - length got" using k True by linarith
          then show ?thesis by (simp flip: take_add)
        qed
        with IH k True show ?thesis by (auto simp: add.commute)
      qed
    qed
  qed
qed

subsection \<open>Properties\<close>

text \<open>C40 (write_exact_complete): however the kernel splits the transfer and whatever fails,
  \<open>write_exact\<close> has appended a prefix of the bytes to its file and changed no other file. It
  returns exactly when the prefix is everything, and it always returns when no call fails or
  writes zero bytes, however many signals interrupt it.\<close>

theorem write_exact_complete:
  assumes "write_exact path bytes d = (r, d')" "files d path = Some c"
  shows "\<exists>n \<le> length bytes. files d' = (files d)(path \<mapsto> c @ take n bytes) \<and>
    (r = Inr () \<longleftrightarrow> n = length bytes) \<and> (benign (sched d) \<longrightarrow> r = Inr ())"
  using write_loop_effect [OF assms [unfolded write_exact_def]] by auto

theorem write_exact_complete_witness:
  "\<exists>n \<le> 4. files (snd (write_exact ''p'' ''data''
      \<lparr>files = [''p'' \<mapsto> []], sched = [Sys_short 1, Sys_intr, Sys_short 2]\<rparr>)) ''p'' =
      Some (take n ''data'') \<and> n = 4"
proof -
  define d where "d = \<lparr>files = [''p'' \<mapsto> []], sched = [Sys_short 1, Sys_intr, Sys_short 2]\<rparr>"
  obtain r d' where run: "write_exact ''p'' ''data'' d = (r, d')" by fastforce
  have "files d ''p'' = Some []" "benign (sched d)" by (simp_all add: d_def benign_def)
  with write_exact_complete [OF run this(1)] run show ?thesis by (auto simp: d_def)
qed

text \<open>\<open>read_exact\<close> changes no file, returns exactly the next \<open>n\<close> bytes
  or nothing, and returns them whenever the file still has that many and no call fails.\<close>

lemma read_exact_complete:
  assumes "read_exact n rest d = (r, d')"
  shows "files d' = files d \<and>
    (\<forall>x. r = Inr x \<longrightarrow> n \<le> length rest \<and> x = (take n rest, drop n rest)) \<and>
    (benign (sched d) \<and> n \<le> length rest \<longrightarrow> r = Inr (take n rest, drop n rest))"
  using read_loop_effect [OF assms [unfolded read_exact_def]] by auto

end
