(* ===== verification/Snapshot_Codec.thy ===== *)
theory Snapshot_Codec
  imports Disk
begin

section \<open>Reading the fields of a snapshot\<close>

text \<open>
  The input side of \<open>src/persistence.cpp\<close>: \<open>std::ifstream\<close> as the unread bytes and the good
  flag, the readers of the two kinds of field, and the interface \<open>stream_codec\<close> between the
  writers of \<open>Disk\<close> and these readers: what is written is read back, and a field that is cut
  short is refused. Pairs and sequences of fields inherit both laws.
\<close>

subsection \<open>Streams\<close>

record ifstream =
  remaining :: string
  in_good :: bool

definition open_stream :: "string \<Rightarrow> ifstream" where
  "open_stream contents = \<lparr>remaining = contents, in_good = True\<rparr>"

definition in_read :: "nat \<Rightarrow> ifstream \<Rightarrow> string \<times> ifstream" where
  "in_read n s =
     (if in_good s \<and> n \<le> length (remaining s)
      then (take n (remaining s), s\<lparr>remaining := drop n (remaining s)\<rparr>)
      else ([], s\<lparr>remaining := [], in_good := False\<rparr>))"

definition read_uint64 :: "(ifstream, 64 word) io" where
  "read_uint64 s =
     (case in_read 8 s of
        (b, s') \<Rightarrow>
          if \<not> in_good s' then throw_io ''Unable to read uint64 value'' s'
          else return_io (of_nat (le_value b)) s')"

definition read_string :: "(ifstream, string) io" where
  "read_string =
     bind_io read_uint64 (\<lambda>len.
       if MAX_STRING_SIZE < unat len then throw_io ''Snapshot string exceeds size limit''
       else (\<lambda>s.
         case (if 0 < unat len then in_read (unat len) s else ([], s)) of
           (v, s') \<Rightarrow>
             if \<not> in_good s' then throw_io ''Unable to read string from snapshot'' s'
             else return_io v s'))"

text \<open>Reading \<open>n\<close> items and folding each into a state as soon as it is read.\<close>

fun read_fold ::
  "(ifstream, 'a) io \<Rightarrow> ('a \<Rightarrow> 'd \<Rightarrow> 'd) \<Rightarrow> nat \<Rightarrow> 'd \<Rightarrow> ifstream \<Rightarrow> (string + unit) \<times> 'd \<times> ifstream" where
  "read_fold rd f 0 d s = (Inr (), d, s)"
| "read_fold rd f (Suc n) d s =
     (case rd s of
        (Inl e, s') \<Rightarrow> (Inl e, d, s')
      | (Inr x, s') \<Rightarrow> read_fold rd f n (f x d) s')"

subsection \<open>The interface\<close>

locale stream_codec =
  fixes enc :: "'a \<Rightarrow> string"
    and rd :: "(ifstream, 'a) io"
    and ok :: "'a \<Rightarrow> bool"
  assumes rd_enc: "ok x \<Longrightarrow> rd (open_stream (enc x @ r)) = (Inr x, open_stream r)"
    and rd_partial: "ok x \<Longrightarrow> enc x = s @ t \<Longrightarrow> t \<noteq> [] \<Longrightarrow> \<exists>e s'. rd (open_stream s) = (Inl e, s')"
begin

lemma read_fold_enc:
  "\<forall>x \<in> set xs. ok x \<Longrightarrow>
     read_fold rd f (length xs) d (open_stream (concat (map enc xs) @ r)) =
       (Inr (), fold f xs d, open_stream r)"
  by (induction xs arbitrary: d) (simp_all add: rd_enc)

text \<open>A sequence cut short fails, with the items before the cut already folded in.\<close>

lemma read_fold_partial:
  assumes "\<forall>x \<in> set xs. ok x" "concat (map enc xs) = s @ t" "t \<noteq> []"
  shows "\<exists>e n s'. read_fold rd f (length xs) d (open_stream s) = (Inl e, fold f (take n xs) d, s')"
  using assms
proof (induction xs arbitrary: d s)
  case (Cons x xs)
  then have "enc x @ concat (map enc xs) = s @ t" by simp
  then show ?case
  proof (cases rule: cut_append)
    case (inside u)
    from rd_partial [OF _ inside(1,2)] Cons.prems(1) obtain e s' where
      "rd (open_stream s) = (Inl e, s')" by auto
    then show ?thesis by (intro exI [where x = e] exI [where x = 0] exI [where x = s']) simp
  next
    case (after u)
    from Cons.IH [of u "f x d"] after(2) Cons.prems obtain e n s' where
      "read_fold rd f (length xs) (f x d) (open_stream u) = (Inl e, fold f (take n xs) (f x d), s')"
      by auto
    moreover have "rd (open_stream s) = (Inr x, open_stream u)"
      using rd_enc [of x u] Cons.prems(1) after(1) by simp
    ultimately show ?thesis
      by (intro exI [where x = e] exI [where x = "Suc n"] exI [where x = s']) simp
  qed
qed simp

end

text \<open>Two fields, one after the other.\<close>

definition enc_pair :: "('a \<Rightarrow> string) \<Rightarrow> ('b \<Rightarrow> string) \<Rightarrow> 'a \<times> 'b \<Rightarrow> string" where
  "enc_pair enca encb = (\<lambda>(x, y). enca x @ encb y)"

definition read_pair :: "(ifstream, 'a) io \<Rightarrow> (ifstream, 'b) io \<Rightarrow> (ifstream, 'a \<times> 'b) io" where
  "read_pair rda rdb = bind_io rda (\<lambda>x. bind_io rdb (\<lambda>y. return_io (x, y)))"

locale pair_codec =
  fst: stream_codec enca rda oka + snd: stream_codec encb rdb okb
  for enca :: "'a \<Rightarrow> string" and rda oka and encb :: "'b \<Rightarrow> string" and rdb okb

sublocale pair_codec \<subseteq> pair: stream_codec "enc_pair enca encb" "read_pair rda rdb"
  "\<lambda>(x, y). oka x \<and> okb y"
proof unfold_locales
  fix x :: "'a \<times> 'b" and r
  assume "case x of (x, y) \<Rightarrow> oka x \<and> okb y"
  then show "read_pair rda rdb (open_stream (enc_pair enca encb x @ r)) = (Inr x, open_stream r)"
    by (cases x) (simp add: enc_pair_def read_pair_def bind_io_def fst.rd_enc snd.rd_enc)
next
  fix x :: "'a \<times> 'b" and s t
  assume ok: "case x of (x, y) \<Rightarrow> oka x \<and> okb y" and e: "enc_pair enca encb x = s @ t" "t \<noteq> []"
  obtain y z where x: "x = (y, z)" by fastforce
  from e have "enca y @ encb z = s @ t" by (simp add: enc_pair_def x)
  then show "\<exists>e s'. read_pair rda rdb (open_stream s) = (Inl e, s')"
  proof (cases rule: cut_append)
    case (inside u)
    from fst.rd_partial [OF _ inside(1,2)] ok show ?thesis
      by (auto simp: x read_pair_def bind_io_def)
  next
    case (after u)
    from snd.rd_partial [OF _ after(2) e(2)] ok fst.rd_enc [of y u] after(1) show ?thesis
      by (auto simp: x read_pair_def bind_io_def)
  qed
qed

subsection \<open>The two kinds of field\<close>

definition string_bytes :: "string \<Rightarrow> string" where
  "string_bytes v = uint64_bytes (of_nat (length v)) @ v"

lemma in_read_open [simp]:
  "in_read n (open_stream s) =
     (if n \<le> length s then (take n s, open_stream (drop n s))
      else ([], \<lparr>remaining = [], in_good = False\<rparr>))"
  by (simp add: in_read_def open_stream_def)

lemma in_good_open [simp]: "in_good (open_stream s)"
  by (simp add: open_stream_def)

interpretation uint64: stream_codec uint64_bytes read_uint64 "\<lambda>_. True"
proof unfold_locales
  show "read_uint64 (open_stream (uint64_bytes x @ r)) = (Inr x, open_stream r)" for x r
    by (simp add: read_uint64_def)
  show "\<exists>e s'. read_uint64 (open_stream s) = (Inl e, s')"
    if "uint64_bytes x = s @ t" "t \<noteq> []" for x s t
  proof -
    have "length s + length t = 8" using arg_cong [OF that(1), of length] by simp
    with that(2) have "\<not> 8 \<le> length s" by (cases t) auto
    then show ?thesis by (simp add: read_uint64_def)
  qed
qed

lemma unat_of_length: "length v \<le> MAX_STRING_SIZE \<Longrightarrow> unat (of_nat (length v) :: 64 word) = length v"
  by (simp add: MAX_STRING_SIZE_def unat_of_nat)

interpretation strings: stream_codec string_bytes read_string "\<lambda>v. length v \<le> MAX_STRING_SIZE"
proof unfold_locales
  fix x r :: string
  assume ok: "length x \<le> MAX_STRING_SIZE"
  show "read_string (open_stream (string_bytes x @ r)) = (Inr x, open_stream r)"
    using ok uint64.rd_enc [of "of_nat (length x)" "x @ r"] unat_of_length [OF ok]
    by (auto simp: read_string_def string_bytes_def bind_io_def)
next
  fix x s t :: string
  assume ok: "length x \<le> MAX_STRING_SIZE" and st: "string_bytes x = s @ t" "t \<noteq> []"
  from st(1) [unfolded string_bytes_def] show "\<exists>e s'. read_string (open_stream s) = (Inl e, s')"
  proof (cases rule: cut_append)
    case (inside u)
    from uint64.rd_partial [OF TrueI inside(1,2)] show ?thesis
      by (auto simp: read_string_def bind_io_def)
  next
    case (after u)
    then have "\<not> length x \<le> length u" "0 < length x" using st(2) by auto
    with ok uint64.rd_enc [of "of_nat (length x)" u] after(1) show ?thesis
      by (simp add: read_string_def bind_io_def unat_of_length)
  qed
qed

interpretation pairs: pair_codec string_bytes read_string "\<lambda>v. length v \<le> MAX_STRING_SIZE"
  string_bytes read_string "\<lambda>v. length v \<le> MAX_STRING_SIZE"
  by unfold_locales

subsection \<open>The stream writers\<close>

text \<open>
  \<open>write_uint64\<close> and \<open>write_string\<close> of \<open>PersistenceManager\<close> write the same format to a
  \<open>std::ofstream\<close>; the snapshot code does not call them. A stream keeps what reached it, its
  good bit, and which of the writes to come fail.
\<close>

record ofstream =
  out_bytes :: string
  out_good :: bool
  out_fails :: "bool list"

definition out_write :: "string \<Rightarrow> ofstream \<Rightarrow> ofstream" where
  "out_write bytes s =
     (if \<not> out_good s then s
      else if out_fails s \<noteq> [] \<and> hd (out_fails s) then s\<lparr>out_good := False, out_fails := tl (out_fails s)\<rparr>
      else s\<lparr>out_bytes := out_bytes s @ bytes, out_fails := tl (out_fails s)\<rparr>)"

definition write_uint64 :: "64 word \<Rightarrow> (ofstream, unit) io" where
  "write_uint64 v s =
     (let s' = out_write (uint64_bytes v) s
      in if \<not> out_good s' then throw_io ''Unable to write uint64 value'' s' else return_io () s')"

definition write_string :: "string \<Rightarrow> (ofstream, unit) io" where
  "write_string v =
     (if MAX_STRING_SIZE < length v then throw_io ''String exceeds snapshot size limit''
      else then_io (write_uint64 (of_nat (length v)))
        (\<lambda>s. let s' = (if v \<noteq> [] then out_write v s else s)
          in if \<not> out_good s' then throw_io ''Unable to write string to snapshot'' s'
             else return_io () s'))"

text \<open>When they return, they have written the format that \<open>read_string\<close> reads.\<close>

lemma write_string_format:
  assumes "write_string v s = (Inr (), s')"
  shows "out_bytes s' = out_bytes s @ string_bytes v \<and> length v \<le> MAX_STRING_SIZE"
  using assms
  by (auto simp: write_string_def write_uint64_def out_write_def then_io_def bind_io_def string_bytes_def Let_def
      throw_io_def return_io_def split: if_splits)

end
