(* ===== verification/Resp.thy ===== *)
theory Resp
  imports Byte_Strings
begin

section \<open>The RESP request parser and the reply helpers\<close>

text \<open>
  \<open>src/resp.cpp\<close> and \<open>include/resp.hpp\<close>. The parser object is a record; its methods take
  and return it, an output parameter is an \<open>option\<close> result. The second half gives the
  request language twice, as a parser on suffixes and as a grammar, and shows that the
  object parser accepts exactly that language.
\<close>

subsection \<open>The parser object\<close>

record resp_parser =
  rp_data :: string
  rp_parts :: "string list"
  rp_error :: bool
  rp_error_message :: string
  rp_position :: nat

definition new_parser :: "string \<Rightarrow> resp_parser" where
  "new_parser d = \<lparr>rp_data = d, rp_parts = [], rp_error = False, rp_error_message = [],
                   rp_position = 0\<rparr>"

definition set_error :: "string \<Rightarrow> resp_parser \<Rightarrow> resp_parser" where
  "set_error message p = p\<lparr>rp_error := True, rp_error_message := message\<rparr>"

definition read_line :: "resp_parser \<Rightarrow> string option \<times> resp_parser" where
  "read_line p =
     (case find_crlf (rp_data p) (rp_position p) of
        None \<Rightarrow> (None, set_error ''Incomplete RESP line'' p)
      | Some e \<Rightarrow> (Some (substr (rp_data p) (rp_position p) (e - rp_position p)),
                   p\<lparr>rp_position := e + 2\<rparr>))"

definition parse_bulk_string :: "resp_parser \<Rightarrow> string option \<times> resp_parser" where
  "parse_bulk_string p0 =
     (case read_line p0 of
        (None, p) \<Rightarrow> (None, p)
      | (Some line, p) \<Rightarrow>
          if line = [] \<or> line ! 0 \<noteq> CHR ''$'' then (None, set_error ''Expected bulk string'' p)
          else case from_chars (tl line) 0 of (ec, n, l) \<Rightarrow>
            if ec \<noteq> Errc_ok \<or> n \<noteq> length (tl line)
            then (None, set_error ''Invalid bulk string length'' p)
            else if l < 0
            then (None, set_error ''Null bulk strings are not supported'' p)
            else if length (rp_data p) < size_wrap (rp_position p + nat l + 2)
            then (None, set_error ''Incomplete bulk string'' p)
            else
              let output = substr (rp_data p) (rp_position p) (nat l);
                  p' = p\<lparr>rp_position := rp_position p + nat l\<rparr>
              in if substr (rp_data p') (rp_position p') 2 \<noteq> CRLF
                 then (None, set_error ''Bulk string missing CRLF'' p')
                 else (Some output, p'\<lparr>rp_position := rp_position p' + 2\<rparr>))"

text \<open>The loop of \<open>parse_array\<close>, with the number of iterations left.\<close>

fun parse_parts :: "nat \<Rightarrow> resp_parser \<Rightarrow> bool \<times> resp_parser" where
  "parse_parts 0 p = (True, p)"
| "parse_parts (Suc n) p =
     (case parse_bulk_string p of
        (None, p') \<Rightarrow> (False, p')
      | (Some part, p') \<Rightarrow> parse_parts n (p'\<lparr>rp_parts := rp_parts p' @ [part]\<rparr>))"

definition parse_array :: "resp_parser \<Rightarrow> bool \<times> resp_parser" where
  "parse_array p0 =
     (case read_line p0 of
        (None, p) \<Rightarrow> (False, p)
      | (Some line, p) \<Rightarrow>
          if line = [] \<or> line ! 0 \<noteq> CHR ''*'' then (False, set_error ''Expected array'' p)
          else case from_chars (tl line) 0 of (ec, n, count) \<Rightarrow>
            if ec \<noteq> Errc_ok \<or> n \<noteq> length (tl line)
            then (False, set_error ''Invalid array length'' p)
            else if count \<le> 0 then (False, set_error ''Empty command'' p)
            else if 1024 < count then (False, set_error ''Command too large'' p)
            else parse_parts (nat count) p)"

definition parse :: "resp_parser \<Rightarrow> bool \<times> resp_parser" where
  "parse p0 =
     (let p = p0\<lparr>rp_parts := [], rp_position := 0, rp_error := False, rp_error_message := []\<rparr>
      in if rp_data p = [] then (False, set_error ''Empty request'' p)
         else if rp_data p ! 0 \<noteq> CHR ''*''
         then (False, set_error ''Only RESP arrays are supported'' p)
         else case parse_array p of
             (False, p') \<Rightarrow> (False, p')
           | (True, p') \<Rightarrow>
               if rp_position p' \<noteq> length (rp_data p')
               then (False, set_error ''Extra data after RESP command'' p')
               else (True, p'))"

definition get_parts :: "resp_parser \<Rightarrow> string list" where
  "get_parts p = rp_parts p"

definition has_error :: "resp_parser \<Rightarrow> bool" where
  "has_error p = rp_error p"

definition get_error :: "resp_parser \<Rightarrow> string" where
  "get_error p = rp_error_message p"

subsection \<open>Reply helpers\<close>

definition resp_simple_string :: "string \<Rightarrow> string" where
  "resp_simple_string v = ''+'' @ v @ CRLF"

definition resp_error :: "string \<Rightarrow> string" where
  "resp_error v = ''-'' @ v @ CRLF"

definition resp_integer :: "int \<Rightarrow> string" where
  "resp_integer v = '':'' @ show_int v @ CRLF"

definition resp_bulk_string :: "string \<Rightarrow> string" where
  "resp_bulk_string v = ''$'' @ show_nat (length v) @ CRLF @ v @ CRLF"

definition resp_null :: string where
  "resp_null = ''$-1'' @ CRLF"

subsection \<open>The client's request encoder (\<open>encode_resp\<close> of \<open>src/main_cli.cpp\<close>)\<close>

definition encode_bulk :: "string \<Rightarrow> string" where
  "encode_bulk a = ''$'' @ show_nat (length a) @ CRLF @ a @ CRLF"

definition encode_resp :: "string list \<Rightarrow> string" where
  "encode_resp arguments =
     foldl (\<lambda>request a. request @ encode_bulk a)
       (''*'' @ show_nat (length arguments) @ CRLF) arguments"

subsection \<open>The reply language\<close>

text \<open>
  The values of RESP that a client can be sent, what the protocol prescribes for their bytes,
  and a reader of one value off the front of a stream. Nothing here uses the reply helpers
  above: they are compared with it.
\<close>

datatype reply = Status string | Failure string | Number int | Bulk string | Null

fun render :: "reply \<Rightarrow> string" where
  "render (Status t) = CHR ''+'' # t @ CRLF"
| "render (Failure t) = CHR ''-'' # t @ CRLF"
| "render (Number i) = CHR '':'' # show_int i @ CRLF"
| "render (Bulk v) = CHR ''$'' # show_nat (length v) @ CRLF @ v @ CRLF"
| "render Null = ''$-1'' @ CRLF"

definition read_int :: "string \<Rightarrow> int option" where
  "read_int s =
     (let neg = (s \<noteq> [] \<and> s ! 0 = CHR ''-''); ds = (if neg then tl s else s)
      in if ds = [] \<or> \<not> list_all is_digit ds then None
         else Some (if neg then - int (dec_value ds) else int (dec_value ds)))"

definition read_reply :: "string \<Rightarrow> (reply \<times> string) option" where
  "read_reply s =
     (case split_line s of
        None \<Rightarrow> None
      | Some ([], rest) \<Rightarrow> None
      | Some (c # l, rest) \<Rightarrow>
          if c = CHR ''+'' then Some (Status l, rest)
          else if c = CHR ''-'' then Some (Failure l, rest)
          else if c = CHR '':'' then map_option (\<lambda>i. (Number i, rest)) (read_int l)
          else if c = CHR ''$'' then
            (case read_int l of
               None \<Rightarrow> None
             | Some n \<Rightarrow>
                 if n = -1 then Some (Null, rest)
                 else if n < 0 \<or> take 2 (drop (nat n) rest) \<noteq> CRLF then None
                 else Some (Bulk (take (nat n) rest), drop (nat n + 2) rest))
          else None)"

text \<open>A line of text, and a value whose text is one line.\<close>

definition line_safe :: "string \<Rightarrow> bool" where
  "line_safe s \<longleftrightarrow> CR \<notin> set s \<and> LF \<notin> set s"

definition line_reply :: "reply \<Rightarrow> bool" where
  "line_reply x \<longleftrightarrow> (case x of Status t \<Rightarrow> line_safe t | Failure t \<Rightarrow> line_safe t | _ \<Rightarrow> True)"

lemma show_nat_safe: "line_safe (show_nat n)"
  using show_nat_digits [of n] by (force simp: line_safe_def)

lemma show_int_safe [simp]: "line_safe (show_int i)"
  using show_nat_safe by (auto simp: show_int_def line_safe_def)

lemma read_int_show_int [simp]: "read_int (show_int i) = Some i"
  using show_nat_digits by (auto simp: read_int_def show_int_def Let_def list_all_iff)

lemma read_int_show_nat [simp]: "read_int (show_nat n) = Some (int n)"
  using read_int_show_int [of "int n"] by (simp add: show_int_def)

lemma read_int_minus_one [simp]: "read_int ''-1'' = Some (-1)"
  by code_simp

text \<open>The reader finds the value and its end, whatever follows.\<close>

lemma read_reply_line:
  "CR \<notin> set (c # l) \<Longrightarrow> split_line (c # l @ CR # LF # rest) = Some (c # l, rest)"
  using split_line_line [of "c # l" rest] by simp

lemma read_render: "line_reply x \<Longrightarrow> read_reply (render x @ rest) = Some (x, rest)"
proof (cases x)
  case (Number i)
  have "CR \<notin> set (CHR '':'' # show_int i)" using show_int_safe [of i] by (simp add: line_safe_def)
  from Number read_reply_line [OF this] show ?thesis by (simp add: read_reply_def)
next
  case (Bulk v)
  have "CR \<notin> set (CHR ''$'' # show_nat (length v))" by simp
  from Bulk read_reply_line [OF this] show ?thesis by (simp add: read_reply_def)
next
  case Null
  have "CR \<notin> set ''$-1''" by simp
  from Null read_reply_line [of "CHR ''$''" "''-1''" rest] show ?thesis by (simp add: read_reply_def)
qed (simp_all add: read_reply_def read_reply_line line_reply_def line_safe_def)

text \<open>The helpers write the bytes that the protocol prescribes.\<close>

lemma reply_helpers:
  "resp_simple_string t = render (Status t)" "resp_error t = render (Failure t)"
  "resp_integer i = render (Number i)" "resp_bulk_string v = render (Bulk v)"
  "resp_null = render Null"
  by (simp_all add: resp_simple_string_def resp_error_def resp_integer_def resp_bulk_string_def
      resp_null_def)

subsection \<open>The request language: a parser on suffixes\<close>

text \<open>
  The specification side. \<open>take_bulk\<close> reads one bulk string off the front of a string and
  returns it with the rest; \<open>resp_read\<close> reads a whole request. No position, no object.
\<close>

definition take_bulk :: "string \<Rightarrow> string + (string \<times> string)" where
  "take_bulk s =
     (case split_line s of
        None \<Rightarrow> Inl ''Incomplete RESP line''
      | Some (l, r) \<Rightarrow>
          if l = [] \<or> l ! 0 \<noteq> CHR ''$'' then Inl ''Expected bulk string''
          else case from_chars_all (tl l) 0 of
              None \<Rightarrow> Inl ''Invalid bulk string length''
            | Some n \<Rightarrow>
                if n < 0 then Inl ''Null bulk strings are not supported''
                else if length r < nat n + 2 then Inl ''Incomplete bulk string''
                else if take 2 (drop (nat n) r) \<noteq> CRLF then Inl ''Bulk string missing CRLF''
                else Inr (take (nat n) r, drop (nat n + 2) r))"

fun take_bulks :: "nat \<Rightarrow> string \<Rightarrow> string + (string list \<times> string)" where
  "take_bulks 0 s = Inr ([], s)"
| "take_bulks (Suc n) s =
     (case take_bulk s of
        Inl e \<Rightarrow> Inl e
      | Inr (v, r) \<Rightarrow>
          (case take_bulks n r of Inl e \<Rightarrow> Inl e | Inr (vs, r') \<Rightarrow> Inr (v # vs, r')))"

definition take_command :: "string \<Rightarrow> string + (string list \<times> string)" where
  "take_command s =
     (case split_line s of
        None \<Rightarrow> Inl ''Incomplete RESP line''
      | Some (l, r) \<Rightarrow>
          if l = [] \<or> l ! 0 \<noteq> CHR ''*'' then Inl ''Expected array''
          else case from_chars_all (tl l) 0 of
              None \<Rightarrow> Inl ''Invalid array length''
            | Some n \<Rightarrow>
                if n \<le> 0 then Inl ''Empty command''
                else if 1024 < n then Inl ''Command too large''
                else take_bulks (nat n) r)"

definition resp_read :: "string \<Rightarrow> string + string list" where
  "resp_read s =
     (if s = [] then Inl ''Empty request''
      else if s ! 0 \<noteq> CHR ''*'' then Inl ''Only RESP arrays are supported''
      else case take_command s of
          Inl e \<Rightarrow> Inl e
        | Inr (args, rest) \<Rightarrow>
            if rest \<noteq> [] then Inl ''Extra data after RESP command'' else Inr args)"

text \<open>
  The grammar: an argument count and lengths written in decimal (leading zeros and \<open>-0\<close>
  are what \<open>from_chars\<close> accepts), each argument followed by CRLF.
\<close>

definition header :: "string \<Rightarrow> nat \<Rightarrow> bool" where
  "header h n \<longleftrightarrow> from_chars_all h 0 = Some (int n)"

inductive bulks :: "string list \<Rightarrow> string \<Rightarrow> bool" where
  bulks_Nil: "bulks [] []"
| bulks_Cons: "header h (length v) \<Longrightarrow> bulks vs s \<Longrightarrow>
     bulks (v # vs) (CHR ''$'' # h @ CRLF @ v @ CRLF @ s)"

lemma bulks_Cons' [intro]:
  "header h (length v) \<Longrightarrow> bulks vs s \<Longrightarrow>
     bulks (v # vs) (CHR ''$'' # h @ CR # LF # v @ CR # LF # s)"
  using bulks_Cons [of h v vs s] by simp

inductive_cases bulks_NilE: "bulks [] s"
inductive_cases bulks_ConsE: "bulks (v # vs) s"

definition resp_request :: "string list \<Rightarrow> string \<Rightarrow> bool" where
  "resp_request args s \<longleftrightarrow>
     (\<exists>h t. s = CHR ''*'' # h @ CRLF @ t \<and> header h (length args) \<and>
            1 \<le> length args \<and> length args \<le> 1024 \<and> bulks args t)"

subsection \<open>The object parser computes the suffix parser\<close>

lemma rp_data_set_error [simp]: "rp_data (set_error m p) = rp_data p"
  by (simp add: set_error_def)

lemma set_error_error [simp]:
  "rp_error (set_error m p)" "rp_error_message (set_error m p) = m"
  by (simp_all add: set_error_def)

lemma read_line_split_line:
  "read_line p =
     (case split_line (drop (rp_position p) (rp_data p)) of
        None \<Rightarrow> (None, set_error ''Incomplete RESP line'' p)
      | Some (l, r) \<Rightarrow> (Some l, p\<lparr>rp_position := rp_position p + length l + 2\<rparr>))"
  using find_crlf_split_line(2) [of "rp_position p" "rp_data p"]
  by (auto simp: read_line_def find_crlf_split_line(1) split: option.splits)

lemma size_wrap_position:
  assumes "length d \<le> max_size" "pos \<le> length d" "in_int64 l"
  shows "size_wrap (pos + nat l + 2) = pos + nat l + 2"
  using assms by (intro size_wrap_id) (simp add: max_size_def in_int64_def, linarith)

lemma parse_bulk_string_refines:
  assumes small: "length (rp_data p) \<le> max_size"
  shows "case take_bulk (drop (rp_position p) (rp_data p)) of
      Inl e \<Rightarrow> \<exists>p'. parse_bulk_string p = (None, p') \<and> rp_error p' \<and> rp_error_message p' = e
    | Inr (v, r) \<Rightarrow> \<exists>pos. parse_bulk_string p = (Some v, p\<lparr>rp_position := pos\<rparr>) \<and>
        drop pos (rp_data p) = r \<and> pos \<le> length (rp_data p)"
proof (cases "split_line (drop (rp_position p) (rp_data p))")
  case None
  then show ?thesis
    by (simp add: take_bulk_def parse_bulk_string_def read_line_split_line)
next
  case (Some lr)
  then obtain l r where sl: "split_line (drop (rp_position p) (rp_data p)) = Some (l, r)"
    by (cases lr) auto
  define q where "q = p\<lparr>rp_position := rp_position p + length l + 2\<rparr>"
  have rl: "read_line p = (Some l, q)"
    by (simp add: read_line_split_line sl q_def)
  have r: "r = drop (rp_position q) (rp_data p)"
    using find_crlf_split_line(2) [OF sl] by (simp add: q_def)
  have "length (drop (rp_position p) (rp_data p)) = length l + 2 + length r"
    using split_line_Some [OF sl] by simp
  then have posq: "rp_position q + length r = length (rp_data p)"
    by (simp add: q_def)
  obtain ec n v where fc: "from_chars (tl l) 0 = (ec, n, v)"
    by (cases "from_chars (tl l) 0") auto
  show ?thesis
  proof (cases "l = [] \<or> l ! 0 \<noteq> CHR ''$'' \<or> ec \<noteq> Errc_ok \<or> n \<noteq> length (tl l) \<or> v < 0")
    case True
    then show ?thesis
      by (auto simp: take_bulk_def parse_bulk_string_def rl sl fc from_chars_all_def)
  next
    case False
    then have "from_chars_all (tl l) 0 = Some v"
      by (simp add: from_chars_all_def fc)
    then have "in_int64 v" by (rule from_chars_all_Some_in_int64)
    with small posq have wrap: "size_wrap (rp_position q + nat v + 2) = rp_position q + nat v + 2"
      by (intro size_wrap_position [of "rp_data p"]) auto
    have dq: "rp_data q = rp_data p" by (simp add: q_def)
    have len: "length (rp_data p) < rp_position q + nat v + 2 \<longleftrightarrow> length r < nat v + 2"
      using posq by linarith
    have out: "substr (rp_data p) (rp_position q) (nat v) = take (nat v) r"
      "substr (rp_data p) (rp_position q + nat v) 2 = take 2 (drop (nat v) r)"
      "drop (rp_position q + nat v + 2) (rp_data p) = drop (nat v + 2) r"
      by (simp_all add: substr_def r add.commute add.left_commute)
    have q': "q\<lparr>rp_position := x\<rparr> = p\<lparr>rp_position := x\<rparr>" for x
      by (simp add: q_def)
    have pos: "rp_position q + nat v + 2 \<le> length (rp_data p)" if "\<not> length r < nat v + 2"
      using that posq by linarith
    from False \<open>from_chars_all (tl l) 0 = Some v\<close> show ?thesis
      using out(3) pos
      by (simp add: take_bulk_def parse_bulk_string_def rl sl fc wrap dq Let_def out(1,2) len q') (auto simp: q')
  qed
qed

lemma parse_parts_refines:
  assumes "length (rp_data p) \<le> max_size"
  shows "case take_bulks n (drop (rp_position p) (rp_data p)) of
      Inl e \<Rightarrow> \<exists>p'. parse_parts n p = (False, p') \<and> rp_error p' \<and> rp_error_message p' = e
    | Inr (vs, r) \<Rightarrow>
        \<exists>pos. parse_parts n p = (True, p\<lparr>rp_position := pos, rp_parts := rp_parts p @ vs\<rparr>) \<and>
          drop pos (rp_data p) = r \<and> (pos \<le> length (rp_data p) \<or> pos = rp_position p)"
  using assms
proof (induction n arbitrary: p)
  case 0
  show ?case by (simp add: exI [where x = "rp_position p"])
next
  case (Suc n)
  let ?s = "drop (rp_position p) (rp_data p)"
  show ?case
  proof (cases "take_bulk ?s")
    case (Inl e)
    with parse_bulk_string_refines [OF Suc.prems] show ?thesis by auto
  next
    case (Inr vr)
    then obtain v r where vr: "take_bulk ?s = Inr (v, r)" by (cases vr) auto
    with parse_bulk_string_refines [OF Suc.prems] obtain pos
      where pb: "parse_bulk_string p = (Some v, p\<lparr>rp_position := pos\<rparr>)"
        and dr: "drop pos (rp_data p) = r" "pos \<le> length (rp_data p)" by auto
    let ?q = "p\<lparr>rp_position := pos, rp_parts := rp_parts p @ [v]\<rparr>"
    have pp: "parse_parts (Suc n) p = parse_parts n ?q" by (simp add: pb)
    have q: "rp_data ?q = rp_data p" "drop (rp_position ?q) (rp_data ?q) = r"
      "rp_position ?q = pos" "rp_parts ?q = rp_parts p @ [v]"
      using dr by simp_all
    have q': "?q\<lparr>rp_position := x, rp_parts := y\<rparr> = p\<lparr>rp_position := x, rp_parts := y\<rparr>" for x y
      by simp
    have IH: "case take_bulks n r of
        Inl e \<Rightarrow> \<exists>p'. parse_parts n ?q = (False, p') \<and> rp_error p' \<and> rp_error_message p' = e
      | Inr (vs, r') \<Rightarrow>
          \<exists>pos'. parse_parts n ?q =
              (True, p\<lparr>rp_position := pos', rp_parts := (rp_parts p @ [v]) @ vs\<rparr>) \<and>
            drop pos' (rp_data p) = r' \<and> (pos' \<le> length (rp_data p) \<or> pos' = pos)"
      using Suc.IH [of ?q, unfolded q q' dr(1)] Suc.prems by simp
    show ?thesis
    proof (cases "take_bulks n r")
      case (Inl e)
      with IH show ?thesis by (simp only: pp vr take_bulks.simps sum.case prod.case)
    next
      case (Inr vsr)
      then obtain vs r' where vsr: "take_bulks n r = Inr (vs, r')" by (cases vsr) auto
      with IH dr(2) show ?thesis
        by (simp only: pp vr take_bulks.simps sum.case prod.case) (auto simp: append_assoc)
    qed
  qed
qed

lemma parse_array_refines:
  assumes small: "length (rp_data p) \<le> max_size"
  shows "case take_command (drop (rp_position p) (rp_data p)) of
      Inl e \<Rightarrow> \<exists>p'. parse_array p = (False, p') \<and> rp_error p' \<and> rp_error_message p' = e
    | Inr (vs, r) \<Rightarrow>
        \<exists>pos. parse_array p = (True, p\<lparr>rp_position := pos, rp_parts := rp_parts p @ vs\<rparr>) \<and>
          drop pos (rp_data p) = r \<and> pos \<le> length (rp_data p)"
proof (cases "split_line (drop (rp_position p) (rp_data p))")
  case None
  then show ?thesis by (simp add: take_command_def parse_array_def read_line_split_line)
next
  case (Some lr)
  then obtain l r where sl: "split_line (drop (rp_position p) (rp_data p)) = Some (l, r)"
    by (cases lr) auto
  define q where "q = p\<lparr>rp_position := rp_position p + length l + 2\<rparr>"
  have rl: "read_line p = (Some l, q)"
    by (simp add: read_line_split_line sl q_def)
  have q: "drop (rp_position q) (rp_data q) = r" "rp_data q = rp_data p" "rp_parts q = rp_parts p"
    using find_crlf_split_line(2) [OF sl] by (simp_all add: q_def)
  have "length (drop (rp_position p) (rp_data p)) = length l + 2 + length r"
    using split_line_Some [OF sl] by simp
  then have posq: "rp_position q \<le> length (rp_data p)" by (simp add: q_def)
  have q': "q\<lparr>rp_position := x, rp_parts := y\<rparr> = p\<lparr>rp_position := x, rp_parts := y\<rparr>" for x y
    by (simp add: q_def)
  obtain ec n v where fc: "from_chars (tl l) 0 = (ec, n, v)"
    by (cases "from_chars (tl l) 0") auto
  show ?thesis
  proof (cases "l = [] \<or> l ! 0 \<noteq> CHR ''*'' \<or> ec \<noteq> Errc_ok \<or> n \<noteq> length (tl l) \<or> v \<le> 0 \<or> 1024 < v")
    case True
    then show ?thesis
      by (auto simp: take_command_def parse_array_def rl sl fc from_chars_all_def)
  next
    case False
    then have tc: "take_command (drop (rp_position p) (rp_data p)) = take_bulks (nat v) r"
      and pa: "parse_array p = parse_parts (nat v) q"
      by (simp_all add: take_command_def parse_array_def rl sl fc from_chars_all_def)
    from parse_parts_refines [of q "nat v", unfolded q q' q(1) [unfolded q(2)]] small posq
    show ?thesis
      unfolding tc pa by (auto split: sum.splits)
  qed
qed

lemma parse_reads:
  assumes small: "length s \<le> max_size"
  shows "case resp_read s of
      Inl e \<Rightarrow> \<exists>p. parse (new_parser s) = (False, p) \<and> has_error p \<and> get_error p = e
    | Inr args \<Rightarrow> \<exists>p. parse (new_parser s) = (True, p) \<and> get_parts p = args \<and> \<not> has_error p"
proof -
  define p where "p = new_parser s"
  have p0: "p\<lparr>rp_parts := [], rp_position := 0, rp_error := False, rp_error_message := []\<rparr> = p"
    and d: "rp_data p = s" "rp_position p = 0" "rp_parts p = []" "\<not> rp_error p"
    by (simp_all add: p_def new_parser_def)
  have P: "parse (new_parser s) =
      (if s = [] then (False, set_error ''Empty request'' p)
       else if s ! 0 \<noteq> CHR ''*'' then (False, set_error ''Only RESP arrays are supported'' p)
       else case parse_array p of
           (False, p') \<Rightarrow> (False, p')
         | (True, p') \<Rightarrow>
             if rp_position p' \<noteq> length (rp_data p')
             then (False, set_error ''Extra data after RESP command'' p')
             else (True, p'))"
    unfolding p_def [symmetric] parse_def Let_def p0 d ..
  have R: "case take_command s of
      Inl e \<Rightarrow> \<exists>p'. parse_array p = (False, p') \<and> rp_error p' \<and> rp_error_message p' = e
    | Inr (vs, r) \<Rightarrow>
        \<exists>pos. parse_array p = (True, p\<lparr>rp_position := pos, rp_parts := vs\<rparr>) \<and>
          drop pos s = r \<and> pos \<le> length s"
    using parse_array_refines [of p, unfolded d drop_0 append_Nil] small by simp
  show ?thesis
  proof (cases "s = [] \<or> s ! 0 \<noteq> CHR ''*''")
    case True
    with P show ?thesis
      by (cases "s = []") (simp_all add: resp_read_def has_error_def get_error_def)
  next
    case False
    show ?thesis
    proof (cases "take_command s")
      case (Inl e)
      with R False show ?thesis
        by (auto simp: resp_read_def P has_error_def get_error_def)
    next
      case (Inr vr)
      then obtain vs r where vr: "take_command s = Inr (vs, r)" by (cases vr) auto
      with R obtain pos where "parse_array p = (True, p\<lparr>rp_position := pos, rp_parts := vs\<rparr>)"
        "drop pos s = r" "pos \<le> length s" by auto
      with vr False show ?thesis
        by (auto simp: resp_read_def P d has_error_def get_error_def get_parts_def)
    qed
  qed
qed

subsection \<open>The suffix parser and the grammar\<close>

lemma take_bulk_Inr:
  "take_bulk s = Inr (v, r) \<longleftrightarrow>
     (\<exists>h. s = CHR ''$'' # h @ CRLF @ v @ CRLF @ r \<and> header h (length v))"
proof
  assume "take_bulk s = Inr (v, r)"
  then obtain l r0 n where sl: "split_line s = Some (l, r0)" and l: "l \<noteq> []" "l ! 0 = CHR ''$''"
    and fc: "from_chars_all (tl l) 0 = Some n" "0 \<le> n" and len: "nat n + 2 \<le> length r0"
    and crlf: "take 2 (drop (nat n) r0) = CRLF" and v: "v = take (nat n) r0"
    and r: "r = drop (nat n + 2) r0"
    by (auto simp: take_bulk_def not_less split: option.splits prod.splits if_splits)
  have "r0 = take (nat n) r0 @ take 2 (drop (nat n) r0) @ drop 2 (drop (nat n) r0)"
    by (simp only: append_take_drop_id)
  then have "r0 = v @ CRLF @ r" by (simp add: crlf v r add.commute)
  moreover have "l = CHR ''$'' # tl l" using l by (cases l) auto
  moreover have "header (tl l) (length v)" using fc len by (simp add: header_def v)
  ultimately show "\<exists>h. s = CHR ''$'' # h @ CRLF @ v @ CRLF @ r \<and> header h (length v)"
    using split_line_Some [OF sl] by (metis append_Cons)
next
  assume "\<exists>h. s = CHR ''$'' # h @ CRLF @ v @ CRLF @ r \<and> header h (length v)"
  then obtain h where s: "s = (CHR ''$'' # h) @ CR # LF # (v @ CRLF @ r)"
    and fc: "from_chars_all h 0 = Some (int (length v))"
    by (auto simp: header_def)
  have "CR \<notin> set (CHR ''$'' # h)" using from_chars_all_no_CR [OF fc] by simp
  then have "split_line s = Some (CHR ''$'' # h, v @ CRLF @ r)"
    unfolding s by (rule split_line_line)
  with fc show "take_bulk s = Inr (v, r)" by (simp add: take_bulk_def)
qed

lemma take_bulks_Inr:
  "take_bulks n s = Inr (vs, r) \<longleftrightarrow> length vs = n \<and> (\<exists>t. s = t @ r \<and> bulks vs t)"
proof (induction n arbitrary: s vs)
  case 0
  then show ?case by (auto intro: bulks_Nil elim: bulks_NilE)
next
  case (Suc n)
  show ?case
  proof
    assume "take_bulks (Suc n) s = Inr (vs, r)"
    then obtain v r1 vs' where 1: "take_bulk s = Inr (v, r1)" "take_bulks n r1 = Inr (vs', r)"
      "vs = v # vs'"
      by (auto split: sum.splits prod.splits)
    then show "length vs = Suc n \<and> (\<exists>t. s = t @ r \<and> bulks vs t)"
      unfolding Suc.IH take_bulk_Inr by auto
  next
    assume a: "length vs = Suc n \<and> (\<exists>t. s = t @ r \<and> bulks vs t)"
    then obtain v vs' where vs: "vs = v # vs'" "length vs' = n" by (cases vs) auto
    with a obtain h t' where s: "s = CHR ''$'' # h @ CRLF @ v @ CRLF @ (t' @ r)"
      and h: "header h (length v)" "bulks vs' t'"
      by (auto elim!: bulks_ConsE)
    then have "take_bulk s = Inr (v, t' @ r)" unfolding take_bulk_Inr by blast
    moreover have "take_bulks n (t' @ r) = Inr (vs', r)" unfolding Suc.IH using vs h by blast
    ultimately show "take_bulks (Suc n) s = Inr (vs, r)" by (simp add: vs)
  qed
qed

lemma take_command_Inr:
  "take_command s = Inr (args, r) \<longleftrightarrow> (\<exists>t. s = t @ r \<and> resp_request args t)"
proof
  assume "take_command s = Inr (args, r)"
  then obtain l r0 n where sl: "split_line s = Some (l, r0)" and l: "l \<noteq> []" "l ! 0 = CHR ''*''"
    and fc: "from_chars_all (tl l) 0 = Some n" "0 < n" "n \<le> 1024"
    and tb: "take_bulks (nat n) r0 = Inr (args, r)"
    by (auto simp: take_command_def not_le split: option.splits prod.splits if_splits)
  from tb obtain t where t: "length args = nat n" "r0 = t @ r" "bulks args t"
    unfolding take_bulks_Inr by blast
  have "l = CHR ''*'' # tl l" using l by (cases l) auto
  then have "s = (CHR ''*'' # tl l @ CRLF @ t) @ r"
    using split_line_Some [OF sl] t by (metis append.assoc append_Cons)
  moreover have "resp_request args (CHR ''*'' # tl l @ CRLF @ t)"
    unfolding resp_request_def header_def using fc t
    by (intro exI [where x = "tl l"] exI [where x = t]) auto
  ultimately show "\<exists>t. s = t @ r \<and> resp_request args t" by blast
next
  assume "\<exists>t. s = t @ r \<and> resp_request args t"
  then obtain h t where s: "s = (CHR ''*'' # h) @ CR # LF # (t @ r)"
    and fc: "from_chars_all h 0 = Some (int (length args))"
    and len: "1 \<le> length args" "length args \<le> 1024" and b: "bulks args t"
    by (auto simp: resp_request_def header_def)
  have "CR \<notin> set (CHR ''*'' # h)" using from_chars_all_no_CR [OF fc] by simp
  then have "split_line s = Some (CHR ''*'' # h, t @ r)"
    unfolding s by (rule split_line_line)
  moreover have "take_bulks (length args) (t @ r) = Inr (args, r)"
    unfolding take_bulks_Inr using b by blast
  ultimately show "take_command s = Inr (args, r)"
    using fc len by (auto simp: take_command_def simp flip: length_greater_0_conv)
qed

lemma resp_read_Inr: "resp_read s = Inr args \<longleftrightarrow> resp_request args s"
proof -
  have "resp_read s = Inr args \<longleftrightarrow> s \<noteq> [] \<and> s ! 0 = CHR ''*'' \<and> take_command s = Inr (args, [])"
    by (auto simp: resp_read_def split: sum.splits prod.splits if_splits)
  also have "\<dots> \<longleftrightarrow> resp_request args s"
    unfolding take_command_Inr by (auto simp: resp_request_def)
  finally show ?thesis .
qed

text \<open>
  Requests are uniquely decodable and prefix free: the front of a stream determines the
  request and the rest.
\<close>

lemma resp_request_unique:
  assumes "resp_request args t" "resp_request args' t'" "t @ r = t' @ r'"
  shows "args = args' \<and> t = t' \<and> r = r'"
proof -
  have "take_command (t @ r) = Inr (args, r)" unfolding take_command_Inr using assms(1) by blast
  moreover have "take_command (t @ r) = Inr (args', r')"
    unfolding take_command_Inr using assms(2,3) by blast
  ultimately show ?thesis using assms(3) by auto
qed

subsection \<open>The encoder writes the request language\<close>

lemma encode_resp_eq:
  "encode_resp args =
     ''*'' @ show_nat (length args) @ CRLF @ concat (map encode_bulk args)"
proof -
  have "foldl (\<lambda>r a. r @ encode_bulk a) s args = s @ concat (map encode_bulk args)" for s
    by (induction args arbitrary: s) auto
  then show ?thesis by (simp add: encode_resp_def)
qed

lemma header_show_nat [intro]: "n < 2 ^ 63 \<Longrightarrow> header (show_nat n) n"
  by (simp add: header_def)

lemma bulks_encode:
  "\<forall>a \<in> set args. length a < 2 ^ 63 \<Longrightarrow> bulks args (concat (map encode_bulk args))"
proof (induction args)
  case Nil
  then show ?case by (simp add: bulks_Nil)
next
  case (Cons a args)
  then show ?case
    using bulks_Cons [OF header_show_nat [of "length a"], of args] by (simp add: encode_bulk_def)
qed

lemma encode_resp_request:
  assumes "args \<noteq> []" "length args \<le> 1024" "\<forall>a \<in> set args. length a < 2 ^ 63"
  shows "resp_request args (encode_resp args)"
proof -
  have "header (show_nat (length args)) (length args)"
    using assms(2) by (intro header_show_nat) simp
  moreover have "1 \<le> length args" using assms(1) by (cases args) auto
  ultimately show ?thesis
    unfolding resp_request_def encode_resp_eq using assms bulks_encode [OF assms(3)] by auto
qed

lemma encode_resp_arg_length: "a \<in> set args \<Longrightarrow> length a < length (encode_resp args)"
proof -
  have "length a < length (concat (map encode_bulk args))" if "a \<in> set args"
    using that by (induction args) (auto simp: encode_bulk_def)
  then show "a \<in> set args \<Longrightarrow> length a < length (encode_resp args)"
    by (simp add: encode_resp_eq)
qed

subsection \<open>Properties\<close>

text \<open>C12 (parse_refines): the position-keeping parser object computes exactly the suffix parser
  \<open>resp_read\<close>: the same arguments on success and the same error message on every failing
  branch, with \<open>has_error\<close> set exactly when \<open>parse\<close> returns false.\<close>

theorem parse_refines:
  assumes "length s \<le> max_size"
  shows "(case parse (new_parser s) of
      (True, p) \<Rightarrow> resp_read s = Inr (get_parts p) \<and> \<not> has_error p
    | (False, p) \<Rightarrow> resp_read s = Inl (get_error p) \<and> has_error p)"
  using parse_reads [OF assms] by (cases "resp_read s") auto

text \<open>A request and a cut request for the witnesses.\<close>

definition ping_request :: string where
  "ping_request = ''*1'' @ CRLF @ ''$4'' @ CRLF @ ''PING'' @ CRLF"

lemma length_ping_request [simp]: "length ping_request = 14"
  by (simp add: ping_request_def)

lemma resp_read_ping_request: "resp_read ping_request = Inr [''PING'']"
  by code_simp

theorem parse_refines_witness:
  "get_parts (snd (parse (new_parser ping_request))) = [''PING''] \<and>
   get_error (snd (parse (new_parser ''PING''))) = ''Only RESP arrays are supported''"
proof -
  have "resp_read ''PING'' = Inl ''Only RESP arrays are supported''" by code_simp
  then show ?thesis
    using parse_refines [of ping_request] resp_read_ping_request parse_refines [of "''PING''"]
    by (auto simp: max_size_def split: prod.splits bool.splits)
qed

text \<open>C2 (parse_accepts): \<open>parse\<close> returns true with the arguments \<open>args\<close> exactly on the
  requests of the grammar for \<open>args\<close>: 1 to 1024 arguments, each with its exact length, and
  nothing after the last one.\<close>

theorem parse_accepts:
  assumes "length s \<le> max_size"
  shows "fst (parse (new_parser s)) \<and> get_parts (snd (parse (new_parser s))) = args \<longleftrightarrow>
    resp_request args s"
  using parse_reads [OF assms] unfolding resp_read_Inr [symmetric]
  by (cases "resp_read s") auto

theorem parse_accepts_witness:
  "fst (parse (new_parser ping_request)) \<and>
   \<not> (fst (parse (new_parser (ping_request @ ''x''))) \<and>
      get_parts (snd (parse (new_parser (ping_request @ ''x'')))) = [''PING''])"
proof -
  have "resp_read (ping_request @ ''x'') \<noteq> Inr [''PING'']" by code_simp
  then show ?thesis
    using parse_accepts [of ping_request "[''PING'']"] resp_read_ping_request
      parse_accepts [of "ping_request @ ''x''" "[''PING'']"]
    unfolding resp_read_Inr by (simp add: max_size_def)
qed

text \<open>C26 (parse_encode_resp): what the client's \<open>encode_resp\<close> writes, the server's parser reads
  back: the same arguments, whatever bytes they hold, CR and LF included.\<close>

theorem parse_encode_resp:
  assumes "args \<noteq> []" "length args \<le> 1024" "length (encode_resp args) \<le> max_size"
  shows "\<exists>p. parse (new_parser (encode_resp args)) = (True, p) \<and> get_parts p = args"
proof -
  have "length a < 2 ^ 63" if "a \<in> set args" for a
    using encode_resp_arg_length [OF that] assms(3) by (simp add: max_size_def)
  then have "resp_read (encode_resp args) = Inr args"
    unfolding resp_read_Inr by (intro encode_resp_request) (use assms in auto)
  with parse_reads [OF assms(3)] show ?thesis by auto
qed

theorem parse_encode_resp_witness:
  "\<exists>p. parse (new_parser (encode_resp [''SET'', CRLF, []])) = (True, p) \<and>
       get_parts p = [''SET'', CRLF, []]"
  using parse_encode_resp [of "[''SET'', CRLF, []]"]
  by (simp add: max_size_def) (simp add: encode_resp_def encode_bulk_def show_nat.simps)

text \<open>No strict prefix of a request parses, so a request cut short
  by a broken connection is never taken for another, shorter one.\<close>

lemma parse_rejects_partial:
  assumes "resp_request args (s @ t)" "t \<noteq> []" "length (s @ t) \<le> max_size"
  shows "\<exists>p. parse (new_parser s) = (False, p) \<and> has_error p"
proof -
  have "resp_read s \<noteq> Inr args'" for args'
    using resp_request_unique [of args' s args "s @ t" t "[]"] assms(1,2)
    unfolding resp_read_Inr by auto
  then obtain e where "resp_read s = Inl e" by (cases "resp_read s") auto
  moreover have "length s \<le> max_size" using assms(3) by simp
  ultimately show ?thesis using parse_reads [of s] by auto
qed

end
