(* ===== verification/Persistence.thy ===== *)
theory Persistence
  imports Database Snapshot_Codec Resp
begin

section \<open>Snapshots and the append-only log\<close>

text \<open>
  \<open>src/persistence.cpp\<close> and \<open>include/persistence.hpp\<close>. The manager's state extends the disk
  with its paths, its open log stream and the flag \<open>initialized\<close>. The log stream is a
  \<open>std::ofstream\<close>: open or not, good or not, with the bytes not yet flushed. A failed stream
  operation writes nothing. Input streams read a file's contents as it is when opened.
\<close>

subsection \<open>The manager and its log stream\<close>

definition SNAPSHOT_MAGIC :: string where
  "SNAPSHOT_MAGIC = ''KOSHDBSNAP''"

definition SNAPSHOT_VERSION :: "64 word" where
  "SNAPSHOT_VERSION = 1"

definition MAX_RECOVERY_RECORD_SIZE :: nat where
  "MAX_RECOVERY_RECORD_SIZE = 512 * 1024"

definition MAX_SNAPSHOT_ENTRIES :: nat where
  "MAX_SNAPSHOT_ENTRIES = 10000000"

record persistence = disk +
  data_directory :: string
  snapshot_file :: string
  temporary_snapshot_file :: string
  append_only_log_file :: string
  aof_open :: bool
  aof_good :: bool
  aof_buffer :: string
  initialized :: bool

definition new_persistence :: "string \<Rightarrow> disk \<Rightarrow> persistence" where
  "new_persistence dir d =
     \<lparr>files = files d, sched = sched d,
      data_directory = dir,
      snapshot_file = dir @ ''/dump.rdb'',
      temporary_snapshot_file = dir @ ''/dump.rdb.tmp'',
      append_only_log_file = dir @ ''/appendonly.aof'',
      aof_open = False, aof_good = True, aof_buffer = [], initialized = False\<rparr>"

definition stream_open :: "persistence \<Rightarrow> persistence" where
  "stream_open pm =
     (if aof_open pm then pm\<lparr>aof_good := False\<rparr>
      else case call_status pm of
          (Inr None, pm') \<Rightarrow>
            append_file (append_only_log_file pm') []
              (pm'\<lparr>aof_open := True, aof_good := True, aof_buffer := []\<rparr>)
        | (_, pm') \<Rightarrow> pm'\<lparr>aof_good := False\<rparr>)"

definition stream_write :: "string \<Rightarrow> persistence \<Rightarrow> persistence" where
  "stream_write bytes pm =
     (if \<not> aof_open pm \<or> \<not> aof_good pm then pm\<lparr>aof_good := False\<rparr>
      else case next_ret pm of
          (Inr (Sys_fail m), pm') \<Rightarrow> pm'\<lparr>aof_good := False\<rparr>
        | (_, pm') \<Rightarrow> pm'\<lparr>aof_buffer := aof_buffer pm' @ bytes\<rparr>)"

definition stream_flush :: "persistence \<Rightarrow> persistence" where
  "stream_flush pm =
     (if \<not> aof_good pm then pm
      else case next_ret pm of
          (Inr (Sys_fail m), pm') \<Rightarrow> pm'\<lparr>aof_good := False\<rparr>
        | (_, pm') \<Rightarrow>
            append_file (append_only_log_file pm') (aof_buffer pm') (pm'\<lparr>aof_buffer := []\<rparr>))"

definition create_data_directory :: "(persistence, unit) io" where
  "create_data_directory =
     bind_io call_status (\<lambda>st.
       case st of
         Some m \<Rightarrow> throw_io (''Unable to create persistence directory: '' @ m)
       | None \<Rightarrow> return_io ())"

definition open_append_only_log :: "(persistence, unit) io" where
  "open_append_only_log pm =
     (let pm' = stream_open pm
      in if \<not> aof_open pm'
         then throw_io (''Unable to open append-only log: '' @ append_only_log_file pm') pm'
         else return_io () pm')"

definition initialize :: "(persistence, unit) io" where
  "initialize pm =
     (if initialized pm then return_io () pm
      else then_io create_data_directory
             (then_io open_append_only_log (\<lambda>pm. return_io () (pm\<lparr>initialized := True\<rparr>))) pm)"

definition append_command :: "string \<Rightarrow> (persistence, unit) io" where
  "append_command resp_command pm =
     (if \<not> initialized pm then throw_io ''PersistenceManager is not initialized'' pm
      else if resp_command = [] then return_io () pm
      else let pm1 = stream_write resp_command pm
        in if \<not> aof_good pm1 then throw_io ''Unable to append command to AOF'' pm1
           else let pm2 = stream_flush pm1
             in if \<not> aof_good pm2 then throw_io ''Unable to flush append-only log'' pm2
                else return_io () pm2)"

definition flush :: "(persistence, unit) io" where
  "flush pm =
     (if \<not> aof_open pm then return_io () pm
      else let pm' = stream_flush pm
        in if \<not> aof_good pm' then throw_io ''Unable to flush append-only log'' pm'
           else return_io () pm')"

definition close :: "persistence \<Rightarrow> persistence" where
  "close pm =
     (let pm' = (if aof_open pm
                 then (stream_flush pm)\<lparr>aof_open := False, aof_buffer := []\<rparr> else pm)
      in pm'\<lparr>initialized := False\<rparr>)"

definition snapshot_path :: "persistence \<Rightarrow> string" where
  "snapshot_path pm = snapshot_file pm"

definition append_only_log_path :: "persistence \<Rightarrow> string" where
  "append_only_log_path pm = append_only_log_file pm"

subsection \<open>Reading a snapshot\<close>

fun restore_entries ::
  "nat \<Rightarrow> database \<Rightarrow> ifstream \<Rightarrow> (string + unit) \<times> database \<times> ifstream" where
  "restore_entries 0 db s = (Inr (), db, s)"
| "restore_entries (Suc n) db s =
     (case read_string s of
        (Inl e, s1) \<Rightarrow> (Inl e, db, s1)
      | (Inr key, s1) \<Rightarrow>
          (case read_string s1 of
             (Inl e, s2) \<Rightarrow> (Inl e, db, s2)
           | (Inr v, s2) \<Rightarrow> restore_entries n (restore_set key v db) s2))"

definition read_snapshot :: "string \<Rightarrow> database \<Rightarrow> (string + unit) \<times> database" where
  "read_snapshot contents db =
     (case in_read (length SNAPSHOT_MAGIC) (open_stream contents) of
        (magic, s) \<Rightarrow>
          if \<not> in_good s then (Inl ''Snapshot file is truncated'', db)
          else if magic \<noteq> SNAPSHOT_MAGIC then (Inl ''Invalid snapshot magic'', db)
          else case read_uint64 s of
              (Inl e, _) \<Rightarrow> (Inl e, db)
            | (Inr version, s1) \<Rightarrow>
                if version \<noteq> SNAPSHOT_VERSION then (Inl ''Unsupported snapshot version'', db)
                else case read_uint64 s1 of
                    (Inl e, _) \<Rightarrow> (Inl e, db)
                  | (Inr entry_count, s2) \<Rightarrow>
                      if MAX_SNAPSHOT_ENTRIES < unat entry_count
                      then (Inl ''Snapshot contains too many entries'', db)
                      else case restore_entries (unat entry_count) db s2 of
                          (r, db', _) \<Rightarrow> (r, db'))"

text \<open>
  What an \<open>ifstream\<close> delivers of a file, which it reads in chunks of any size: an interrupted
  call is repeated, and a failing one ends the data there, as the end of the file would. The
  stream is then not \<open>good\<close>, and the readers above test nothing else.
\<close>

fun stream_bytes :: "sysret list \<Rightarrow> string \<Rightarrow> string \<times> sysret list" where
  "stream_bytes [] rest = (rest, [])"
| "stream_bytes (r # rs) rest =
     (if rest = [] then ([], r # rs)
      else case r of
          Sys_ok \<Rightarrow> (rest, rs)
        | Sys_short n \<Rightarrow>
            if n = 0 then ([], rs)
            else (case stream_bytes rs (drop n rest) of (bytes, rs') \<Rightarrow> (take n rest @ bytes, rs'))
        | Sys_intr \<Rightarrow> stream_bytes rs rest
        | Sys_fail _ \<Rightarrow> ([], rs))"

definition read_file :: "string \<Rightarrow> persistence \<Rightarrow> string \<times> persistence" where
  "read_file contents pm =
     (case stream_bytes (sched pm) contents of (bytes, rs) \<Rightarrow> (bytes, pm\<lparr>sched := rs\<rparr>))"

text \<open>
  \<open>std::filesystem::exists\<close> throws when the status of the path cannot be determined; the text
  of the outcome is then that of the exception.
\<close>

definition recover_snapshot :: "database \<Rightarrow> persistence \<Rightarrow> (string + unit) \<times> database \<times> persistence" where
  "recover_snapshot db pm0 =
     (case call_status pm0 of
        (Inr None, pm) \<Rightarrow>
          (case files pm (snapshot_file pm) of
             None \<Rightarrow> (Inr (), db, pm)
           | Some contents \<Rightarrow>
               (case call_status pm of
                  (Inr None, pm') \<Rightarrow>
                    (case read_file contents pm' of
                       (bytes, pm'') \<Rightarrow> (case read_snapshot bytes db of (r, db') \<Rightarrow> (r, db', pm'')))
                | (_, pm') \<Rightarrow>
                    (Inl (''Unable to open snapshot file: '' @ snapshot_file pm'), db, pm')))
      | (Inr (Some m), pm) \<Rightarrow> (Inl m, db, pm)
      | (Inl m, pm) \<Rightarrow> (Inl m, db, pm))"

subsection \<open>Replaying the log\<close>

text \<open>The argument loop of \<open>parse_resp_request\<close>: the iterations left, the cursor and the result.\<close>

fun parse_arguments :: "nat \<Rightarrow> string \<Rightarrow> nat \<Rightarrow> string list \<Rightarrow> string + (string list \<times> nat)" where
  "parse_arguments 0 request cursor arguments = Inr (arguments, cursor)"
| "parse_arguments (Suc n) request cursor arguments =
     (if length request \<le> cursor \<or> request ! cursor \<noteq> CHR ''$''
      then Inl ''Expected RESP bulk string''
      else case find_crlf request cursor of
          None \<Rightarrow> Inl ''Incomplete RESP bulk length''
        | Some length_end \<Rightarrow>
            (case stoll (substr request (cursor + 1) (length_end - cursor - 1)) of
               Inl e \<Rightarrow> Inl e
             | Inr l \<Rightarrow>
                 if l < 0 \<or> int MAX_RECOVERY_RECORD_SIZE < l
                 then Inl ''Invalid RESP bulk string length''
                 else
                   let cursor = length_end + 2;
                       string_length = nat l
                   in if length request < cursor + string_length + 2
                      then Inl ''Incomplete RESP bulk string''
                      else if substr request (cursor + string_length) 2 \<noteq> CRLF
                      then Inl ''RESP bulk string is missing CRLF''
                      else parse_arguments n request (cursor + (string_length + 2))
                             (arguments @ [substr request cursor string_length])))"

definition parse_resp_request :: "string \<Rightarrow> string + string list" where
  "parse_resp_request request =
     (if request = [] \<or> request ! 0 \<noteq> CHR ''*''
      then Inl ''AOF record does not begin with RESP array''
      else case find_crlf request 0 of
          None \<Rightarrow> Inl ''Incomplete RESP array header''
        | Some array_end \<Rightarrow>
            (case stoll (substr request 1 (array_end - 1)) of
               Inl e \<Rightarrow> Inl e
             | Inr argument_count \<Rightarrow>
                 if argument_count < 0 \<or> 1024 < argument_count
                 then Inl ''Invalid RESP argument count''
                 else case parse_arguments (nat argument_count) request (array_end + 2) [] of
                     Inl e \<Rightarrow> Inl e
                   | Inr (arguments, cursor) \<Rightarrow>
                       if cursor \<noteq> length request then Inl ''Trailing bytes in AOF record''
                       else Inr arguments))"

text \<open>What one complete record does to the database.\<close>

definition apply_record :: "string list \<Rightarrow> database \<Rightarrow> (string + unit) \<times> database" where
  "apply_record arguments db =
     (if arguments = [] then (Inr (), db)
      else if arguments ! 0 = ''SET'' \<or> arguments ! 0 = ''set''
      then (if length arguments \<noteq> 3 then (Inl ''Invalid SET record in AOF'', db)
            else (Inr (), restore_set (arguments ! 1) (arguments ! 2) db))
      else if arguments ! 0 = ''DEL'' \<or> arguments ! 0 = ''del''
      then (if length arguments \<noteq> 2 then (Inl ''Invalid DEL record in AOF'', db)
            else (Inr (), restore_delete (arguments ! 1) db))
      else (Inr (), db))"

text \<open>
  The character loop of \<open>recover_append_only_log\<close>. It tries to parse the record collected so
  far each time that record ends in CRLF.
\<close>

definition ends_with_crlf :: "string \<Rightarrow> bool" where
  "ends_with_crlf r \<longleftrightarrow>
     2 \<le> length r \<and> r ! (length r - 2) = CR \<and> r ! (length r - 1) = LF"

fun replay :: "string \<Rightarrow> string \<Rightarrow> database \<Rightarrow> (string + unit) \<times> database" where
  "replay rec0 [] db = (Inr (), db)"
| "replay rec0 (c # input) db =
     (let rec1 = rec0 @ [c]
      in if MAX_RECOVERY_RECORD_SIZE < length rec1
         then (Inl ''AOF record exceeds maximum size'', db)
         else if ends_with_crlf rec1
         then (case parse_resp_request rec1 of
                 Inl e \<Rightarrow> (Inl e, db)
               | Inr arguments \<Rightarrow>
                   (case apply_record arguments db of
                      (Inl e, db') \<Rightarrow> (Inl e, db')
                    | (Inr _, db') \<Rightarrow> replay [] input db'))
         else replay rec1 input db)"

definition recover_append_only_log ::
  "database \<Rightarrow> persistence \<Rightarrow> (string + unit) \<times> database \<times> persistence" where
  "recover_append_only_log db pm =
     (case files pm (append_only_log_file pm) of
        None \<Rightarrow> (Inr (), db, pm)
      | Some contents \<Rightarrow>
          (case call_status pm of
             (Inr None, pm') \<Rightarrow>
               (case read_file contents pm' of
                  (bytes, pm'') \<Rightarrow> (case replay [] bytes db of (r, db') \<Rightarrow> (r, db', pm'')))
           | (_, pm') \<Rightarrow> (Inr (), db, pm')))"

definition recover :: "database \<Rightarrow> persistence \<Rightarrow> (string + unit) \<times> database \<times> persistence" where
  "recover db pm =
     (case (if \<not> initialized pm then initialize pm else (Inr (), pm)) of
        (Inl e, pm1) \<Rightarrow> (Inl e, db, pm1)
      | (Inr _, pm1) \<Rightarrow>
          (case recover_snapshot db pm1 of
             (Inl e, db2, pm2) \<Rightarrow> (Inl e, db2, pm2)
           | (Inr _, db2, pm2) \<Rightarrow> recover_append_only_log db2 pm2))"

subsection \<open>Writing a snapshot\<close>

fun write_entries :: "string \<Rightarrow> key_value list \<Rightarrow> ('a disk_scheme, unit) io" where
  "write_entries path [] = return_io ()"
| "write_entries path (e # es) =
     then_io (write_string_to_fd path (kv_key e))
       (then_io (write_string_to_fd path (kv_value e)) (write_entries path es))"

definition write_snapshot_file ::
  "database \<Rightarrow> clock \<Rightarrow> string \<Rightarrow> persistence \<Rightarrow> (string + unit) \<times> persistence \<times> clock" where
  "write_snapshot_file db clk path pm =
     (case call_status pm of
        (Inr None, pm0) \<Rightarrow>
          (let pm1 = pm0\<lparr>files := (files pm0)(path \<mapsto> [])\<rparr>
           in case then_io (write_exact path SNAPSHOT_MAGIC)
                     (write_uint64_to_fd path SNAPSHOT_VERSION) pm1 of
                (Inl e, pm2) \<Rightarrow> (Inl e, pm2, clk)
              | (Inr _, pm2) \<Rightarrow>
                  (case entries db clk of
                     (es, clk') \<Rightarrow>
                       (case then_io (write_uint64_to_fd path (of_nat (length es)))
                               (then_io (write_entries path es) fsync_file) pm2 of
                          (r, pm3) \<Rightarrow> (r, pm3, clk'))))
      | (Inr (Some m), pm0) \<Rightarrow>
          (case throw_system_error ''open temporary snapshot'' m pm0 of (r, pm1) \<Rightarrow> (r, pm1, clk))
      | (Inl e, pm0) \<Rightarrow> (Inl e, pm0, clk))"

definition atomically_replace_snapshot :: "(persistence, unit) io" where
  "atomically_replace_snapshot =
     bind_io call_status (\<lambda>st pm.
       case st of
         Some m \<Rightarrow> throw_system_error ''rename snapshot'' m pm
       | None \<Rightarrow>
           (case files pm (temporary_snapshot_file pm) of
              None \<Rightarrow> throw_system_error ''rename snapshot'' ''No such file or directory'' pm
            | Some contents \<Rightarrow>
                fsync_directory
                  (pm\<lparr>files := (files pm)
                       (snapshot_file pm \<mapsto> contents, temporary_snapshot_file pm := None)\<rparr>)))"

definition save_snapshot ::
  "database \<Rightarrow> clock \<Rightarrow> persistence \<Rightarrow> (string + unit) \<times> persistence \<times> clock" where
  "save_snapshot db clk pm =
     (case (if \<not> initialized pm then initialize pm else (Inr (), pm)) of
        (Inl e, pm1) \<Rightarrow> (Inl e, pm1, clk)
      | (Inr _, pm1) \<Rightarrow>
          (case write_snapshot_file db clk (temporary_snapshot_file pm1) pm1 of
             (Inl e, pm2, clk') \<Rightarrow> (Inl e, pm2, clk')
           | (Inr _, pm2, clk') \<Rightarrow>
               (case atomically_replace_snapshot pm2 of (r, pm3) \<Rightarrow> (r, pm3, clk'))))"

subsection \<open>The snapshot format\<close>

text \<open>The bytes of a snapshot that holds the given pairs.\<close>

definition snapshot_bytes :: "key_value list \<Rightarrow> string" where
  "snapshot_bytes es =
     SNAPSHOT_MAGIC @ uint64_bytes SNAPSHOT_VERSION @ uint64_bytes (of_nat (length es)) @
     concat (map (enc_pair string_bytes string_bytes) (map kv_pair es))"

definition restore_pairs :: "(string \<times> string) list \<Rightarrow> database \<Rightarrow> database" where
  "restore_pairs = fold (\<lambda>(k, v). restore_set k v)"

lemma restore_entries_fold:
  "restore_entries n db s =
     read_fold (read_pair read_string read_string) (\<lambda>(k, v). restore_set k v) n db s"
  by (induction n arbitrary: db s)
    (auto simp: read_pair_def bind_io_def split: prod.splits sum.splits)

lemma restore_pairs_wf: "db_wf db \<Longrightarrow> db_wf (restore_pairs kvs db)"
  by (induction kvs arbitrary: db) (auto simp: restore_pairs_def)

lemma live_restore_pairs: "live t (restore_pairs kvs db) = live t db ++ map_of (rev kvs)"
proof (induction kvs arbitrary: db)
  case (Cons kv kvs)
  then show ?case
    by (cases kv) (auto simp: restore_pairs_def live_restore_set map_add_def fun_eq_iff split: option.split)
qed (simp add: restore_pairs_def)

lemma map_of_rev_distinct: "distinct (map fst kvs) \<Longrightarrow> map_of (rev kvs) = map_of kvs"
  using map_of_inject_set [of "rev kvs" kvs] by (simp add: rev_map [symmetric])

lemma SNAPSHOT_MAGIC_length [simp]: "length SNAPSHOT_MAGIC = 10"
  by (simp add: SNAPSHOT_MAGIC_def)

lemma of_nat_le_value_uint64 [simp]: "of_nat (le_value (uint64_bytes v)) = v"
  by simp

definition storable :: "key_value list \<Rightarrow> bool" where
  "storable es \<longleftrightarrow> length es \<le> MAX_SNAPSHOT_ENTRIES \<and>
     (\<forall>kv \<in> set es. length (kv_key kv) \<le> MAX_STRING_SIZE \<and> length (kv_value kv) \<le> MAX_STRING_SIZE)"

lemma unat_entry_count:
  "length es \<le> MAX_SNAPSHOT_ENTRIES \<Longrightarrow> unat (of_nat (length es) :: 64 word) = length es"
  by (simp add: MAX_SNAPSHOT_ENTRIES_def unat_of_nat)

lemma read_snapshot_header:
  assumes "length es \<le> MAX_SNAPSHOT_ENTRIES"
  shows "read_snapshot (SNAPSHOT_MAGIC @ uint64_bytes SNAPSHOT_VERSION @
      uint64_bytes (of_nat (length es)) @ body) db =
    (case restore_entries (length es) db (open_stream body) of (r, db', _) \<Rightarrow> (r, db'))"
proof -
  have "\<not> MAX_SNAPSHOT_ENTRIES < unat (of_nat (length es) :: 64 word)"
    using assms by (simp add: unat_entry_count)
  then show ?thesis
    by (simp add: read_snapshot_def uint64.rd_enc unat_entry_count [OF assms])
qed

lemma read_snapshot_bytes:
  assumes "storable es"
  shows "read_snapshot (snapshot_bytes es) db = (Inr (), restore_pairs (map kv_pair es) db)"
proof -
  have len: "length es \<le> MAX_SNAPSHOT_ENTRIES" using assms by (simp add: storable_def)
  have "\<forall>x \<in> set (map kv_pair es). case x of (x, y) \<Rightarrow>
      length x \<le> MAX_STRING_SIZE \<and> length y \<le> MAX_STRING_SIZE"
    using assms by (auto simp: storable_def)
  from pairs.pair.read_fold_enc [OF this, where r = "[]" and f = "\<lambda>(k, v). restore_set k v" and d = db] show ?thesis
    unfolding snapshot_bytes_def read_snapshot_header [OF len] restore_entries_fold
    by (simp add: restore_pairs_def)
qed

text \<open>A snapshot cut short anywhere is refused, and the pairs before the cut stay restored.\<close>

lemma read_snapshot_partial:
  assumes ok: "storable es" and st: "snapshot_bytes es = s @ t" and t: "t \<noteq> []"
  shows "\<exists>e n. read_snapshot s db = (Inl e, restore_pairs (take n (map kv_pair es)) db)"
proof -
  have len: "length es \<le> MAX_SNAPSHOT_ENTRIES" using ok by (simp add: storable_def)
  have zero: "restore_pairs (take 0 kvs) db = db" for kvs by (simp add: restore_pairs_def)
  have fail: ?thesis if "\<exists>e. read_snapshot s db = (Inl e, db)" using that zero by metis
  from st [unfolded snapshot_bytes_def] show ?thesis
  proof (cases rule: cut_append)
    case (inside u)
    then have "\<not> length SNAPSHOT_MAGIC \<le> length s"
      by (metis length_append length_greater_0_conv less_add_same_cancel1 not_le)
    then show ?thesis by (intro fail) (simp add: read_snapshot_def)
  next
    case (after s1)
    from after(2) show ?thesis
    proof (cases rule: cut_append)
      case (inside u)
      from uint64.rd_partial [OF TrueI inside(1,2)] after(1) show ?thesis
        by (intro fail) (auto simp: read_snapshot_def)
    next
      case (after s2)
      note s1 = after(1)
      from after(2) show ?thesis
      proof (cases rule: cut_append)
        case (inside u)
        from uint64.rd_partial [OF TrueI inside(1,2)] s1 \<open>s = SNAPSHOT_MAGIC @ s1\<close> show ?thesis
          by (intro fail) (auto simp: read_snapshot_def uint64.rd_enc)
      next
        case (after s3)
        have oks: "\<forall>x \<in> set (map kv_pair es). case x of (x, y) \<Rightarrow>
            length x \<le> MAX_STRING_SIZE \<and> length y \<le> MAX_STRING_SIZE"
          using ok by (auto simp: storable_def)
        from pairs.pair.read_fold_partial [OF oks after(2) t, where f = "\<lambda>(k, v). restore_set k v" and d = db]
        show ?thesis
          unfolding \<open>s = SNAPSHOT_MAGIC @ s1\<close> s1 after(1) read_snapshot_header [OF len]
            restore_entries_fold
          by (fastforce simp: restore_pairs_def)
      qed
    qed
  qed
qed

subsection \<open>Writing it\<close>

lemma write_entries_appends:
  "appends path (concat (map (enc_pair string_bytes string_bytes) (map kv_pair es))) (write_entries path es)"
proof (induction es)
  case Nil
  then show ?case by (simp only: write_entries.simps list.map concat.simps appends_return)
next
  case (Cons e es)
  show ?case
    using appends_then [OF write_string_appends appends_then [OF write_string_appends Cons.IH],
        of "kv_key e" "kv_value e"]
    by (simp add: enc_pair_def string_bytes_def)
qed

lemma write_entries_ok:
  "\<forall>kv \<in> set es. length (kv_key kv) \<le> MAX_STRING_SIZE \<and> length (kv_value kv) \<le> MAX_STRING_SIZE \<Longrightarrow>
     returns_ok path (write_entries path es)"
  by (induction es) (simp_all add: returns_ok_then write_string_ok)

lemma write_entries_returns:
  "write_entries path es d = (Inr x, d') \<Longrightarrow>
     \<forall>kv \<in> set es. length (kv_key kv) \<le> MAX_STRING_SIZE \<and> length (kv_value kv) \<le> MAX_STRING_SIZE"
proof (induction es arbitrary: d)
  case (Cons e es)
  have len: "length v \<le> MAX_STRING_SIZE" if "write_string_to_fd path v d = (Inr y, d1)" for v y and d d1 :: "'a disk_scheme"
    using that by (cases "MAX_STRING_SIZE < length v") (auto simp: write_string_to_fd_def)
  from Cons.prems have "then_io (write_string_to_fd path (kv_key e))
      (then_io (write_string_to_fd path (kv_value e)) (write_entries path es)) d = (Inr x, d')"
    by simp
  then obtain y d1 where 1: "write_string_to_fd path (kv_key e) d = (Inr y, d1)"
    "then_io (write_string_to_fd path (kv_value e)) (write_entries path es) d1 = (Inr x, d')"
    by (cases rule: then_io_split) auto
  from 1(2) obtain z d2 where 2: "write_string_to_fd path (kv_value e) d1 = (Inr z, d2)"
    "write_entries path es d2 = (Inr x, d')"
    by (cases rule: then_io_split) auto
  from Cons.IH [OF 2(2)] len [OF 1(1)] len [OF 2(1)] show ?case by simp
qed simp

lemma SNAPSHOT_header_appends:
  "appends path (SNAPSHOT_MAGIC @ uint64_bytes SNAPSHOT_VERSION)
     (then_io (write_exact path SNAPSHOT_MAGIC) (write_uint64_to_fd path SNAPSHOT_VERSION))"
  by (rule appends_then [OF write_exact_appends write_uint64_appends])

definition write_body :: "string \<Rightarrow> key_value list \<Rightarrow> ('a disk_scheme, unit) io" where
  "write_body path es =
     then_io (write_uint64_to_fd path (of_nat (length es))) (then_io (write_entries path es) fsync_file)"

lemma write_body_appends:
  "appends path (uint64_bytes (of_nat (length es)) @
     concat (map (enc_pair string_bytes string_bytes) (map kv_pair es))) (write_body path es)"
  unfolding write_body_def
  using appends_then [OF write_uint64_appends appends_then [OF write_entries_appends fsync_file_appends],
      of path "of_nat (length es)" es]
  by simp

text \<open>
  After \<open>write_snapshot_file\<close>, returned or thrown, the file at \<open>path\<close> is a prefix of the
  snapshot (all of it after a return), or the file was never opened; nothing else changed.
\<close>

lemma write_snapshot_file_effect:
  assumes "write_snapshot_file db clk path pm = (r, pm', clk')"
  shows "(\<exists>rs w v. pm' = pm\<lparr>files := (files pm)(path \<mapsto> w), sched := rs\<rparr> \<and>
        snapshot_bytes (fst (entries db clk)) = w @ v \<and> (r = Inr () \<longrightarrow> v = []) ) \<or>
      (\<exists>rs. pm' = pm\<lparr>sched := rs\<rparr> \<and> r \<noteq> Inr ())"
proof -
  define es where "es = fst (entries db clk)"
  obtain clk1 where ent: "entries db clk = (es, clk1)" by (cases "entries db clk") (simp add: es_def)
  obtain st pm0 where cs: "call_status pm = (st, pm0)" by fastforce
  from call_status_frame [OF this] obtain st' where st: "st = Inr st'" and
    pm0: "pm0 = pm\<lparr>sched := tl (sched pm)\<rparr>" by blast
  show ?thesis
  proof (cases st')
    case (Some m)
    with assms cs st pm0 show ?thesis
      by (intro disjI2) (auto simp: write_snapshot_file_def)
  next
    case None
    define pm1 where "pm1 = pm0\<lparr>files := (files pm0)(path \<mapsto> [])\<rparr>"
    have f1: "files pm1 path = Some []" by (simp add: pm1_def)
    obtain h pm2 where hd: "then_io (write_exact path SNAPSHOT_MAGIC)
        (write_uint64_to_fd path SNAPSHOT_VERSION) pm1 = (h, pm2)" by fastforce
    from appends_run [OF SNAPSHOT_header_appends hd f1] obtain w v rs where
      wv: "SNAPSHOT_MAGIC @ uint64_bytes SNAPSHOT_VERSION = w @ v" "\<forall>x. h = Inr x \<longrightarrow> v = []"
      and pm2: "pm2 = pm1\<lparr>files := (files pm1)(path \<mapsto> [] @ w), sched := rs\<rparr>"
      by blast
    show ?thesis
    proof (cases h)
      case (Inl e)
      with assms cs st None hd have "r = Inl e" "pm' = pm2"
        by (simp_all add: write_snapshot_file_def pm1_def Let_def)
      moreover have "snapshot_bytes es = (SNAPSHOT_MAGIC @ uint64_bytes SNAPSHOT_VERSION) @
          uint64_bytes (of_nat (length es)) @
          concat (map (enc_pair string_bytes string_bytes) (map kv_pair es))"
        by (simp add: snapshot_bytes_def)
      ultimately show ?thesis
        unfolding es_def [symmetric]
        by - (rule disjI1, rule exI [where x = rs], rule exI [where x = w], rule exI,
            simp add: wv(1) pm2 pm1_def pm0)
    next
      case (Inr u)
      with wv have w: "w = SNAPSHOT_MAGIC @ uint64_bytes SNAPSHOT_VERSION" by simp
      have f2: "files pm2 path = Some w" by (simp add: pm2)
      obtain b pm3 where bd: "write_body path es pm2 = (b, pm3)" by fastforce
      from appends_run [OF write_body_appends bd f2] obtain w' v' rs' where
        wv': "uint64_bytes (of_nat (length es)) @
            concat (map (enc_pair string_bytes string_bytes) (map kv_pair es)) = w' @ v'"
          "\<forall>x. b = Inr x \<longrightarrow> v' = []"
        and pm3: "pm3 = pm2\<lparr>files := (files pm2)(path \<mapsto> w @ w'), sched := rs'\<rparr>"
        by blast
      have run: "write_snapshot_file db clk path pm = (b, pm3, clk1)"
        using bd unfolding write_body_def
        by (simp add: write_snapshot_file_def cs st None hd [unfolded pm1_def] Inr ent Let_def)
      have "snapshot_bytes es = w @ uint64_bytes (of_nat (length es)) @
          concat (map (enc_pair string_bytes string_bytes) (map kv_pair es))"
        by (simp add: snapshot_bytes_def w)
      then have sb: "snapshot_bytes es = (w @ w') @ v'" unfolding wv'(1) by simp
      have pm': "pm3 = pm\<lparr>files := (files pm)(path \<mapsto> w @ w'), sched := rs'\<rparr>"
        by (simp add: pm3 pm2 pm1_def pm0)
      from run assms have "r = b" "pm' = pm3" by simp_all
      with wv'(2) show ?thesis
        unfolding es_def [symmetric] sb pm' by blast
    qed
  qed
qed

subsection \<open>Saving\<close>

definition pm_wf :: "persistence \<Rightarrow> bool" where
  "pm_wf pm \<longleftrightarrow> snapshot_file pm \<noteq> temporary_snapshot_file pm \<and>
     append_only_log_file pm \<noteq> snapshot_file pm \<and>
     append_only_log_file pm \<noteq> temporary_snapshot_file pm"

lemma new_persistence_wf: "pm_wf (new_persistence dir d)"
  by (simp add: pm_wf_def new_persistence_def)

text \<open>What \<open>initialize\<close> may change: the log file, which it creates, and no path.\<close>

definition same_paths :: "persistence \<Rightarrow> persistence \<Rightarrow> bool" where
  "same_paths pm pm' \<longleftrightarrow> data_directory pm' = data_directory pm \<and>
     snapshot_file pm' = snapshot_file pm \<and>
     temporary_snapshot_file pm' = temporary_snapshot_file pm \<and>
     append_only_log_file pm' = append_only_log_file pm"

lemma stream_open_frame:
  "same_paths pm (stream_open pm) \<and>
   (\<forall>p. p \<noteq> append_only_log_file pm \<longrightarrow> files (stream_open pm) p = files pm p)"
proof -
  obtain st pm' where cs: "call_status pm = (st, pm')" by fastforce
  from call_status_frame [OF this] obtain st' where "st = Inr st'" "pm' = pm\<lparr>sched := tl (sched pm)\<rparr>"
    by blast
  with cs show ?thesis
    by (auto simp: stream_open_def same_paths_def append_file_def split: option.split)
qed

lemma initialize_frame:
  assumes "initialize pm = (r, pm')"
  shows "same_paths pm pm' \<and> (\<forall>p. p \<noteq> append_only_log_file pm \<longrightarrow> files pm' p = files pm p)"
proof -
  obtain c pm1 where cd: "create_data_directory pm = (c, pm1)" by fastforce
  then have pm1: "pm1 = pm\<lparr>sched := tl (sched pm)\<rparr>"
    unfolding create_data_directory_def
    by (cases rule: bind_io_split)
      (auto dest!: call_status_frame split: option.splits simp: throw_io_def return_io_def)
  have f: "same_paths pm (stream_open pm1)"
    "p \<noteq> append_only_log_file pm \<Longrightarrow> files (stream_open pm1) p = files pm p" for p
    using stream_open_frame [of pm1] by (simp_all add: same_paths_def pm1)
  have s: "same_paths pm pm1" "same_paths pm pm"
    "same_paths pm pm'' \<Longrightarrow> same_paths pm (pm''\<lparr>initialized := True\<rparr>)" for pm''
    by (simp_all add: same_paths_def pm1)
  show ?thesis
    using assms cd f s
    by (auto simp: initialize_def then_io_def bind_io_def open_append_only_log_def Let_def pm1
        split: if_splits sum.splits prod.splits)
qed

text \<open>The log itself is created empty where it does not exist, and otherwise only opened.\<close>

definition opened_log :: "persistence \<Rightarrow> persistence \<Rightarrow> bool" where
  "opened_log pm pm' \<longleftrightarrow>
     files pm' (append_only_log_file pm) = files pm (append_only_log_file pm) \<or>
     \<not> initialized pm \<and> files pm (append_only_log_file pm) = None \<and>
       files pm' (append_only_log_file pm) = Some []"

lemma stream_open_log:
  "files (stream_open pm) (append_only_log_file pm) = files pm (append_only_log_file pm) \<or>
   files pm (append_only_log_file pm) = None \<and> files (stream_open pm) (append_only_log_file pm) = Some []"
proof -
  obtain st pm' where cs: "call_status pm = (st, pm')" by fastforce
  from call_status_frame [OF this] obtain st' where "st = Inr st'" "pm' = pm\<lparr>sched := tl (sched pm)\<rparr>"
    by blast
  with cs show ?thesis
    by (auto simp: stream_open_def append_file_def split: option.split)
qed

lemma initialize_log:
  assumes "initialize pm = (r, pm')"
  shows "opened_log pm pm'"
proof (cases "initialized pm")
  case True
  with assms show ?thesis by (simp add: initialize_def opened_log_def return_io_def)
next
  case False
  obtain c pm1 where cd: "create_data_directory pm = (c, pm1)" by fastforce
  then have pm1: "pm1 = pm\<lparr>sched := tl (sched pm)\<rparr>"
    unfolding create_data_directory_def
    by (cases rule: bind_io_split)
      (auto dest!: call_status_frame split: option.splits simp: throw_io_def return_io_def)
  with False assms cd stream_open_log [of pm1] show ?thesis
    by (auto simp: opened_log_def initialize_def then_io_def bind_io_def open_append_only_log_def
        Let_def throw_io_def return_io_def split: if_splits sum.splits prod.splits)
qed

lemma atomically_replace_effect:
  assumes "atomically_replace_snapshot pm = (r, pm')"
  shows "(files pm' = files pm \<and> r \<noteq> Inr ()) \<or>
    (\<exists>c. files pm (temporary_snapshot_file pm) = Some c \<and>
       files pm' = (files pm)(snapshot_file pm \<mapsto> c, temporary_snapshot_file pm := None))"
proof -
  obtain st pm1 where cs: "call_status pm = (st, pm1)" by fastforce
  from call_status_frame [OF this] obtain st' where st: "st = Inr st'"
    and pm1: "pm1 = pm\<lparr>sched := tl (sched pm)\<rparr>" by blast
  show ?thesis
  proof (cases "st' = None \<and> files pm (temporary_snapshot_file pm) \<noteq> None")
    case False
    with assms show ?thesis
      by (auto simp: atomically_replace_snapshot_def bind_io_def cs st pm1 split: option.splits)
  next
    case True
    then obtain c where c: "st' = None" "files pm (temporary_snapshot_file pm) = Some c" by auto
    from assms have "fsync_directory (pm1\<lparr>files := (files pm1)
        (snapshot_file pm1 \<mapsto> c, temporary_snapshot_file pm1 := None)\<rparr>) = (r, pm')"
      by (simp add: atomically_replace_snapshot_def bind_io_def cs st c pm1 del: fun_upd_apply)
    from fsync_directory_frame [OF this] c(2) show ?thesis by (auto simp: pm1)
  qed
qed

text \<open>The whole of \<open>save_snapshot\<close>, in terms of the files before and after it.\<close>

lemma save_snapshot_effect:
  assumes "save_snapshot db clk pm = (r, pm', clk')" "pm_wf pm"
  shows "(files pm' (snapshot_file pm) = files pm (snapshot_file pm) \<and> r \<noteq> Inr ()) \<or>
      files pm' (snapshot_file pm) = Some (snapshot_bytes (fst (entries db clk)))"
    and "p \<notin> {snapshot_file pm, temporary_snapshot_file pm, append_only_log_file pm} \<Longrightarrow>
      files pm' p = files pm p"
proof -
  let ?bytes = "snapshot_bytes (fst (entries db clk))"
  let ?three = "{snapshot_file pm, temporary_snapshot_file pm, append_only_log_file pm}"
  obtain i pm1 where ini: "(if \<not> initialized pm then initialize pm else (Inr (), pm)) = (i, pm1)"
    by fastforce
  have p1: "same_paths pm pm1" "\<And>p. p \<noteq> append_only_log_file pm \<Longrightarrow> files pm1 p = files pm p"
    using ini initialize_frame [of pm i pm1] by (auto simp: same_paths_def split: if_splits)
  have wf1: "snapshot_file pm1 \<noteq> temporary_snapshot_file pm1" "snapshot_file pm1 = snapshot_file pm"
    "temporary_snapshot_file pm1 = temporary_snapshot_file pm"
    "snapshot_file pm \<noteq> append_only_log_file pm" "snapshot_file pm \<noteq> temporary_snapshot_file pm"
    using assms(2) p1(1) by (auto simp: pm_wf_def same_paths_def)
  obtain w pm2 clk2 where wr:
    "write_snapshot_file db clk (temporary_snapshot_file pm1) pm1 = (w, pm2, clk2)"
    by (metis prod_cases3)
  have p2: "snapshot_file pm2 = snapshot_file pm" "temporary_snapshot_file pm2 = temporary_snapshot_file pm"
    "p \<noteq> temporary_snapshot_file pm \<Longrightarrow> files pm2 p = files pm1 p"
    "w = Inr () \<Longrightarrow> files pm2 (temporary_snapshot_file pm) = Some ?bytes" for p
    using write_snapshot_file_effect [OF wr] wf1 by auto
  obtain a pm3 where at: "atomically_replace_snapshot pm2 = (a, pm3)" by fastforce
  have "((files pm' (snapshot_file pm) = files pm (snapshot_file pm) \<and> r \<noteq> Inr ()) \<or>
      files pm' (snapshot_file pm) = Some ?bytes) \<and> (\<forall>p. p \<notin> ?three \<longrightarrow> files pm' p = files pm p)"
  proof (cases i)
    case (Inl e)
    with assms(1) ini have "r = Inl e" "pm' = pm1" by (simp_all add: save_snapshot_def)
    with p1 wf1 show ?thesis by simp
  next
    case i: (Inr u)
    show ?thesis
    proof (cases w)
      case (Inl e)
      with i assms(1) ini wr p1 p2 wf1 show ?thesis by (auto simp: save_snapshot_def)
    next
      case (Inr u')
      with i assms(1) ini wr at have "r = a" "pm' = pm3" by (auto simp: save_snapshot_def)
      with atomically_replace_effect [OF at] p1 p2 Inr wf1 show ?thesis by auto
    qed
  qed
  then show "(files pm' (snapshot_file pm) = files pm (snapshot_file pm) \<and> r \<noteq> Inr ()) \<or>
      files pm' (snapshot_file pm) = Some ?bytes"
    and "p \<notin> ?three \<Longrightarrow> files pm' p = files pm p" by blast+
qed

text \<open>
  The other two files: the temporary one is gone after success, and is at most a part of the
  new snapshot after a failure; the log is as \<open>initialize\<close> leaves it.
\<close>

lemma save_snapshot_others:
  assumes "save_snapshot db clk pm = (r, pm', clk')" "pm_wf pm"
  shows "opened_log pm pm'"
    and "r = Inr () \<Longrightarrow> files pm' (temporary_snapshot_file pm) = None"
    and "files pm' (temporary_snapshot_file pm) \<in> {files pm (temporary_snapshot_file pm), None} \<or>
      (\<exists>w v. files pm' (temporary_snapshot_file pm) = Some w \<and> snapshot_bytes (fst (entries db clk)) = w @ v)"
proof -
  let ?tmp = "temporary_snapshot_file pm" and ?log = "append_only_log_file pm"
  let ?part = "\<lambda>q. \<exists>w v. files q ?tmp = Some w \<and> snapshot_bytes (fst (entries db clk)) = w @ v"
  obtain i pm1 where ini: "(if \<not> initialized pm then initialize pm else (Inr (), pm)) = (i, pm1)"
    by fastforce
  have log1: "opened_log pm pm1"
    using ini initialize_log [of pm i pm1] by (auto simp: opened_log_def split: if_splits)
  have p1: "same_paths pm pm1" "files pm1 ?tmp = files pm ?tmp"
    using ini initialize_frame [of pm i pm1] assms(2) by (auto simp: same_paths_def pm_wf_def split: if_splits)
  have paths: "temporary_snapshot_file pm1 = ?tmp" "snapshot_file pm1 = snapshot_file pm"
    "?log \<noteq> ?tmp" "?log \<noteq> snapshot_file pm"
    using assms(2) p1(1) by (auto simp: pm_wf_def same_paths_def)
  obtain w pm2 clk2 where wr: "write_snapshot_file db clk ?tmp pm1 = (w, pm2, clk2)" by (metis prod_cases3)
  have p2: "files pm2 ?log = files pm1 ?log" "files pm2 ?tmp = files pm ?tmp \<or> ?part pm2"
    "snapshot_file pm2 = snapshot_file pm" "temporary_snapshot_file pm2 = ?tmp"
    using write_snapshot_file_effect [OF wr] paths p1(2) by auto
  obtain a pm3 where at: "atomically_replace_snapshot pm2 = (a, pm3)" by fastforce
  consider "r \<noteq> Inr ()" "pm' = pm1" | "r \<noteq> Inr ()" "pm' = pm2" | "r = a" "pm' = pm3"
    using assms(1) ini wr at paths(1)
    by (cases i; cases w) (auto simp: save_snapshot_def)
  then have "opened_log pm pm' \<and> (r = Inr () \<longrightarrow> files pm' ?tmp = None) \<and>
      (files pm' ?tmp \<in> {files pm ?tmp, None} \<or> ?part pm')"
  proof cases
    case 1
    with log1 p1(2) show ?thesis by simp
  next
    case 2
    with log1 p2 show ?thesis by (auto simp: opened_log_def)
  next
    case 3
    with log1 p2 atomically_replace_effect [OF at] paths show ?thesis
      by (elim disjE conjE exE) (auto simp: opened_log_def)
  qed
  then show "opened_log pm pm'" "r = Inr () \<Longrightarrow> files pm' ?tmp = None"
    "files pm' ?tmp \<in> {files pm ?tmp, None} \<or> ?part pm'" by blast+
qed

definition strings_fit :: "key_value list \<Rightarrow> bool" where
  "strings_fit es \<longleftrightarrow>
     (\<forall>kv \<in> set es. length (kv_key kv) \<le> MAX_STRING_SIZE \<and> length (kv_value kv) \<le> MAX_STRING_SIZE)"

lemma write_body_returns: "write_body path es d = (Inr x, d') \<Longrightarrow> strings_fit es"
  unfolding write_body_def strings_fit_def
  by (elim then_io_split) (auto dest!: write_entries_returns)

lemma write_snapshot_file_returns:
  assumes "write_snapshot_file db clk path pm = (Inr x, pm', clk')"
  shows "strings_fit (fst (entries db clk))"
proof -
  obtain es clk1 where ent: "entries db clk = (es, clk1)" by fastforce
  from assms ent have "\<exists>d d' y. write_body path es d = (Inr y, d' :: persistence)"
    by (auto simp: write_snapshot_file_def Let_def write_body_def
        split: prod.splits sum.splits option.splits)
  with write_body_returns ent show ?thesis by (metis fst_conv)
qed

lemma save_snapshot_returns:
  "save_snapshot db clk pm = (Inr x, pm', clk') \<Longrightarrow> strings_fit (fst (entries db clk))"
  using write_snapshot_file_returns by (fastforce simp: save_snapshot_def split: prod.splits sum.splits)

lemma header_ok:
  "returns_ok path (then_io (write_exact path SNAPSHOT_MAGIC) (write_uint64_to_fd path SNAPSHOT_VERSION))"
  by (rule returns_ok_then [OF write_exact_ok write_uint64_ok])

lemma write_body_ok: "strings_fit es \<Longrightarrow> returns_ok path (write_body path es)"
  unfolding write_body_def strings_fit_def
  by (intro returns_ok_then write_uint64_ok write_entries_ok fsync_file_ok)

lemma returns_okE:
  assumes "returns_ok path m" "smooth (sched d)" "files d path \<noteq> None"
  obtains x d' where "m d = (Inr x, d')" "smooth (sched d')" "files d' path \<noteq> None"
  using assms unfolding returns_ok_def by meson

lemma write_snapshot_file_ok:
  assumes "smooth (sched pm)" "strings_fit (fst (entries db clk))"
  shows "\<exists>pm' clk'. write_snapshot_file db clk path pm = (Inr (), pm', clk') \<and>
    smooth (sched pm') \<and> files pm' path \<noteq> None"
proof -
  obtain es clk1 where ent: "entries db clk = (es, clk1)" by fastforce
  define pm1 where "pm1 = pm\<lparr>sched := tl (sched pm), files := (files pm)(path \<mapsto> [])\<rparr>"
  have "smooth (sched pm1)" "files pm1 path \<noteq> None"
    using smooth_tl [OF assms(1)] by (simp_all add: pm1_def)
  from returns_okE [OF header_ok this] obtain x pm2 where 2: "then_io (write_exact path SNAPSHOT_MAGIC)
      (write_uint64_to_fd path SNAPSHOT_VERSION) pm1 = (Inr x, pm2)"
    "smooth (sched pm2)" "files pm2 path \<noteq> None" by metis
  have "strings_fit es" using assms(2) ent by simp
  from returns_okE [OF write_body_ok [OF this] 2(2,3)] obtain y pm3 where
    3: "write_body path es pm2 = (Inr y, pm3)" "smooth (sched pm3)" "files pm3 path \<noteq> None" by metis
  have "write_snapshot_file db clk path pm = (Inr (), pm3, clk1)"
    using 2(1) 3(1) [unfolded write_body_def] unfolding pm1_def
    by (simp add: write_snapshot_file_def call_status_smooth [OF assms(1)] ent Let_def)
  with 3 show ?thesis by blast
qed

lemma atomically_replace_ok:
  assumes "smooth (sched pm)" "files pm (temporary_snapshot_file pm) \<noteq> None"
  shows "\<exists>pm'. atomically_replace_snapshot pm = (Inr (), pm')"
  using assms smooth_tl [OF assms(1)]
  by (auto simp: atomically_replace_snapshot_def bind_io_def call_status_smooth fsync_directory_smooth)

lemma save_snapshot_ok:
  assumes "initialized pm" "pm_wf pm" "smooth (sched pm)" "strings_fit (fst (entries db clk))"
  shows "\<exists>pm' clk'. save_snapshot db clk pm = (Inr (), pm', clk')"
proof -
  from write_snapshot_file_ok [OF assms(3,4)] obtain pm2 clk2 where
    2: "write_snapshot_file db clk (temporary_snapshot_file pm) pm = (Inr (), pm2, clk2)"
      "smooth (sched pm2)" "files pm2 (temporary_snapshot_file pm) \<noteq> None" by blast
  have "temporary_snapshot_file pm2 = temporary_snapshot_file pm"
    using write_snapshot_file_effect [OF 2(1)] by auto
  with 2 obtain pm3 where "atomically_replace_snapshot pm2 = (Inr (), pm3)"
    using atomically_replace_ok by metis
  with 2(1) assms(1) show ?thesis by (simp add: save_snapshot_def)
qed

subsection \<open>The log\<close>

lemma stoll_from_chars_all:
  assumes "from_chars_all s v0 = Some v"
  shows "stoll s = Inr v"
proof -
  define neg where "neg = (s \<noteq> [] \<and> s ! 0 = CHR ''-'')"
  define ds where "ds = (if neg then tl s else s)"
  from assms have ds: "ds \<noteq> []" "list_all is_digit ds" "in_int64 v"
    "v = (if neg then - int (dec_value ds) else int (dec_value ds))"
    by (auto simp: from_chars_all_eq Let_def neg_def ds_def split: if_splits)
  then have d0: "\<not> neg \<Longrightarrow> is_digit (s ! 0)" by (cases s) (auto simp: ds_def)
  have s0: "s \<noteq> []" using ds(1) by (auto simp: ds_def neg_def)
  have "\<not> is_space (s ! 0)"
    using d0 digit_not_space by (cases neg) (auto simp: neg_def is_space_def)
  then have dw: "dropWhile is_space s = s" using s0 by (cases s) auto
  have np: "s ! 0 \<noteq> CHR ''+''" using d0 by (cases neg) (auto simp: neg_def)
  have tw: "takeWhile is_digit ds = ds" using ds(2) by (simp add: takeWhile_eq_all_conv list_all_iff)
  have plus: "(s \<noteq> [] \<and> s ! 0 = CHR ''+'') = False" using np by simp
  show ?thesis
    unfolding stoll_def Let_def dw neg_def [symmetric] plus simp_thms ds_def [symmetric] tw
    using ds by simp
qed

text \<open>The first CRLF of a record ends its header line, and the parser then runs out of input.\<close>

lemma parse_header_only:
  assumes "crlf_index (r @ CRLF) = Some (length r)"
  shows "(\<exists>e. parse_resp_request (r @ CRLF) = Inl e) \<or> parse_resp_request (r @ CRLF) = Inr []"
proof -
  have f: "find_crlf (r @ CRLF) 0 = Some (length r)" using assms by (simp add: find_crlf_def)
  have p: "parse_arguments n (r @ CRLF) (length r + 2) [] =
      (if n = 0 then Inr ([], length r + 2) else Inl ''Expected RESP bulk string'')" for n
    by (cases n) simp_all
  show ?thesis
    unfolding parse_resp_request_def f option.case p
    by (cases "stoll (substr (r @ CRLF) 1 (length r - 1))") auto
qed

lemma ends_with_crlf_snoc: "ends_with_crlf (r @ [c]) \<longleftrightarrow> r \<noteq> [] \<and> last r = CR \<and> c = LF"
  by (cases r rule: rev_cases) (auto simp: ends_with_crlf_def nth_append)

lemma crlf_index_snoc_None:
  "crlf_index r = None \<Longrightarrow> \<not> ends_with_crlf (r @ [c]) \<Longrightarrow> crlf_index (r @ [c]) = None"
proof (induction r rule: crlf_index.induct)
  case (1 a b s)
  then show ?case
    using ends_with_crlf_snoc [of "a # b # s" c] ends_with_crlf_snoc [of "b # s" c]
    by (auto split: if_splits)
qed (auto simp: ends_with_crlf_def)

lemma crlf_index_snoc_Some:
  "crlf_index r = None \<Longrightarrow> ends_with_crlf (r @ [c]) \<Longrightarrow>
     \<exists>r0. r @ [c] = r0 @ CRLF \<and> crlf_index (r0 @ CRLF) = Some (length r0)"
proof (induction r rule: crlf_index.induct)
  case (1 a b s)
  then have "ends_with_crlf ((b # s) @ [c])" "crlf_index (b # s) = None"
    using ends_with_crlf_snoc [of "a # b # s" c] ends_with_crlf_snoc [of "b # s" c]
    by (auto split: if_splits)
  with 1 obtain r0 where r0: "(b # s) @ [c] = r0 @ CRLF" "crlf_index (r0 @ CRLF) = Some (length r0)"
    by (auto split: if_splits)
  with 1(2) have "crlf_index ((a # r0) @ CRLF) = Some (length (a # r0))"
    by (cases r0) (auto simp: crlf_index_Cons split: if_splits)
  with r0 show ?case by (intro exI [where x = "a # r0"]) simp
qed (auto simp: ends_with_crlf_def)

lemma replay_unchanged: "crlf_index rec0 = None \<Longrightarrow> snd (replay rec0 input db) = db"
proof (induction rec0 input db rule: replay.induct)
  case (2 rec0 c input db)
  show ?case
  proof (cases "MAX_RECOVERY_RECORD_SIZE < length (rec0 @ [c])")
    case False
    show ?thesis
    proof (cases "ends_with_crlf (rec0 @ [c])")
      case True
      from crlf_index_snoc_Some [OF "2.prems" True] obtain r0 where
        r0: "rec0 @ [c] = r0 @ CRLF" "crlf_index (r0 @ CRLF) = Some (length r0)" by blast
      from parse_header_only [OF r0(2)] consider e where "parse_resp_request (rec0 @ [c]) = Inl e"
        | "parse_resp_request (rec0 @ [c]) = Inr []" unfolding r0(1) by blast
      then show ?thesis
      proof cases
        case 1
        with True False show ?thesis by (simp add: Let_def)
      next
        case 2
        have ap: "apply_record [] db = (Inr (), db)" by (simp add: apply_record_def)
        from "2.IH"(1) [OF refl False True 2 ap [symmetric] refl] True False 2 show ?thesis by (simp add: Let_def ap)
      qed
    next
      case ne: False
      from "2.IH"(2) [OF refl False ne] crlf_index_snoc_None [OF "2.prems" ne] False ne
      show ?thesis by (simp add: Let_def)
    qed
  qed (simp add: Let_def)
qed simp

text \<open>A CR-free run of characters is collected into the record.\<close>

lemma replay_collect:
  assumes "CR \<notin> set (rec0 @ xs)" "length (rec0 @ xs) \<le> MAX_RECOVERY_RECORD_SIZE"
  shows "replay rec0 (xs @ input) db = replay (rec0 @ xs) input db"
  using assms
proof (induction xs arbitrary: rec0)
  case (Cons x xs)
  have "\<not> ends_with_crlf (rec0 @ [x])"
    using Cons.prems(1) by (auto simp: ends_with_crlf_snoc dest: last_in_set)
  with Cons.IH [of "rec0 @ [x]"] Cons.prems show ?case by (simp add: Let_def)
qed simp

lemma replay_request:
  assumes "resp_request args s" "length s \<le> MAX_RECOVERY_RECORD_SIZE"
  shows "replay [] (s @ rest) db = (Inl ''Expected RESP bulk string'', db)"
proof -
  from assms(1) obtain h t where s: "s = (CHR ''*'' # h) @ CRLF @ t" and
    fc: "from_chars_all h 0 = Some (int (length args))" and len: "1 \<le> length args" "length args \<le> 1024"
    by (auto simp: resp_request_def header_def)
  let ?r = "CHR ''*'' # h"
  have cr: "CR \<notin> set ?r" using from_chars_all_no_CR [OF fc] by simp
  have sz: "length ?r + 2 \<le> MAX_RECOVERY_RECORD_SIZE" using assms(2) s by simp
  have "replay [] (s @ rest) db = replay ?r (CRLF @ t @ rest) db"
    using replay_collect [of "[]" ?r "CRLF @ t @ rest" db] cr sz s by simp
  also have "\<dots> = replay (?r @ [CR]) ([LF] @ t @ rest) db"
    using sz by (simp add: Let_def ends_with_crlf_snoc [of ?r, simplified])
  also have "\<dots> = (case parse_resp_request (?r @ CRLF) of
      Inl e \<Rightarrow> (Inl e, db)
    | Inr arguments \<Rightarrow> (case apply_record arguments db of
        (Inl e, db') \<Rightarrow> (Inl e, db') | (Inr _, db') \<Rightarrow> replay [] (t @ rest) db'))"
    using sz ends_with_crlf_snoc [of "?r @ [CR]" LF] by (simp add: Let_def)
  also have "parse_resp_request (?r @ CRLF) = Inl ''Expected RESP bulk string''"
  proof -
    have "find_crlf (?r @ CRLF) 0 = Some (length ?r)"
      using crlf_index_line [OF cr, of "[]"] by (simp add: find_crlf_def)
    moreover have "substr (?r @ CRLF) 1 (length ?r - 1) = h" by (simp add: substr_def)
    moreover have "parse_arguments (length args) (?r @ CRLF) (length ?r + 2) [] =
        Inl ''Expected RESP bulk string''"
      using len by (cases "length args") simp_all
    ultimately show ?thesis
      using stoll_from_chars_all [OF fc] len by (simp add: parse_resp_request_def)
  qed
  finally show ?thesis by simp
qed

text \<open>The record parser itself accepts every request whose arguments fit its limit.\<close>

lemma parse_arguments_step:
  assumes "cursor < length request" "request ! cursor = CHR ''$''"
    and "find_crlf request cursor = Some e"
    and "stoll (substr request (cursor + 1) (e - cursor - 1)) = Inr (int n)"
    and "n \<le> MAX_RECOVERY_RECORD_SIZE" "e + 2 + n + 2 \<le> length request"
    and "substr request (e + 2 + n) 2 = CRLF"
  shows "parse_arguments (Suc k) request cursor acc =
    parse_arguments k request (e + 2 + (n + 2)) (acc @ [substr request (e + 2) n])"
  using assms by (simp add: Let_def)

lemma parse_arguments_bulks:
  assumes "bulks vs t" "\<forall>v \<in> set vs. length v \<le> MAX_RECOVERY_RECORD_SIZE"
  shows "parse_arguments (length vs) (pre @ t @ post) (length pre) acc =
    Inr (acc @ vs, length pre + length t)"
  using assms
proof (induction arbitrary: pre acc rule: bulks.induct)
  case (bulks_Cons h v vs s)
  let ?req = "pre @ (CHR ''$'' # h @ CRLF @ v @ CRLF @ s) @ post"
  let ?pre = "pre @ CHR ''$'' # h @ CRLF @ v @ CRLF"
  from bulks_Cons.hyps(1) have fc: "from_chars_all h 0 = Some (int (length v))" by (simp add: header_def)
  have cr: "CR \<notin> set (CHR ''$'' # h)" using from_chars_all_no_CR [OF fc] by simp
  have f: "find_crlf ?req (length pre) = Some (length pre + length h + 1)"
    using crlf_index_line [OF cr, of "v @ CRLF @ s @ post"] by (simp add: find_crlf_def)
  have num: "substr ?req (length pre + 1) (length pre + length h + 1 - length pre - 1) = h"
    by (simp add: substr_def)
  let ?hd = "pre @ CHR ''$'' # h @ CRLF"
  have idx: "length pre + length h + 1 + 2 = length ?hd" by simp
  have r1: "?req = (?hd @ v) @ CRLF @ (s @ post)" and r2: "?req = ?hd @ v @ (CRLF @ s @ post)"
    by simp_all
  have crlf: "substr ?req (length pre + length h + 1 + 2 + length v) 2 = CRLF"
    unfolding r1 idx using substr_at [of "?hd @ v" CRLF "s @ post"]
    by (simp del: append_assoc append.simps add: numeral_2_eq_2)
  have val: "substr ?req (length pre + length h + 1 + 2) (length v) = v"
    unfolding r2 idx by (rule substr_at)
  have ok: "length v \<le> MAX_RECOVERY_RECORD_SIZE" using bulks_Cons.prems by simp
  have "parse_arguments (Suc (length vs)) ?req (length pre) acc =
      parse_arguments (length vs) ?req (length pre + length h + 1 + 2 + (length v + 2))
        (acc @ [substr ?req (length pre + length h + 1 + 2) (length v)])"
    by (rule parse_arguments_step [OF _ _ f _ ok _ crlf])
      (simp_all add: num [simplified] stoll_from_chars_all [OF fc] nth_append)
  also have "\<dots> = parse_arguments (length vs) (?pre @ s @ post) (length ?pre) (acc @ [v])"
    unfolding val by (simp add: add.assoc)
  also have "\<dots> = Inr ((acc @ [v]) @ vs, length ?pre + length s)"
    using bulks_Cons.prems by (intro bulks_Cons.IH) simp
  finally show ?case by simp
qed simp

lemma parse_resp_request_grammar:
  assumes "resp_request args s" "\<forall>a \<in> set args. length a \<le> MAX_RECOVERY_RECORD_SIZE"
  shows "parse_resp_request s = Inr args"
proof -
  from assms(1) obtain h t where s: "s = (CHR ''*'' # h @ CRLF) @ t" and
    fc: "from_chars_all h 0 = Some (int (length args))" and len: "length args \<le> 1024"
    and b: "bulks args t"
    by (auto simp: resp_request_def header_def)
  have cr: "CR \<notin> set (CHR ''*'' # h)" using from_chars_all_no_CR [OF fc] by simp
  have "find_crlf s 0 = Some (length h + 1)"
    using crlf_index_line [OF cr, of t] by (simp add: find_crlf_def s)
  moreover have "substr s 1 (length h + 1 - 1) = h" by (simp add: substr_def s)
  moreover have "parse_arguments (length args) s (length h + 1 + 2) [] = Inr (args, length s)"
    using parse_arguments_bulks [OF b assms(2), of "CHR ''*'' # h @ CRLF" "[]" "[]"] by (simp add: s)
  ultimately show ?thesis
    using stoll_from_chars_all [OF fc] len by (simp add: parse_resp_request_def) (simp add: s)
qed

text \<open>Appending: a command reaches the file whole, or not at all.\<close>

lemma append_command_effect:
  assumes "append_command cmd pm = (r, pm')" "aof_good pm \<Longrightarrow> aof_buffer pm = []"
    and "files pm (append_only_log_file pm) = Some c" "initialized pm"
  shows "append_only_log_file pm' = append_only_log_file pm \<and> initialized pm' \<and>
    ((r = Inr () \<and> files pm' = (files pm)(append_only_log_file pm \<mapsto> c @ cmd) \<and>
       (aof_good pm' \<longrightarrow> aof_buffer pm' = [])) \<or>
     (r \<noteq> Inr () \<and> files pm' = files pm \<and> \<not> aof_good pm'))"
proof -
  have same: "(files pm)(append_only_log_file pm \<mapsto> c) = files pm" using assms(3) by auto
  obtain x pm1 where n1: "next_ret pm = (Inr x, pm1)" "pm1 = pm\<lparr>sched := tl (sched pm)\<rparr>"
    by (cases "sched pm") (auto simp: next_ret_def)
  let ?pm2 = "pm1\<lparr>aof_buffer := aof_buffer pm1 @ cmd\<rparr>"
  obtain y pm3 where n2: "next_ret ?pm2 = (Inr y, pm3)" "pm3 = ?pm2\<lparr>sched := tl (sched ?pm2)\<rparr>"
    by (cases "sched ?pm2") (auto simp: next_ret_def)
  show ?thesis
  proof (cases "cmd = []")
    case True
    with assms same show ?thesis by (auto simp: append_command_def)
  next
    case False
    show ?thesis
    proof (cases "aof_open pm \<and> aof_good pm \<and> (\<forall>m. x \<noteq> Sys_fail m)")
      case bad: False
      then have "\<not> aof_good (stream_write cmd pm) \<and> files (stream_write cmd pm) = files pm \<and>
          append_only_log_file (stream_write cmd pm) = append_only_log_file pm \<and>
          initialized (stream_write cmd pm)"
        using n1 assms(4) by (auto simp: stream_write_def split: sysret.splits)
      with assms(1,4) False show ?thesis by (auto simp: append_command_def Let_def)
    next
      case good: True
      then have w: "stream_write cmd pm = ?pm2"
        using n1 by (auto simp: stream_write_def split: sysret.splits)
      have g: "aof_good ?pm2" "aof_buffer ?pm2 = cmd" using good assms(2) n1(2) by auto
      show ?thesis
      proof (cases "\<exists>m. y = Sys_fail m")
        case True
        then have "stream_flush ?pm2 = pm3\<lparr>aof_good := False\<rparr>"
          using n2 g(1) by (auto simp: stream_flush_def)
        moreover from this have "(r, pm') = (Inl ''Unable to flush append-only log'', pm3\<lparr>aof_good := False\<rparr>)"
          using assms(1,4) False w g(1) by (simp add: append_command_def Let_def)
        ultimately show ?thesis using n1(2) n2(2) assms(4) by simp
      next
        case ok: False
        then have "stream_flush ?pm2 = append_file (append_only_log_file pm3) cmd (pm3\<lparr>aof_buffer := []\<rparr>)"
          using n2 g by (auto simp: stream_flush_def split: sysret.splits)
        moreover from this have "(r, pm') = (Inr (), append_file (append_only_log_file pm3) cmd (pm3\<lparr>aof_buffer := []\<rparr>))"
          using assms(1,4) False w g(1) n2(2) by (simp add: append_command_def Let_def append_file_def)
        ultimately show ?thesis using n1(2) n2(2) assms(3,4) by (simp add: append_file_def)
      qed
    qed
  qed
qed

fun append_commands :: "string list \<Rightarrow> (persistence, unit) io" where
  "append_commands [] = return_io ()"
| "append_commands (c # cs) = then_io (append_command c) (append_commands cs)"

lemma append_commands_effect:
  assumes "append_commands cs pm = (r, pm')" "aof_good pm \<Longrightarrow> aof_buffer pm = []"
    and "files pm (append_only_log_file pm) = Some c" "initialized pm"
  shows "\<exists>n \<le> length cs. (r = Inr () \<longrightarrow> n = length cs) \<and>
    files pm' = (files pm)(append_only_log_file pm \<mapsto> c @ concat (take n cs))"
  using assms
proof (induction cs arbitrary: pm c)
  case Nil
  then show ?case by (auto intro!: exI [where x = 0])
next
  case (Cons x cs)
  have same: "(files pm)(append_only_log_file pm \<mapsto> c) = files pm" using Cons.prems(3) by auto
  from Cons.prems(1) have "then_io (append_command x) (append_commands cs) pm = (r, pm')" by simp
  then show ?case
  proof (cases rule: then_io_split)
    case (thrown e)
    with append_command_effect [OF thrown(1) Cons.prems(2-4)] same show ?thesis
      by (intro exI [where x = 0]) auto
  next
    case (returned u t)
    have eff: "append_only_log_file t = append_only_log_file pm" "initialized t"
      "files t = (files pm)(append_only_log_file pm \<mapsto> c @ x)" "aof_good t \<Longrightarrow> aof_buffer t = []"
      using append_command_effect [OF returned(1) Cons.prems(2-4)] by auto
    then have "files t (append_only_log_file t) = Some (c @ x)" by simp
    from Cons.IH [OF returned(2) eff(4) this eff(2)] obtain n where "n \<le> length cs"
      "r = Inr () \<longrightarrow> n = length cs"
      "files pm' = (files t)(append_only_log_file t \<mapsto> (c @ x) @ concat (take n cs))" by blast
    with eff show ?thesis by (intro exI [where x = "Suc n"]) auto
  qed
qed

lemma crlf_index_ends: "ends_with_crlf r \<Longrightarrow> crlf_index (r @ s) \<noteq> None"
proof (induction r)
  case (Cons a r)
  show ?case
  proof (cases "r = [] \<or> r = [LF] \<and> a = CR")
    case True
    with Cons.prems show ?thesis by (auto simp: ends_with_crlf_def)
  next
    case False
    with Cons.prems have "ends_with_crlf r"
      by (cases r rule: rev_cases)
        (auto simp: ends_with_crlf_snoc [of "a # _", simplified] ends_with_crlf_snoc split: if_splits)
    with Cons.IH show ?thesis by (auto simp: crlf_index_Cons)
  qed
qed (simp add: ends_with_crlf_def)

lemma replay_partial:
  "crlf_index (rec0 @ input) = None \<Longrightarrow> length (rec0 @ input) \<le> MAX_RECOVERY_RECORD_SIZE \<Longrightarrow>
     replay rec0 input db = (Inr (), db)"
proof (induction input arbitrary: rec0)
  case (Cons c input)
  have "\<not> ends_with_crlf (rec0 @ [c])"
    using crlf_index_ends [of "rec0 @ [c]" input] Cons.prems(1) by auto
  with Cons.IH [of "rec0 @ [c]"] Cons.prems show ?case by (simp add: Let_def)
qed simp

text \<open>Without failing calls a file is delivered in full, in however many pieces.\<close>

lemma stream_bytes_benign: "benign rs \<Longrightarrow> fst (stream_bytes rs s) = s"
proof (induction rs s rule: stream_bytes.induct)
  case (2 r rs rest)
  then have "benign rs" by (simp add: benign_def)
  with 2 show ?case by (cases r) (auto simp: benign_def split: prod.split)
qed simp

lemma read_file_benign: "benign (sched pm) \<Longrightarrow> \<exists>pm'. read_file s pm = (s, pm')"
  using stream_bytes_benign [of "sched pm" s] by (auto simp: read_file_def split: prod.split)

text \<open>A snapshot with more entries than recovery accepts.\<close>

lemma read_snapshot_too_many:
  assumes "MAX_SNAPSHOT_ENTRIES < length es" "length es < 2 ^ 64"
  shows "read_snapshot (snapshot_bytes es) db = (Inl ''Snapshot contains too many entries'', db)"
proof -
  have "unat (of_nat (length es) :: 64 word) = length es"
    using assms(2) by (simp add: unat_of_nat)
  with assms(1) show ?thesis
    by (simp add: snapshot_bytes_def read_snapshot_def uint64.rd_enc)
qed

text \<open>Reading back what was saved.\<close>

lemma saved_snapshot_reads:
  assumes "db_wf db" "readings (length (store db)) t0 t1 clk" "pm_wf pm"
    and "save_snapshot db clk pm = (Inr (), pm', clk')"
  obtains (restores) contents db' m where "files pm' (snapshot_file pm) = Some contents"
      "length (fst (entries db clk)) \<le> MAX_SNAPSHOT_ENTRIES"
      "read_snapshot contents empty_database = (Inr (), db')" "db_wf db'"
      "\<forall>t'. live t' db' = m" "live t1 db \<subseteq>\<^sub>m m" "m \<subseteq>\<^sub>m live t0 db"
    | (refused) contents where "files pm' (snapshot_file pm) = Some contents"
      "MAX_SNAPSHOT_ENTRIES < length (fst (entries db clk))"
      "length (fst (entries db clk)) < 2 ^ 64 \<Longrightarrow>
        read_snapshot contents empty_database = (Inl ''Snapshot contains too many entries'', empty_database)"
proof -
  let ?es = "fst (entries db clk)"
  let ?db = "restore_pairs (map kv_pair ?es) empty_database"
  have f: "files pm' (snapshot_file pm) = Some (snapshot_bytes ?es)"
    using save_snapshot_effect(1) [OF assms(4,3)] by simp
  show thesis
  proof (cases "length ?es \<le> MAX_SNAPSHOT_ENTRIES")
    case False
    then show thesis using refused [OF f] read_snapshot_too_many by simp
  next
    case True
    then have "storable ?es"
      using save_snapshot_returns [OF assms(4)] by (simp add: storable_def strings_fit_def)
    then have rd: "read_snapshot (snapshot_bytes ?es) empty_database = (Inr (), ?db)"
      by (rule read_snapshot_bytes)
    have es: "distinct (map fst (map kv_pair ?es))" "live t1 db \<subseteq>\<^sub>m map_of (map kv_pair ?es)"
      "map_of (map kv_pair ?es) \<subseteq>\<^sub>m live t0 db"
      using entries_live [OF assms(1,2)] by (simp_all add: comp_def)
    have "live t' ?db = map_of (map kv_pair ?es)" for t'
      by (simp only: live_restore_pairs live_empty map_of_rev_distinct [OF es(1)]) simp
    with restores [OF f True rd restore_pairs_wf [OF empty_database_wf]] es(2,3) show thesis by blast
  qed
qed

subsection \<open>Properties\<close>

text \<open>C7 (snapshot_roundtrip): after a successful SAVE the snapshot file exists. If at most
  10,000,000 pairs were saved, reading it into an empty database succeeds, with distinct keys,
  and gives every pair that was live at the end of the SAVE and only pairs that were live at
  its start, where the clock readings that the SAVE takes, one per entry at most, lie between
  the times \<open>t0\<close> and \<open>t1\<close>: exactly the live pairs when the clock stands still. The expiry times
  are not stored: at every time the restored database holds the same pairs. If more were
  saved, the file that SAVE has just written is refused.\<close>

theorem snapshot_roundtrip:
  assumes "db_wf db" "readings (length (store db)) t0 t1 clk" "pm_wf pm"
    and "save_snapshot db clk pm = (Inr (), pm', clk')"
  shows "\<exists>contents. files pm' (snapshot_file pm) = Some contents \<and>
    (if length (fst (entries db clk)) \<le> MAX_SNAPSHOT_ENTRIES
     then \<exists>db' m. read_snapshot contents empty_database = (Inr (), db') \<and> db_wf db' \<and>
       (\<forall>t'. live t' db' = m) \<and> live t1 db \<subseteq>\<^sub>m m \<and> m \<subseteq>\<^sub>m live t0 db
     else length (fst (entries db clk)) < 2 ^ 64 \<longrightarrow>
       read_snapshot contents empty_database =
         (Inl ''Snapshot contains too many entries'', empty_database))"
  using assms
proof (cases rule: saved_snapshot_reads)
  case restores
  then show ?thesis by auto
next
  case refused
  then show ?thesis by auto
qed

definition sample_persistence :: "sysret list \<Rightarrow> persistence" where
  "sample_persistence rs =
     (new_persistence ''data'' \<lparr>files = [''data/dump.rdb'' \<mapsto> ''old'', ''data/appendonly.aof'' \<mapsto> []], sched = rs\<rparr>)
     \<lparr>aof_open := True, initialized := True\<rparr>"

lemma sample_persistence_facts:
  "initialized (sample_persistence rs)" "pm_wf (sample_persistence rs)"
  "sched (sample_persistence rs) = rs" "snapshot_file (sample_persistence rs) = ''data/dump.rdb''"
  "append_only_log_file (sample_persistence rs) = ''data/appendonly.aof''"
  "files (sample_persistence rs) ''data/dump.rdb'' = Some ''old''"
  "files (sample_persistence rs) ''data/appendonly.aof'' = Some []"
  "aof_buffer (sample_persistence rs) = []"
  by (simp_all add: sample_persistence_def new_persistence_def pm_wf_def)

lemma sample_entries: "fst (entries sample_db (sconst 5)) =
    [\<lparr>kv_key = ''a'', kv_value = ''1''\<rparr>, \<lparr>kv_key = ''b'', kv_value = ''2''\<rparr>]"
  by (simp add: entries_def sample_db_def is_expired_def now_def)

lemma sample_fits: "strings_fit (fst (entries sample_db (sconst 5)))"
  by (simp add: sample_entries strings_fit_def MAX_STRING_SIZE_def)

lemma sample_save: "\<exists>pm' clk'. save_snapshot sample_db (sconst 5) (sample_persistence []) = (Inr (), pm', clk')"
  by (rule save_snapshot_ok [OF _ _ _ sample_fits])
    (simp_all add: sample_persistence_facts smooth_def benign_def)

theorem snapshot_roundtrip_witness:
  "\<exists>contents db'. read_snapshot contents empty_database = (Inr (), db') \<and>
     live 1000 db' ''b'' = Some ''2'' \<and> live 1000 sample_db ''b'' = None"
proof -
  from sample_save obtain pm' clk' where
    s: "save_snapshot sample_db (sconst 5) (sample_persistence []) = (Inr (), pm', clk')" by blast
  have "length (fst (entries sample_db (sconst 5))) \<le> MAX_SNAPSHOT_ENTRIES"
    by (simp add: sample_entries MAX_SNAPSHOT_ENTRIES_def)
  with snapshot_roundtrip [OF sample_db_wf _ sample_persistence_facts(2) s, of 5 5]
  obtain contents db' where "read_snapshot contents empty_database = (Inr (), db')"
    "\<forall>t'. live t' db' = live 5 sample_db" by (auto dest: map_le_antisym)
  moreover have "live 5 sample_db ''b'' = Some ''2''" "live 1000 sample_db ''b'' = None"
    by (simp_all add: live_def sample_db_def expired_at_def)
  ultimately show ?thesis by metis
qed

text \<open>C15 (truncated_snapshot_rejected): a snapshot file cut short at any byte makes recovery
  throw; it is never taken for a smaller snapshot.\<close>

theorem truncated_snapshot_rejected:
  assumes "storable es" "snapshot_bytes es = s @ t" "t \<noteq> []"
  shows "\<exists>e db'. read_snapshot s db = (Inl e, db')"
  using read_snapshot_partial [OF assms] by blast

theorem truncated_snapshot_rejected_witness:
  "\<exists>e db'. read_snapshot (butlast (snapshot_bytes [\<lparr>kv_key = ''a'', kv_value = ''1''\<rparr>])) empty_database =
     (Inl e, db')"
proof -
  let ?es = "[\<lparr>kv_key = ''a'', kv_value = ''1''\<rparr>]"
  have "snapshot_bytes ?es \<noteq> []" by (simp add: snapshot_bytes_def SNAPSHOT_MAGIC_def)
  then have "snapshot_bytes ?es = butlast (snapshot_bytes ?es) @ [last (snapshot_bytes ?es)]" by simp
  moreover have "storable ?es"
    by (simp add: storable_def MAX_SNAPSHOT_ENTRIES_def MAX_STRING_SIZE_def)
  ultimately show ?thesis using truncated_snapshot_rejected by blast
qed

text \<open>C3 (save_snapshot_atomic): whatever system call fails, is interrupted or falls short, SAVE
  leaves \<open>dump.rdb\<close> either as it was or holding the complete new snapshot, the latter always
  when it returns without throwing. It may change two other files. The temporary file
  \<open>dump.rdb.tmp\<close> is gone after a success; a failed SAVE leaves it as it was, removed, or holding
  a first part of the new snapshot. The log \<open>appendonly.aof\<close> may be created, empty, when the
  manager was not initialised; its contents never change. No file but these three changes.\<close>

theorem save_snapshot_atomic:
  assumes "save_snapshot db clk pm = (r, pm', clk')" "pm_wf pm"
  shows "((files pm' (snapshot_file pm) = files pm (snapshot_file pm) \<and> r \<noteq> Inr ()) \<or>
      files pm' (snapshot_file pm) = Some (snapshot_bytes (fst (entries db clk)))) \<and>
    (r = Inr () \<longrightarrow> files pm' (temporary_snapshot_file pm) = None) \<and>
    (files pm' (temporary_snapshot_file pm) \<in> {files pm (temporary_snapshot_file pm), None} \<or>
      (\<exists>w v. files pm' (temporary_snapshot_file pm) = Some w \<and>
        snapshot_bytes (fst (entries db clk)) = w @ v)) \<and>
    (files pm' (append_only_log_file pm) = files pm (append_only_log_file pm) \<or>
      \<not> initialized pm \<and> files pm (append_only_log_file pm) = None \<and>
        files pm' (append_only_log_file pm) = Some []) \<and>
    (p \<notin> {snapshot_file pm, temporary_snapshot_file pm, append_only_log_file pm} \<longrightarrow>
      files pm' p = files pm p)"
  using save_snapshot_effect [OF assms] save_snapshot_others [OF assms]
  unfolding opened_log_def by blast

theorem save_snapshot_atomic_witness:
  "\<exists>r pm' clk'. save_snapshot sample_db (sconst 5) (sample_persistence [Sys_ok, Sys_short 3, Sys_fail ''EIO'']) =
     (r, pm', clk') \<and> (files pm' ''data/dump.rdb'' = Some ''old'' \<or>
       files pm' ''data/dump.rdb'' = Some (snapshot_bytes (fst (entries sample_db (sconst 5)))))"
proof -
  obtain r pm' clk' where
    run: "save_snapshot sample_db (sconst 5) (sample_persistence [Sys_ok, Sys_short 3, Sys_fail ''EIO'']) =
      (r, pm', clk')" by (metis prod_cases3)
  from save_snapshot_atomic [OF run sample_persistence_facts(2), of "[]"] run show ?thesis
    unfolding sample_persistence_facts by blast
qed

text \<open>C39 (save_succeeds_iff): with an initialized manager and no failing system call ahead, SAVE
  succeeds exactly when every live key and value is at most 512 KiB long. SET accepts longer
  ones, so one large value blocks every later SAVE.\<close>

theorem save_succeeds_iff:
  assumes "initialized pm" "pm_wf pm" "smooth (sched pm)"
  shows "fst (save_snapshot db clk pm) = Inr () \<longleftrightarrow>
    (\<forall>kv \<in> set (fst (entries db clk)). length (kv_key kv) \<le> MAX_STRING_SIZE \<and>
      length (kv_value kv) \<le> MAX_STRING_SIZE)"
  using save_snapshot_ok [OF assms] save_snapshot_returns [of db clk pm]
  unfolding strings_fit_def by (metis fst_conv surj_pair)

theorem save_succeeds_iff_witness:
  "fst (save_snapshot sample_db (sconst 5) (sample_persistence [])) = Inr () \<and>
   fst (save_snapshot (db_set ''k'' (replicate 524289 CHR ''x'') empty_database) (sconst 5)
     (sample_persistence [])) \<noteq> Inr ()"
proof -
  have "fst (entries (db_set ''k'' v empty_database) (sconst 5)) = [\<lparr>kv_key = ''k'', kv_value = v\<rparr>]" for v
    by (simp add: entries_def db_set_def empty_database_def is_expired_def)
  moreover have "smooth []" by (simp add: smooth_def benign_def)
  ultimately show ?thesis
    using save_succeeds_iff [of "sample_persistence []"] sample_fits
    by (simp add: sample_persistence_facts strings_fit_def)
      (simp add: MAX_STRING_SIZE_def)
qed

text \<open>A sequence of calls of \<open>append_command\<close> leaves in the log the old
  contents followed by whole commands in call order: all of them when every call returned, and
  otherwise those before the call that threw.\<close>

lemma append_commands_log:
  assumes "append_commands cs pm = (r, pm')" "initialized pm"
    and "files pm (append_only_log_file pm) = Some c" "aof_buffer pm = []"
  shows "\<exists>n \<le> length cs. (r = Inr () \<longrightarrow> n = length cs) \<and>
    files pm' = (files pm)(append_only_log_file pm \<mapsto> c @ concat (take n cs))"
  using append_commands_effect [OF assms(1) assms(4) assms(3,2)] .

text \<open>The log's own record parser accepts every request of the
  grammar whose arguments are at most 512 KiB long, with the same arguments as the server's
  parser; so whole records are readable.\<close>

lemma record_parser_accepts:
  assumes "resp_request args s" "\<forall>a \<in> set args. length a \<le> MAX_RECOVERY_RECORD_SIZE"
  shows "parse_resp_request s = Inr args"
  using parse_resp_request_grammar [OF assms] .

text \<open>C14 (log_never_applied): replaying a log never changes the database, whatever the log
  holds. The loop tries to parse a record at every CRLF, so what it parses is never more than
  a header line: a request with arguments is refused and one without arguments does nothing.\<close>

theorem log_never_applied:
  "fst (snd (recover_append_only_log db pm)) = db"
proof -
  have "db' = db" if "replay [] c db = (r, db')" for c r db'
    using replay_unchanged [of "[]" c db] that by simp
  then show ?thesis
    by (auto simp: recover_append_only_log_def split: option.split sum.split prod.split)
qed

text \<open>C13 (log_record_breaks_recovery): recovery throws on every log that begins with a well-formed
  command of at most 512 KiB, such as \<open>append_command\<close> writes, although the record is whole
  and valid, where opening and reading the log succeed.\<close>

theorem log_record_breaks_recovery:
  assumes "resp_request args s" "length s \<le> MAX_RECOVERY_RECORD_SIZE"
    and "files pm (append_only_log_file pm) = Some (s @ rest)" "smooth (sched pm)"
  shows "fst (recover_append_only_log db pm) = Inl ''Expected RESP bulk string''"
proof -
  have "benign (tl (sched pm))" using assms(4) by (simp add: smooth_def)
  then obtain pm' where "read_file (s @ rest) (pm\<lparr>sched := tl (sched pm)\<rparr>) = (s @ rest, pm')"
    using read_file_benign [of "pm\<lparr>sched := tl (sched pm)\<rparr>" "s @ rest"] by auto
  then show ?thesis
    using replay_request [OF assms(1,2)] assms(3) call_status_smooth [OF assms(4)]
    by (simp add: recover_append_only_log_def)
qed

theorem log_record_breaks_recovery_witness:
  "fst (recover_append_only_log empty_database
      (snd (append_command ping_request (sample_persistence [])))) = Inl ''Expected RESP bulk string''"
proof -
  let ?pm = "snd (append_command ping_request (sample_persistence []))"
  have "files ?pm (append_only_log_file ?pm) = Some (ping_request @ [])" "sched ?pm = []"
    by (simp_all add: append_command_def stream_write_def stream_flush_def next_ret_def Let_def
        append_file_def sample_persistence_def new_persistence_def ping_request_def)
  then show ?thesis
    using log_record_breaks_recovery [OF resp_read_ping_request [unfolded resp_read_Inr], of ?pm "[]"]
    by (simp add: MAX_RECOVERY_RECORD_SIZE_def smooth_def benign_def)
qed

text \<open>A log that ends in a record with no CRLF yet, as a crash can
  leave it, is ignored without an error, up to 512 KiB.\<close>

lemma partial_record_ignored:
  assumes "crlf_index log = None" "length log \<le> MAX_RECOVERY_RECORD_SIZE"
  shows "replay [] log db = (Inr (), db)"
  using replay_partial [of "[]"] assms by simp

end
