(* ===== verification/Command.thy ===== *)
theory Command
  imports Persistence
begin

section \<open>The command dispatcher\<close>

text \<open>
  \<open>src/command.cpp\<close> and \<open>include/command.hpp\<close>. The dispatcher holds references to the
  database and the persistence manager; the model's record holds both, with the clock
  readings to come. The second half relates it to a machine on a plain map.
\<close>

subsection \<open>The dispatcher\<close>

record dispatcher =
  dp_database :: database
  dp_persistence :: persistence
  dp_clock :: clock

definition to_upper :: "string \<Rightarrow> string" where
  "to_upper v = map to_upper_char v"

definition parse_integer :: "string \<Rightarrow> int \<Rightarrow> bool \<times> int" where
  "parse_integer v result =
     (if v = [] then (False, result)
      else case from_chars v result of
          (ec, n, result') \<Rightarrow> (ec = Errc_ok \<and> n = length v, result'))"

definition quoted :: "string \<Rightarrow> string" where
  "quoted s = [CHR 0x27] @ s @ [CHR 0x27]"

definition wrong_arguments :: "string \<Rightarrow> string" where
  "wrong_arguments name = resp_error (''ERR wrong number of arguments for '' @ quoted name)"

text \<open>The \<open>SAVE\<close> branch: \<open>flush\<close>, then \<open>save_snapshot\<close>; an exception becomes an error reply.\<close>

definition execute_save :: "dispatcher \<Rightarrow> string \<times> dispatcher" where
  "execute_save d =
     (case flush (dp_persistence d) of
        (Inl e, pm) \<Rightarrow> (resp_error (''ERR persistence failure: '' @ e), d\<lparr>dp_persistence := pm\<rparr>)
      | (Inr _, pm) \<Rightarrow>
          (case save_snapshot (dp_database d) (dp_clock d) pm of
             (Inl e, pm', clk) \<Rightarrow>
               (resp_error (''ERR persistence failure: '' @ e), d\<lparr>dp_persistence := pm', dp_clock := clk\<rparr>)
           | (Inr _, pm', clk) \<Rightarrow>
               (resp_simple_string ''OK'', d\<lparr>dp_persistence := pm', dp_clock := clk\<rparr>)))"

definition execute_command :: "string \<Rightarrow> string list \<Rightarrow> dispatcher \<Rightarrow> string \<times> dispatcher" where
  "execute_command command args d =
     (if command = ''PING'' then
        (if args = [] then (resp_simple_string ''PONG'', d)
         else if length args = 1 then (resp_bulk_string (args ! 0), d)
         else (wrong_arguments ''ping'', d))
      else if command = ''SET'' then
        (if length args \<noteq> 2 then (wrong_arguments ''set'', d)
         else (resp_simple_string ''OK'',
               d\<lparr>dp_database := db_set (args ! 0) (args ! 1) (dp_database d)\<rparr>))
      else if command = ''GET'' then
        (if length args \<noteq> 1 then (wrong_arguments ''get'', d)
         else case db_get (args ! 0) (dp_database d) (dp_clock d) of
             (v, db, clk) \<Rightarrow>
               ((case v of None \<Rightarrow> resp_null | Some x \<Rightarrow> resp_bulk_string x),
                d\<lparr>dp_database := db, dp_clock := clk\<rparr>))
      else if command = ''DEL'' then
        (if length args \<noteq> 1 then (wrong_arguments ''del'', d)
         else case db_del (args ! 0) (dp_database d) (dp_clock d) of
             (b, db, clk) \<Rightarrow> (resp_integer (if b then 1 else 0), d\<lparr>dp_database := db, dp_clock := clk\<rparr>))
      else if command = ''EXISTS'' then
        (if length args \<noteq> 1 then (wrong_arguments ''exists'', d)
         else case db_exists (args ! 0) (dp_database d) (dp_clock d) of
             (b, db, clk) \<Rightarrow> (resp_integer (if b then 1 else 0), d\<lparr>dp_database := db, dp_clock := clk\<rparr>))
      else if command = ''EXPIRE'' then
        (if length args \<noteq> 2 then (wrong_arguments ''expire'', d)
         else case parse_integer (args ! 1) 0 of
             (False, _) \<Rightarrow> (resp_error ''ERR invalid expire time'', d)
           | (True, seconds) \<Rightarrow>
               (case db_expire (args ! 0) seconds (dp_database d) (dp_clock d) of
                  (db, clk) \<Rightarrow> (resp_integer 1, d\<lparr>dp_database := db, dp_clock := clk\<rparr>)))
      else if command = ''TTL'' then
        (if length args \<noteq> 1 then (wrong_arguments ''ttl'', d)
         else case db_ttl (args ! 0) (dp_database d) (dp_clock d) of
             (t, db, clk) \<Rightarrow> (resp_integer t, d\<lparr>dp_database := db, dp_clock := clk\<rparr>))
      else if command = ''SAVE'' then
        (if args \<noteq> [] then (wrong_arguments ''save'', d)
         else execute_save d)
      else (resp_error (''ERR unknown command '' @ quoted command), d))"

definition execute :: "string \<Rightarrow> dispatcher \<Rightarrow> string \<times> dispatcher" where
  "execute request d =
     (case parse (new_parser request) of
        (False, parser) \<Rightarrow> (resp_error (''ERR '' @ get_error parser), d)
      | (True, parser) \<Rightarrow>
          (let parts = get_parts parser
           in if parts = [] then (resp_error ''ERR empty command'', d)
              else execute_command (to_upper (hd parts)) (tl parts) d))"

subsection \<open>What a request does, through the request language\<close>

lemma execute_read:
  assumes "length s \<le> max_size"
  shows "execute s d =
    (case resp_read s of
       Inl e \<Rightarrow> (resp_error (''ERR '' @ e), d)
     | Inr args \<Rightarrow> execute_command (to_upper (hd args)) (tl args) d)"
proof (cases "resp_read s")
  case (Inl e)
  with parse_reads [OF assms] show ?thesis by (auto simp: execute_def)
next
  case (Inr args)
  then have "args \<noteq> []" unfolding resp_read_Inr by (auto simp: resp_request_def)
  with Inr parse_reads [OF assms] show ?thesis by (auto simp: execute_def Let_def)
qed

lemma execute_request:
  "resp_request args s \<Longrightarrow> length s \<le> max_size \<Longrightarrow>
     execute s d = execute_command (to_upper (hd args)) (tl args) d"
  using execute_read [of s d] by (simp add: resp_read_Inr [symmetric])

lemma resp_read_error_text:
  assumes "resp_read s = Inl e"
  shows "CR \<notin> set e \<and> LF \<notin> set e"
proof -
  have bulk: "CR \<notin> set e \<and> LF \<notin> set e" if "take_bulk r = Inl e" for r
    using that by (auto simp: take_bulk_def split: option.splits prod.splits if_splits)
  have bulks: "CR \<notin> set e \<and> LF \<notin> set e" if "take_bulks n r = Inl e" for n r
    using that by (induction n arbitrary: r) (auto dest: bulk split: sum.splits prod.splits)
  from assms show ?thesis
    by (auto simp: resp_read_def take_command_def dest!: bulks
        split: option.splits prod.splits if_splits sum.splits)
qed

subsection \<open>A machine on a plain map\<close>

text \<open>
  What the commands mean when no key has an expiry time (EXPIRE and SAVE left aside): the map
  afterwards and the RESP value to be sent, as a value of the reply language.
\<close>

definition arity_failure :: "string \<Rightarrow> reply" where
  "arity_failure name =
     Failure (''ERR wrong number of arguments for '' @ [CHR 0x27] @ name @ [CHR 0x27])"

definition map_machine ::
  "string \<Rightarrow> string list \<Rightarrow> (string \<Rightarrow> string option) \<Rightarrow> reply \<times> (string \<Rightarrow> string option)" where
  "map_machine command args m =
     (if command = ''PING'' then
        (case args of [] \<Rightarrow> Status ''PONG'' | [x] \<Rightarrow> Bulk x | _ \<Rightarrow> arity_failure ''ping'', m)
      else if command = ''SET'' then
        (case args of [k, v] \<Rightarrow> (Status ''OK'', m(k \<mapsto> v)) | _ \<Rightarrow> (arity_failure ''set'', m))
      else if command = ''GET'' then
        (case args of [k] \<Rightarrow> (case m k of None \<Rightarrow> Null | Some v \<Rightarrow> Bulk v)
                    | _ \<Rightarrow> arity_failure ''get'', m)
      else if command = ''DEL'' then
        (case args of [k] \<Rightarrow> (Number (if m k = None then 0 else 1), m(k := None))
                    | _ \<Rightarrow> (arity_failure ''del'', m))
      else if command = ''EXISTS'' then
        (case args of [k] \<Rightarrow> Number (if m k = None then 0 else 1) | _ \<Rightarrow> arity_failure ''exists'', m)
      else if command = ''TTL'' then
        (case args of [k] \<Rightarrow> Number (if m k = None then -2 else -1) | _ \<Rightarrow> arity_failure ''ttl'', m)
      else (Failure (''ERR unknown command '' @ [CHR 0x27] @ command @ [CHR 0x27]), m))"

lemma wrong_arguments_render: "wrong_arguments name = render (arity_failure name)"
  by (simp add: wrong_arguments_def arity_failure_def reply_helpers quoted_def)

definition permanent :: "database \<Rightarrow> bool" where
  "permanent db \<longleftrightarrow> (\<forall>k e. map_of (store db) k = Some e \<longrightarrow> expires_at e = None)"

lemma permanent_expired: "permanent db \<Longrightarrow> map_of (store db) k = Some e \<Longrightarrow> \<not> expired_at t e"
  by (auto simp: permanent_def expired_at_def)

lemma permanent_remove: "permanent db \<Longrightarrow> remove_if_expired k db clk = (db, clk)"
  using permanent_expired by (auto simp: remove_if_expired_eq permanent_def split: option.split)

lemma permanent_empty [simp]: "permanent empty_database"
  by (simp add: permanent_def empty_database_def)

lemma permanent_restore_set [simp]: "permanent db \<Longrightarrow> permanent (restore_set k v db)"
  by (auto simp: permanent_def restore_set_def update_conv')

lemma permanent_restore_delete [simp]: "permanent db \<Longrightarrow> permanent (restore_delete k db)"
  by (auto simp: permanent_def restore_delete_def delete_conv')

lemma permanent_live: "permanent db \<Longrightarrow> live t db = live t' db"
  using permanent_expired by (auto simp: live_def fun_eq_iff split: option.split)

lemma permanent_ttl:
  "permanent db \<Longrightarrow> db_ttl k db clk = (if live t db k = None then -2 else -1, db, clk)"
  using permanent_expired [of db k] unfolding db_ttl_def permanent_remove live_def
  by (auto simp: permanent_def permanent_remove split: option.split)

lemma length_one: "length xs = Suc 0 \<longleftrightarrow> (\<exists>x. xs = [x])"
  by (cases xs) auto

lemma length_two: "length xs = 2 \<longleftrightarrow> (\<exists>x y. xs = [x, y])"
  by (cases xs; cases "tl xs") auto

lemma execute_command_map_machine:
  assumes "permanent (dp_database d)" "command \<notin> {''EXPIRE'', ''SAVE''}"
  shows "case execute_command command args d of (reply, d') \<Rightarrow>
    (reply, live t (dp_database d')) = apfst render (map_machine command args (live t (dp_database d))) \<and>
    permanent (dp_database d') \<and> dp_persistence d' = dp_persistence d"
proof -
  note rm = permanent_remove [OF assms(1)] permanent_ttl [OF assms(1), of _ _ t]
    permanent_live [OF assms(1), of "shd (dp_clock d)" t]
  consider "length args = 0" | x where "args = [x]" | x y where "args = [x, y]"
    | x y z zs where "args = x # y # z # zs"
    by (cases args; cases "tl args"; cases "tl (tl args)") auto
  then show ?thesis
    using assms(2)
    by cases (simp_all add: execute_command_def map_machine_def db_get_eq db_del_eq db_exists_eq rm
        db_set_eq live_restore_set live_restore_delete assms(1) reply_helpers wrong_arguments_render
        quoted_def split: option.split)
qed

text \<open>Requests in a row, for the dispatcher and for the machine.\<close>

fun run_requests :: "string list \<Rightarrow> dispatcher \<Rightarrow> string list \<times> dispatcher" where
  "run_requests [] d = ([], d)"
| "run_requests (s # ss) d =
     (case execute s d of (reply, d') \<Rightarrow>
        (case run_requests ss d' of (replies, d'') \<Rightarrow> (reply # replies, d'')))"

fun run_map_machine ::
  "string list list \<Rightarrow> (string \<Rightarrow> string option) \<Rightarrow> reply list \<times> (string \<Rightarrow> string option)" where
  "run_map_machine [] m = ([], m)"
| "run_map_machine (args # argss) m =
     (case map_machine (to_upper (hd args)) (tl args) m of (reply, m') \<Rightarrow>
        (case run_map_machine argss m' of (replies, m'') \<Rightarrow> (reply # replies, m'')))"

lemma run_requests_map_machine:
  assumes "list_all2 resp_request argss ss" "\<forall>s \<in> set ss. length s \<le> max_size"
    and "\<forall>args \<in> set argss. to_upper (hd args) \<notin> {''EXPIRE'', ''SAVE''}"
    and "permanent (dp_database d)"
  shows "case run_requests ss d of (replies, d') \<Rightarrow>
    (replies, live t (dp_database d')) =
      apfst (map render) (run_map_machine argss (live t (dp_database d))) \<and>
    permanent (dp_database d')"
  using assms
proof (induction argss ss arbitrary: d rule: list_all2_induct)
  case (Cons args argss s ss)
  obtain reply d' where run: "execute s d = (reply, d')" by fastforce
  then have "execute_command (to_upper (hd args)) (tl args) d = (reply, d')"
    using execute_request [OF Cons.hyps(1), of d] Cons.prems(1) by simp
  with execute_command_map_machine [OF Cons.prems(3), where command = "to_upper (hd args)" and args = "tl args" and t = t] Cons.prems(2)
  have step: "(reply, live t (dp_database d')) =
      apfst render (map_machine (to_upper (hd args)) (tl args) (live t (dp_database d)))" "permanent (dp_database d')"
    by auto
  then obtain x where x: "map_machine (to_upper (hd args)) (tl args) (live t (dp_database d)) =
      (x, live t (dp_database d'))" "reply = render x"
    by (cases "map_machine (to_upper (hd args)) (tl args) (live t (dp_database d))") auto
  from Cons.IH [OF _ _ step(2)] Cons.prems(1,2) show ?case
    by (auto simp: run x apfst_def split: prod.splits)
qed simp

lemma hd_replies [simp]:
  "hd (resp_simple_string s) = CHR ''+''" "hd (resp_error s) = CHR ''-''"
  "hd (resp_integer i) = CHR '':''" "hd (resp_bulk_string s) = CHR ''$''" "hd resp_null = CHR ''$''"
  "hd (wrong_arguments s) = CHR ''-''"
  by (simp_all add: resp_simple_string_def resp_error_def resp_integer_def resp_bulk_string_def
      resp_null_def wrong_arguments_def)

lemma command_cases:
  obtains "command = ''PING''" | "command = ''SET''" | "command = ''GET''" | "command = ''DEL''"
    | "command = ''EXISTS''" | "command = ''EXPIRE''" | "command = ''TTL''" | "command = ''SAVE''"
    | (other) "command \<notin> {''PING'', ''SET'', ''GET'', ''DEL'', ''EXISTS'', ''EXPIRE'', ''TTL'', ''SAVE''}"
proof (cases "command \<in> {''PING'', ''SET'', ''GET'', ''DEL'', ''EXISTS'', ''EXPIRE'', ''TTL'', ''SAVE''}")
  case True
  with that(1-8) show thesis by (elim insertE emptyE)
qed (rule that(9))

lemma execute_save_frame: "dp_database (snd (execute_save d)) = dp_database d"
  by (auto simp: execute_save_def split: sum.splits prod.splits)

lemma execute_command_error:
  "hd (fst (execute_command command args d)) = CHR ''-'' \<Longrightarrow>
     dp_database (snd (execute_command command args d)) = dp_database d \<and>
     (command \<noteq> ''SAVE'' \<longrightarrow> snd (execute_command command args d) = d)"
  using execute_save_frame [of d]
  by (cases command rule: command_cases)
    (simp_all add: execute_command_def split: prod.splits if_splits option.splits bool.splits)

text \<open>
  One RESP value as the bytes of a client's stream: one line, or one bulk string with its
  length and its value in full, or the null bulk string.
\<close>

definition reply_value :: "string \<Rightarrow> bool" where
  "reply_value r \<longleftrightarrow>
     (\<exists>c l. r = c # l @ CRLF \<and> c \<in> {CHR ''+'', CHR ''-'', CHR '':''} \<and> line_safe l) \<or>
     (\<exists>v. r = ''$'' @ show_nat (length v) @ CRLF @ v @ CRLF) \<or> r = ''$-1'' @ CRLF"

lemma reply_value_render: "line_reply x \<Longrightarrow> reply_value (render x)"
  by (cases x) (auto simp: line_reply_def reply_value_def)

text \<open>The bytes of one value of the reply language, whose text is one line.\<close>

definition rendered :: "string \<Rightarrow> bool" where
  "rendered r \<longleftrightarrow> (\<exists>x. line_reply x \<and> r = render x)"

lemma renderedI: "line_reply x \<Longrightarrow> rendered (render x)"
  by (auto simp: rendered_def)

lemma rendered_lines:
  "line_safe s \<Longrightarrow> rendered (resp_simple_string s)" "line_safe s \<Longrightarrow> rendered (resp_error s)"
  "rendered (resp_bulk_string s)" "rendered resp_null" "rendered (resp_integer i)"
  unfolding reply_helpers by (rule renderedI; simp add: line_reply_def)+

lemma rendered_wrong_arguments: "line_safe s \<Longrightarrow> rendered (wrong_arguments s)"
  unfolding wrong_arguments_def by (rule rendered_lines) (simp add: line_safe_def quoted_def)

lemma rendered_value: "rendered r \<Longrightarrow> reply_value r"
  by (auto simp: rendered_def reply_value_render)

lemma execute_command_rendered:
  assumes "command \<noteq> ''SAVE''" "line_safe command"
  shows "rendered (fst (execute_command command args d))"
proof (cases command rule: command_cases)
  case other
  have "line_safe (''ERR unknown command '' @ quoted command)"
    using assms(2) by (simp add: line_safe_def quoted_def)
  with other show ?thesis by (simp add: execute_command_def rendered_lines)
qed (use assms(1) in \<open>simp_all add: execute_command_def rendered_lines rendered_wrong_arguments
    line_safe_def split: prod.splits option.splits bool.splits\<close>)

lemma to_upper_safe: "line_safe (to_upper s) \<longleftrightarrow> line_safe s"
proof -
  have eq: "to_upper_char c = x \<longleftrightarrow> c = x" if "(of_char x :: nat) < 65" for c x
  proof (cases "97 \<le> (of_char c :: nat) \<and> (of_char c :: nat) \<le> 122")
    case True
    then have "(of_char (to_upper_char c) :: nat) \<noteq> of_char x" "(of_char c :: nat) \<noteq> of_char x"
      using that by (auto simp: to_upper_char_def Let_def)
    then show ?thesis by metis
  qed (auto simp: to_upper_char_def Let_def)
  have "CR = to_upper_char c \<longleftrightarrow> CR = c" "LF = to_upper_char c \<longleftrightarrow> LF = c" for c
    using eq [of CR c] eq [of LF c] by auto
  then show ?thesis by (simp add: line_safe_def to_upper_def image_iff)
qed

lemma execute_rendered:
  assumes "length s \<le> max_size"
    and "\<And>args. resp_request args s \<Longrightarrow> line_safe (hd args) \<and> to_upper (hd args) \<noteq> ''SAVE''"
  shows "rendered (fst (execute s d))"
proof (cases "resp_read s")
  case (Inl e)
  then have "line_safe (''ERR '' @ e)" using resp_read_error_text [OF Inl] by (simp add: line_safe_def)
  with Inl show ?thesis by (simp add: execute_read [OF assms(1)] rendered_lines)
next
  case (Inr args)
  with assms(2) [of args] have "line_safe (hd args)" "to_upper (hd args) \<noteq> ''SAVE''"
    by (simp_all add: resp_read_Inr)
  with Inr show ?thesis
    by (simp add: execute_read [OF assms(1)] execute_command_rendered to_upper_safe)
qed

subsection \<open>Properties\<close>

definition sample_dispatcher :: dispatcher where
  "sample_dispatcher = \<lparr>dp_database = empty_database, dp_persistence = sample_persistence [],
     dp_clock = sconst 5\<rparr>"

lemma sample_dispatcher_facts [simp]:
  "dp_database sample_dispatcher = empty_database" "dp_clock sample_dispatcher = sconst 5"
  "dp_persistence sample_dispatcher = sample_persistence []"
  by (simp_all add: sample_dispatcher_def)

text \<open>C6 (dispatch_refines_map): on a database without expiry times, any sequence of well-formed
  requests other than EXPIRE and SAVE is answered exactly with the bytes of the values that a
  machine on a plain map gives, with command names in any letter case, whatever the clock
  reads; so the replies do not depend on time, and the live keys at the end are the machine's
  map.\<close>

theorem dispatch_refines_map:
  assumes "list_all2 resp_request argss ss" "\<forall>s \<in> set ss. length s \<le> max_size"
    and "\<forall>args \<in> set argss. to_upper (hd args) \<notin> {''EXPIRE'', ''SAVE''}"
    and "permanent (dp_database d)"
  shows "case run_requests ss d of (replies, d') \<Rightarrow>
    (replies, live t (dp_database d')) =
      apfst (map render) (run_map_machine argss (live t (dp_database d)))"
  using run_requests_map_machine [OF assms, of t] by (auto split: prod.splits)

text \<open>A small request in the language and below the size limit, for the witnesses.\<close>

lemma small_request:
  assumes "resp_read s = Inr args" "length s \<le> 100"
  shows "resp_request args s" "length s \<le> max_size"
  using assms by (simp_all add: resp_read_Inr max_size_def)

lemma show_nat_one: "show_nat (Suc 0) = ''1''"
  by code_simp

lemma sample_requests:
  "resp_read (encode_resp [''sEt'', ''k'', ''v'']) = Inr [''sEt'', ''k'', ''v'']"
  "resp_read (encode_resp [''get'', ''k'']) = Inr [''get'', ''k'']"
  "length (encode_resp [''sEt'', ''k'', ''v'']) \<le> 100" "length (encode_resp [''get'', ''k'']) \<le> 100"
  by (code_simp, code_simp, simp_all add: encode_resp_def encode_bulk_def show_nat.simps)

theorem dispatch_refines_map_witness:
  "fst (run_requests [encode_resp [''sEt'', ''k'', ''v''], encode_resp [''get'', ''k'']] sample_dispatcher) =
     [''+OK'' @ CRLF, ''$1'' @ CRLF @ ''v'' @ CRLF]"
proof -
  have u: "to_upper ''sEt'' = ''SET''" "to_upper ''get'' = ''GET''" by code_simp+
  obtain replies d' where run: "run_requests [encode_resp [''sEt'', ''k'', ''v''],
      encode_resp [''get'', ''k'']] sample_dispatcher = (replies, d')" by fastforce
  have "list_all2 resp_request [[''sEt'', ''k'', ''v''], [''get'', ''k'']]
      [encode_resp [''sEt'', ''k'', ''v''], encode_resp [''get'', ''k'']]"
    using small_request(1) [OF sample_requests(1,3)] small_request(1) [OF sample_requests(2,4)] by simp
  from dispatch_refines_map [OF this, of sample_dispatcher 0] run
    small_request(2) [OF sample_requests(1,3)] small_request(2) [OF sample_requests(2,4)]
  show ?thesis
    by (simp add: u map_machine_def show_nat_one del: run_requests.simps)
qed

text \<open>C23 (error_changes_nothing): a request that is answered with an error, for its syntax, its
  arguments or its name, changes neither the database nor the clock nor the files; a failing
  SAVE, too, leaves the database as it was.\<close>

theorem error_changes_nothing:
  assumes "execute s d = (reply, d')" "hd reply = CHR ''-''" "length s \<le> max_size"
  shows "dp_database d' = dp_database d \<and>
    (d' = d \<or> (\<exists>args. resp_request args s \<and> to_upper (hd args) = ''SAVE''))"
proof (cases "resp_read s")
  case (Inl e)
  with assms show ?thesis by (simp add: execute_read)
next
  case (Inr args)
  then have "execute_command (to_upper (hd args)) (tl args) d = (reply, d')"
    using assms by (simp add: execute_read)
  with execute_command_error [of "to_upper (hd args)" "tl args" d] assms(2) Inr show ?thesis
    by (auto simp: resp_read_Inr)
qed

theorem error_changes_nothing_witness:
  "execute ''*1'' sample_dispatcher = (resp_error ''ERR Incomplete RESP line'', sample_dispatcher)"
proof -
  have "resp_read ''*1'' = Inl ''Incomplete RESP line''" by code_simp
  moreover have "length ''*1'' \<le> max_size" by (simp add: max_size_def)
  ultimately have "execute ''*1'' sample_dispatcher =
      (resp_error ''ERR Incomplete RESP line'', sample_dispatcher)"
    using execute_read [of "''*1''"] by simp
  with error_changes_nothing [OF this] show ?thesis by blast
qed

text \<open>C24 (reply_is_one_value): the reply to any request is exactly one RESP value, a line without
  CR or LF inside or one bulk string with its exact length: a reader of the protocol takes the
  value off a stream that starts with the reply and stops at the reply's end, whatever
  follows. It holds provided that the command name, which error replies repeat, has no CR or
  LF and is not SAVE, whose error text comes from the operating system.\<close>

theorem reply_is_one_value:
  assumes "length s \<le> max_size"
    and "\<And>args. resp_request args s \<Longrightarrow> CR \<notin> set (hd args) \<and> LF \<notin> set (hd args) \<and> to_upper (hd args) \<noteq> ''SAVE''"
  shows "reply_value (fst (execute s d)) \<and>
    (\<exists>x. fst (execute s d) = render x \<and> (\<forall>rest. read_reply (fst (execute s d) @ rest) = Some (x, rest)))"
proof -
  have "rendered (fst (execute s d))"
    by (rule execute_rendered [OF assms(1)]) (simp add: line_safe_def assms(2))
  then show ?thesis
    by (auto simp: rendered_def reply_value_render read_render)
qed

theorem reply_is_one_value_witness:
  "\<exists>x. fst (execute ping_request sample_dispatcher) = render x \<and>
     read_reply (fst (execute ping_request sample_dispatcher) @ ''+O'') = Some (x, ''+O'')"
proof -
  have "CR \<notin> set (hd args) \<and> LF \<notin> set (hd args) \<and> to_upper (hd args) \<noteq> ''SAVE''"
    if "resp_request args ping_request" for args
  proof -
    from that resp_read_ping_request have "args = [''PING'']" by (simp add: resp_read_Inr [symmetric])
    then show ?thesis by (simp add: to_upper_def to_upper_char_def)
  qed
  with reply_is_one_value [of ping_request sample_dispatcher] show ?thesis
    by (auto simp: max_size_def)
qed

text \<open>C25 (unknown_command_injects): an unknown command name is repeated in the reply unescaped.
  With a CRLF in the name the reply is two lines, and the second is any text the sender
  chooses, upper-cased.\<close>

theorem unknown_command_injects:
  assumes "resp_request [x @ CRLF @ y] s" "length s \<le> max_size"
  shows "fst (execute s d) =
      (''-ERR unknown command '' @ [CHR 0x27] @ to_upper x @ CRLF) @ (to_upper y @ [CHR 0x27] @ CRLF)"
proof -
  have up: "to_upper (x @ CRLF @ y) = to_upper x @ CRLF @ to_upper y"
    by (simp add: to_upper_def to_upper_char_def)
  have "execute_command (to_upper x @ CRLF @ to_upper y) [] d =
      (resp_error (''ERR unknown command '' @ quoted (to_upper x @ CRLF @ to_upper y)), d)"
  proof -
    obtain name where name: "name = to_upper x @ CRLF @ to_upper y" by simp
    then have "CR \<in> set name" by simp
    then have "name \<notin> {''PING'', ''SET'', ''GET'', ''DEL'', ''EXISTS'', ''EXPIRE'', ''TTL'', ''SAVE''}"
      by auto
    then show ?thesis unfolding name [symmetric] by (simp add: execute_command_def)
  qed
  then show ?thesis
    using execute_request [OF assms(1,2), of d] by (simp add: up [simplified] resp_error_def quoted_def)
qed

theorem unknown_command_injects_witness:
  "fst (execute (encode_resp [''a'' @ CRLF @ ''+ok'']) sample_dispatcher) =
     (''-ERR unknown command '' @ [CHR 0x27] @ to_upper ''a'') @ CRLF @ ''+OK'' @ [CHR 0x27] @ CRLF"
proof -
  have "resp_read (encode_resp [''a'' @ CRLF @ ''+ok'']) = Inr [''a'' @ CRLF @ ''+ok'']"
    by code_simp
  moreover have "length (encode_resp [''a'' @ CRLF @ ''+ok'']) \<le> 100"
    by (simp add: encode_resp_def encode_bulk_def show_nat.simps)
  ultimately have "fst (execute (encode_resp [''a'' @ CRLF @ ''+ok'']) sample_dispatcher) =
      (''-ERR unknown command '' @ [CHR 0x27] @ to_upper ''a'' @ CRLF) @ (to_upper ''+ok'' @ [CHR 0x27] @ CRLF)"
    by (intro unknown_command_injects small_request)
  moreover have "to_upper ''+ok'' = ''+OK''" by code_simp
  ultimately show ?thesis by simp
qed

text \<open>C16 (set_get_wire): a SET and a GET of the same key, as the client encodes them and with
  the command names in any case, are answered with these bytes: \<open>+OK\<close>, and the bulk string
  of the value, its length in decimal and the value byte for byte, whatever the key and the
  value contain. A reader of the protocol gets the value back from them.\<close>

theorem set_get_wire:
  assumes "to_upper set_name = ''SET''" "to_upper get_name = ''GET''" "db_wf (dp_database d)"
    and "length (encode_resp [set_name, k, v]) \<le> max_size" "length (encode_resp [get_name, k]) \<le> max_size"
  shows "fst (run_requests [encode_resp [set_name, k, v], encode_resp [get_name, k]] d) =
      [''+OK'' @ CRLF, ''$'' @ show_nat (length v) @ CRLF @ v @ CRLF] \<and>
    read_reply (fst (run_requests [encode_resp [set_name, k, v], encode_resp [get_name, k]] d) ! 1) =
      Some (Bulk v, [])"
proof -
  have req: "resp_request args (encode_resp args)"
    if "args \<noteq> []" "length args \<le> 3" "length (encode_resp args) \<le> max_size" for args
  proof (rule encode_resp_request)
    show "\<forall>a \<in> set args. length a < 2 ^ 63"
      using encode_resp_arg_length [of _ args] that(3) by (fastforce simp: max_size_def)
  qed (use that in auto)
  let ?d = "d\<lparr>dp_database := db_set k v (dp_database d)\<rparr>"
  have 1: "execute (encode_resp [set_name, k, v]) d = (resp_simple_string ''OK'', ?d)"
    using execute_request [OF req assms(4), of d] assms(1,4) by (simp add: execute_command_def)
  have "fst (db_get k (db_set k v (dp_database d)) (dp_clock d)) = Some v"
    by (rule dbs.get_after_set [OF assms(3)])
  then have 2: "fst (execute (encode_resp [get_name, k]) ?d) = resp_bulk_string v"
    using execute_request [OF req assms(5), of ?d] assms(2,5)
    by (auto simp: execute_command_def split: prod.splits)
  from 1 2 have "fst (run_requests [encode_resp [set_name, k, v], encode_resp [get_name, k]] d) =
      [render (Status ''OK''), render (Bulk v)]"
    by (auto simp: reply_helpers split: prod.splits)
  then show ?thesis
    using read_render [of "Bulk v" "[]"] by (simp add: line_reply_def)
qed

theorem set_get_wire_witness:
  "fst (run_requests [encode_resp [''sEt'', ''k'', ''v''], encode_resp [''get'', ''k'']] sample_dispatcher) ! 1 =
     ''$1'' @ CRLF @ ''v'' @ CRLF"
proof -
  have "to_upper ''sEt'' = ''SET''" "to_upper ''get'' = ''GET''" by code_simp+
  from set_get_wire [OF this, of sample_dispatcher "''k''" "''v''"]
    small_request(2) [OF sample_requests(1,3)] small_request(2) [OF sample_requests(2,4)]
  show ?thesis by (simp add: show_nat_one)
qed

end
