(* ===== verification/Framing.thy ===== *)
theory Framing
  imports Resp
begin

section \<open>Cutting the input buffer into requests\<close>

text \<open>
  \<open>extract_requests\<close> of \<open>src/server.cpp\<close> with its helpers \<open>has_crlf\<close> and \<open>parse_decimal\<close>.
  Positions and lengths are \<open>std::size_t\<close>, so sums and \<open>number * 10\<close> wrap at 64 bits.
  \<open>None\<close> stands for undefined behaviour: a read of \<open>value[position]\<close> outside the string.
  The interface \<open>framing\<close> is what the server needs of this component: whole requests come
  out in order, an unfinished one stays in the buffer; it follows that the way the network
  cuts the stream into chunks does not matter.
\<close>

subsection \<open>The helpers\<close>

definition has_crlf :: "string \<Rightarrow> nat \<Rightarrow> bool option" where
  "has_crlf v position =
     (if \<not> size_wrap (position + 1) < length v then Some False
      else if length v \<le> position then None
      else Some (v ! position = CR \<and> v ! size_wrap (position + 1) = LF))"

text \<open>The loop of \<open>parse_decimal\<close> over the characters left, with \<open>number\<close>.\<close>

fun parse_digits :: "string \<Rightarrow> nat \<Rightarrow> nat option" where
  "parse_digits [] number = Some number"
| "parse_digits (c # cs) number =
     (if \<not> is_digit c then None else parse_digits cs (size_wrap (number * 10 + digit_value c)))"

definition parse_decimal :: "string \<Rightarrow> nat \<Rightarrow> nat \<Rightarrow> nat option" where
  "parse_decimal v start stop =
     (if stop \<le> start then None else parse_digits (substr v start (stop - start)) 0)"

subsection \<open>The loops\<close>

text \<open>
  The argument loop, with the arguments left and the position. It ends with the position
  after the request, or needs more input, or gives an error reply and the buffer that is
  left, or reads outside the buffer.
\<close>

datatype scan = Complete nat | Incomplete | Malformed string string | Outside

fun scan_arguments :: "nat \<Rightarrow> string \<Rightarrow> nat \<Rightarrow> scan" where
  "scan_arguments 0 buffer position = Complete position"
| "scan_arguments (Suc n) buffer position =
     (if length buffer \<le> position then Incomplete
      else if buffer ! position \<noteq> CHR ''$''
      then Malformed (''-ERR invalid RESP bulk string'' @ CRLF)
             (case find_crlf buffer position of None \<Rightarrow> [] | Some line_end \<Rightarrow> drop (line_end + 2) buffer)
      else case find_crlf buffer position of
          None \<Rightarrow> Incomplete
        | Some length_line_end \<Rightarrow>
            (case parse_decimal buffer (position + 1) length_line_end of
               None \<Rightarrow> Malformed (''-ERR invalid bulk length'' @ CRLF) (drop (length_line_end + 2) buffer)
             | Some bulk_length \<Rightarrow>
                 (let position = length_line_end + 2
                  in if length buffer < size_wrap (position + bulk_length + 2) then Incomplete
                     else case has_crlf buffer (size_wrap (position + bulk_length)) of
                         None \<Rightarrow> Outside
                       | Some False \<Rightarrow>
                           Malformed (''-ERR invalid bulk terminator'' @ CRLF)
                             (drop (size_wrap (position + bulk_length)) buffer)
                       | Some True \<Rightarrow>
                           scan_arguments n buffer (size_wrap (position + (bulk_length + 2))))))"

lemma has_crlf_TrueD:
  "has_crlf v i = Some True \<Longrightarrow> length v \<le> max_size \<Longrightarrow> i + 2 \<le> length v"
  by (auto simp: has_crlf_def max_size_def size_wrap_def split: if_splits)

lemma scan_arguments_Complete:
  assumes "scan_arguments n buffer position = Complete q" "length buffer \<le> max_size" "2 \<le> position"
  shows "2 \<le> q"
  using assms
proof (induction n buffer position rule: scan_arguments.induct)
  case (2 n buffer position)
  from "2.prems"(1) obtain e bulk_length where c: "\<not> length buffer \<le> position"
    "\<not> buffer ! position \<noteq> CHR ''$''" "find_crlf buffer position = Some e"
    "parse_decimal buffer (position + 1) e = Some bulk_length"
    "\<not> length buffer < size_wrap (e + 2 + bulk_length + 2)"
    "has_crlf buffer (size_wrap (e + 2 + bulk_length)) = Some True"
    "scan_arguments n buffer (size_wrap (e + 2 + (bulk_length + 2))) = Complete q"
    by (auto simp: Let_def split: if_splits option.splits bool.splits)
  from has_crlf_TrueD [OF c(6) "2.prems"(2)]
  have i: "size_wrap (e + 2 + bulk_length) + 2 \<le> length buffer" .
  then have "size_wrap (size_wrap (e + 2 + bulk_length) + 2) = size_wrap (e + 2 + bulk_length) + 2"
    using "2.prems"(2) by (intro size_wrap_id) (simp add: max_size_def)
  then have "size_wrap (e + 2 + (bulk_length + 2)) = size_wrap (e + 2 + bulk_length) + 2"
    by (simp add: size_wrap_def mod_simps add.assoc)
  with "2.IH" [OF c(1-4) refl c(5,6)] c(7) "2.prems"(2) show ?case by simp
qed simp

text \<open>
  The outer loop, with the requests collected so far. A string longer than \<open>max_size\<close> does
  not exist in the program; the first test keeps the function total on them.
\<close>

function (sequential) extract_loop :: "string \<Rightarrow> string list \<Rightarrow> (string list \<times> string) option" where
  "extract_loop buffer requests =
     (if max_size < length buffer then None
      else if buffer = [] then Some (requests, buffer)
      else if buffer ! 0 \<noteq> CHR ''*''
      then (case find_crlf buffer 0 of
              None \<Rightarrow> Some (requests, buffer)
            | Some line_end \<Rightarrow>
                extract_loop (drop (line_end + 2) buffer) (requests @ [substr buffer 0 (line_end + 2)]))
      else (case find_crlf buffer 0 of
              None \<Rightarrow> Some (requests, buffer)
            | Some first_line_end \<Rightarrow>
                (case parse_decimal buffer 1 first_line_end of
                   None \<Rightarrow>
                     extract_loop (drop (first_line_end + 2) buffer)
                       (requests @ [''-ERR invalid RESP array'' @ CRLF])
                 | Some argument_count \<Rightarrow>
                     (case scan_arguments argument_count buffer (first_line_end + 2) of
                        Complete position \<Rightarrow>
                          extract_loop (drop position buffer) (requests @ [substr buffer 0 position])
                      | Incomplete \<Rightarrow> Some (requests, buffer)
                      | Malformed reply buffer' \<Rightarrow> Some (requests @ [reply], buffer')
                      | Outside \<Rightarrow> None))))"
  by pat_completeness auto
termination
proof (relation "measure (\<lambda>(buffer, requests). length buffer)", goal_cases)
  case (4 buffer requests e n p)
  then have "2 \<le> p" by (intro scan_arguments_Complete [of n buffer "e + 2" p]) simp_all
  with 4 show ?case by simp
qed simp_all

declare extract_loop.simps [simp del]

definition extract_requests :: "string \<Rightarrow> (string list \<times> string) option" where
  "extract_requests buffer = extract_loop buffer []"

subsection \<open>Well-formed requests\<close>

text \<open>
  A frame is a request as the client writes it, with any number of arguments: a count and
  lengths in decimal digits, each argument with its CRLF. It is a \<open>std::string\<close>.
\<close>

definition dec_header :: "string \<Rightarrow> nat \<Rightarrow> bool" where
  "dec_header h n \<longleftrightarrow> h \<noteq> [] \<and> list_all is_digit h \<and> dec_value h = n"

inductive frame_bulks :: "nat \<Rightarrow> string \<Rightarrow> bool" where
  frame_bulks_0: "frame_bulks 0 []"
| frame_bulks_Suc: "dec_header h (length v) \<Longrightarrow> frame_bulks n s \<Longrightarrow>
     frame_bulks (Suc n) ((CHR ''$'' # h @ CRLF) @ (v @ CRLF) @ s)"

definition frame :: "string \<Rightarrow> bool" where
  "frame f \<longleftrightarrow> length f \<le> max_size \<and>
     (\<exists>h n s. f = (CHR ''*'' # h @ CRLF) @ s \<and> dec_header h n \<and> n < 2 ^ 64 \<and> frame_bulks n s)"

lemma dec_header_no_CR: "dec_header h n \<Longrightarrow> CR \<notin> set h"
  by (auto simp: dec_header_def list_all_iff)

lemma parse_digits_value:
  "list_all is_digit s \<Longrightarrow>
     parse_digits s (size_wrap n) = Some (size_wrap (foldl (\<lambda>a c. 10 * a + digit_value c) n s))"
proof (induction s arbitrary: n)
  case (Cons c s)
  have "size_wrap (size_wrap n * 10 + digit_value c) = size_wrap (n * 10 + digit_value c)"
    unfolding size_wrap_def by (metis mod_add_left_eq mod_mult_left_eq)
  then have "size_wrap (size_wrap n * 10 + digit_value c) = size_wrap (10 * n + digit_value c)"
    by (simp only: mult.commute)
  with Cons show ?case by simp
qed simp

lemma parse_digits_dec:
  "dec_header h n \<Longrightarrow> n < 2 ^ 64 \<Longrightarrow> parse_digits h 0 = Some n"
  using parse_digits_value [of h 0] by (simp add: dec_header_def dec_value_def size_wrap_def)

lemma parse_decimal_at:
  assumes "dec_header h n" "n < 2 ^ 64"
  shows "parse_decimal (pre @ (c # h) @ r) (length pre + 1) (length pre + length (c # h)) = Some n"
proof -
  have "substr (pre @ (c # h) @ r) (length pre + 1) (length h) = h"
    using substr_at [of "pre @ [c]" h r] by simp
  moreover have "h \<noteq> []" using assms(1) by (simp add: dec_header_def)
  ultimately show ?thesis by (simp add: parse_decimal_def parse_digits_dec [OF assms])
qed

lemma scan_arguments_step:
  assumes "dec_header h (length v)" "length v \<le> max_size"
    and "length (pre @ (CHR ''$'' # h @ CRLF) @ (v @ CRLF) @ z) \<le> max_size"
  shows "scan_arguments (Suc n) (pre @ (CHR ''$'' # h @ CRLF) @ (v @ CRLF) @ z) (length pre) =
    scan_arguments n (pre @ (CHR ''$'' # h @ CRLF) @ (v @ CRLF) @ z)
      (length (pre @ (CHR ''$'' # h @ CRLF) @ (v @ CRLF)))"
proof -
  let ?b = "pre @ (CHR ''$'' # h @ CRLF) @ (v @ CRLF) @ z"
  let ?e = "length pre + length (CHR ''$'' # h)"
  have b: "?b = pre @ (CHR ''$'' # h) @ CRLF @ v @ CRLF @ z" by simp
  have f: "find_crlf ?b (length pre) = Some ?e"
    unfolding b using dec_header_no_CR [OF assms(1)] by (intro find_crlf_at) simp
  have p: "parse_decimal ?b (length pre + 1) ?e = Some (length v)"
    unfolding b using assms(1,2) by (intro parse_decimal_at) (simp_all add: max_size_def)
  have len: "?e + 2 + length v + 2 \<le> length ?b" by simp
  then have w: "size_wrap (?e + 2 + length v + 2) = ?e + 2 + length v + 2"
    "size_wrap (?e + 2 + length v) = ?e + 2 + length v"
    "size_wrap (?e + 2 + (length v + 2)) = ?e + 2 + (length v + 2)"
    "size_wrap (?e + 2 + length v + 1) = ?e + 2 + length v + 1"
    using assms(3) by (intro size_wrap_small; linarith)+
  have c: "?b ! (?e + 2 + length v) = CR" "?b ! (?e + 2 + length v + 1) = LF"
  proof -
    define q where "q = pre @ (CHR ''$'' # h) @ CRLF @ v"
    have b': "?b = q @ CR # LF # z" and i: "?e + 2 + length v = length q" by (simp_all add: q_def)
    show "?b ! (?e + 2 + length v) = CR" "?b ! (?e + 2 + length v + 1) = LF"
      unfolding b' i by (simp_all add: nth_append)
  qed
  have h: "has_crlf ?b (?e + 2 + length v) = Some True"
    using len c by (simp only: has_crlf_def w) simp
  have d: "?b ! length pre = CHR ''$''" by simp
  show ?thesis
    unfolding scan_arguments.simps f p option.case Let_def w h d bool.case
    using len by (simp add: add.assoc eval_nat_numeral)
qed

lemma scan_arguments_frames:
  assumes "frame_bulks n s" "length (pre @ s @ z) \<le> max_size"
  shows "scan_arguments n (pre @ s @ z) (length pre) = Complete (length pre + length s)"
  using assms
proof (induction arbitrary: pre rule: frame_bulks.induct)
  case (frame_bulks_Suc h v n s)
  let ?x = "(CHR ''$'' # h @ CRLF) @ (v @ CRLF)"
  have b: "pre @ ((CHR ''$'' # h @ CRLF) @ (v @ CRLF) @ s) @ z =
      pre @ (CHR ''$'' # h @ CRLF) @ (v @ CRLF) @ (s @ z)" by simp
  have len: "length v \<le> max_size" using frame_bulks_Suc.prems by simp
  have "scan_arguments (Suc n) (pre @ ((CHR ''$'' # h @ CRLF) @ (v @ CRLF) @ s) @ z) (length pre) =
      scan_arguments n ((pre @ ?x) @ s @ z) (length (pre @ ?x))"
    using scan_arguments_step [OF frame_bulks_Suc.hyps(1) len, of pre "s @ z" n]
      frame_bulks_Suc.prems unfolding b by (simp del: scan_arguments.simps)
  also have "\<dots> = Complete (length (pre @ ?x) + length s)"
    using frame_bulks_Suc.prems by (intro frame_bulks_Suc.IH) simp
  finally show ?case by simp
qed simp

text \<open>A request cut short is incomplete, wherever the cut falls.\<close>

lemma scan_arguments_partial:
  assumes "frame_bulks n s" "s = u @ w" "w \<noteq> []" "length (pre @ u) \<le> max_size" "length s \<le> max_size"
  shows "scan_arguments n (pre @ u) (length pre) = Incomplete"
  using assms
proof (induction arbitrary: pre u rule: frame_bulks.induct)
  case (frame_bulks_Suc h v n s)
  let ?hd = "CHR ''$'' # h @ CRLF"
  note hyps = frame_bulks_Suc.hyps and prems = frame_bulks_Suc.prems
  show ?case
  proof (cases "u = []")
    case False
    with prems(1) have u0: "u = CHR ''$'' # tl u" by (cases u) auto
    then have dollar: "(pre @ u) ! length pre = CHR ''$''" by (metis nth_append_length)
    have ne: "\<not> length (pre @ u) \<le> length pre" using False by simp
    from prems(1) show ?thesis
    proof (cases rule: cut_append)
      case (inside x)
      have "crlf_index u = None"
        by (rule crlf_index_partial_line [of "CHR ''$'' # h" u x])
          (use inside dec_header_no_CR [OF hyps(1)] in simp_all)
      then have "find_crlf (pre @ u) (length pre) = None" by (simp add: find_crlf_def)
      with ne dollar show ?thesis by simp
    next
      case (after u1)
      let ?e = "length pre + length (CHR ''$'' # h)"
      have b: "pre @ u = pre @ (CHR ''$'' # h) @ CRLF @ u1" using after(1) by simp
      have f: "find_crlf (pre @ u) (length pre) = Some ?e"
        unfolding b using dec_header_no_CR [OF hyps(1)] by (intro find_crlf_at) simp
      have vlen: "length v \<le> max_size" using prems(4) by simp
      have p: "parse_decimal (pre @ u) (length pre + 1) ?e = Some (length v)"
        unfolding b using hyps(1) vlen by (intro parse_decimal_at) (simp_all add: max_size_def)
      from after(2) show ?thesis
      proof (cases rule: cut_append)
        case (inside x)
        have "length (v @ CRLF) = length u1 + length x" by (simp only: inside(1) length_append)
        moreover have "0 < length x" using inside(2) by simp
        moreover have "length (v @ CRLF) = length v + 2" by simp
        ultimately have "length u1 < length v + 2" by linarith
        moreover have "length (pre @ u) = ?e + 2 + length u1" using b by simp
        ultimately have "length (pre @ u) < ?e + 2 + length v + 2" by linarith
        moreover have "size_wrap (?e + 2 + length v + 2) = ?e + 2 + length v + 2"
        proof (rule size_wrap_id)
          have "?e + 2 \<le> max_size" using prems(3) b by simp
          moreover have "max_size + max_size + 2 < 2 ^ 64" by (simp add: max_size_def)
          ultimately show "?e + 2 + length v + 2 < 2 ^ 64" using vlen by linarith
        qed
        ultimately have "length (pre @ u) < size_wrap (?e + 2 + length v + 2)" by simp
        then show ?thesis
          unfolding scan_arguments.simps f p option.case Let_def dollar
          using ne by simp
      next
        case (after u2)
        let ?x = "?hd @ (v @ CRLF)"
        have pu: "pre @ u = pre @ ?hd @ (v @ CRLF) @ u2"
          using \<open>u = ?hd @ u1\<close> after(1) by simp
        have "scan_arguments (Suc n) (pre @ u) (length pre) =
            scan_arguments n ((pre @ ?x) @ u2) (length (pre @ ?x))"
          using scan_arguments_step [OF hyps(1) vlen, of pre u2 n] prems(3) unfolding pu
          by (simp del: scan_arguments.simps)
        also have "\<dots> = Incomplete"
          by (rule frame_bulks_Suc.IH [OF after(2) prems(2)]) (use prems(3,4) pu in simp_all)
        finally show ?thesis .
      qed
    qed
  qed simp
qed simp

subsection \<open>The outer loop on frames\<close>

lemma extract_loop_acc:
  "extract_loop b acc = map_option (\<lambda>(rs, r). (acc @ rs, r)) (extract_loop b [])"
proof (induction "length b" arbitrary: b acc rule: less_induct)
  case less
  note IH = less [of "drop (x + 2) b" for x, simplified]
  show ?case
  proof (cases "max_size < length b \<or> b = []")
    case True
    then show ?thesis by (auto simp: extract_loop.simps [of b])
  next
    case False
    have step: "extract_loop (drop k b) (acc @ [r]) =
        map_option (\<lambda>(rs, r'). (acc @ rs, r')) (extract_loop (drop k b) [r])" if "0 < k" for k r
    proof -
      have lt: "length (drop k b) < length b" using that False by simp
      have fg: "(\<lambda>(rs, r'). (acc @ rs, r')) \<circ> (\<lambda>(rs, r'). ([r] @ rs, r')) = (\<lambda>(rs, r'). ((acc @ [r]) @ rs, r'))"
        by auto
      show ?thesis
        by (subst (1 2) less [OF lt]) (simp only: option.map_comp fg)
    qed
    have pos: "0 < q" if "scan_arguments n b (e + 2) = Complete q" for n e q
      using scan_arguments_Complete [OF that] False by simp
    show ?thesis
      using False step pos
      by (simp add: extract_loop.simps [of b] split: option.split scan.split)
  qed
qed

lemma extract_requests_frame:
  assumes "frame f" "length (f @ z) \<le> max_size"
  shows "extract_requests (f @ z) = map_option (\<lambda>(rs, r). (f # rs, r)) (extract_requests z)"
proof -
  from assms(1) obtain h n s where f: "f = (CHR ''*'' # h @ CRLF) @ s" and h: "dec_header h n" "n < 2 ^ 64"
    and s: "frame_bulks n s" by (auto simp: frame_def)
  have b: "f @ z = [] @ (CHR ''*'' # h) @ CRLF @ (s @ z)" by (simp add: f)
  have c: "find_crlf (f @ z) 0 = Some (length (CHR ''*'' # h))"
    using find_crlf_at [of "CHR ''*'' # h" "[]" "s @ z"] dec_header_no_CR [OF h(1)] unfolding b by simp
  have p: "parse_decimal (f @ z) 1 (length (CHR ''*'' # h)) = Some n"
    using parse_decimal_at [OF h, of "[]" "CHR ''*''" "CRLF @ s @ z"] unfolding b by simp
  have "scan_arguments n ((CHR ''*'' # h @ CRLF) @ s @ z) (length (CHR ''*'' # h @ CRLF)) =
      Complete (length (CHR ''*'' # h @ CRLF) + length s)"
    using assms(2) f by (intro scan_arguments_frames [OF s]) simp
  then have sc: "scan_arguments n (f @ z) (length (CHR ''*'' # h) + 2) = Complete (length f)"
    by (simp add: f numeral_3_eq_3)
  have star: "(f @ z) ! 0 = CHR ''*''" "f @ z \<noteq> []" by (simp_all add: f)
  have "extract_loop (f @ z) [] = extract_loop z [f]"
    unfolding extract_loop.simps [of "f @ z"] c option.case p sc scan.case star(1)
    using assms(2) star(2) by (auto simp: substr_def)
  then show ?thesis
    unfolding extract_requests_def using extract_loop_acc [of z "[f]"] by simp
qed

lemma extract_requests_partial:
  assumes "frame (p @ q)" "q \<noteq> []"
  shows "extract_requests p = Some ([], p)"
proof (cases "p = []")
  case True
  then show ?thesis by (simp add: extract_requests_def extract_loop.simps)
next
  case False
  from assms(1) obtain h n s where f: "(CHR ''*'' # h @ CRLF) @ s = p @ q" and h: "dec_header h n" "n < 2 ^ 64"
    and s: "frame_bulks n s" and len: "length (p @ q) \<le> max_size" by (fastforce simp: frame_def)
  have star: "p ! 0 = CHR ''*''" using f False by (cases p) auto
  from f show ?thesis
  proof (cases rule: cut_append)
    case (inside u)
    have "crlf_index p = None"
      by (rule crlf_index_partial_line [of "CHR ''*'' # h" p u])
        (use inside dec_header_no_CR [OF h(1)] in simp_all)
    then show ?thesis using star False len
      by (simp add: extract_requests_def extract_loop.simps [of p] find_crlf_def)
  next
    case (after u)
    have b: "p = [] @ (CHR ''*'' # h) @ CRLF @ u" using after(1) by simp
    have c: "find_crlf p 0 = Some (length (CHR ''*'' # h))"
      using find_crlf_at [of "CHR ''*'' # h" "[]" u] dec_header_no_CR [OF h(1)] unfolding b by simp
    have pd: "parse_decimal p 1 (length (CHR ''*'' # h)) = Some n"
      using parse_decimal_at [OF h, of "[]" "CHR ''*''" "CRLF @ u"] unfolding b by simp
    have "scan_arguments n ((CHR ''*'' # h @ CRLF) @ u) (length (CHR ''*'' # h @ CRLF)) = Incomplete"
      using len f after by (intro scan_arguments_partial [OF s after(2) assms(2)]) simp_all
    then have sc: "scan_arguments n p (length (CHR ''*'' # h) + 2) = Incomplete"
      using after(1) by (simp add: numeral_3_eq_3)
    show ?thesis
      unfolding extract_requests_def extract_loop.simps [of p] c option.case pd sc scan.case
      using star False len by simp
  qed
qed

subsection \<open>The interface\<close>

text \<open>An unfinished request: a strict prefix of a frame, or nothing.\<close>

definition partial_frame :: "(string \<Rightarrow> bool) \<Rightarrow> string \<Rightarrow> bool" where
  "partial_frame fr p \<longleftrightarrow> p = [] \<or> (\<exists>q. q \<noteq> [] \<and> fr (p @ q))"

text \<open>Chunks arrive one by one; each is appended to the buffer, which is then cut.\<close>

fun feed :: "(string \<Rightarrow> (string list \<times> string) option) \<Rightarrow> string \<Rightarrow> string list \<Rightarrow>
    (string list \<times> string) option" where
  "feed ex b [] = Some ([], b)"
| "feed ex b (c # cs) =
     (case ex (b @ c) of
        None \<Rightarrow> None
      | Some (rs, b') \<Rightarrow>
          (case feed ex b' cs of None \<Rightarrow> None | Some (rs', b'') \<Rightarrow> Some (rs @ rs', b'')))"

locale framing =
  fixes fr :: "string \<Rightarrow> bool"
    and cut :: "string \<Rightarrow> (string list \<times> string) option"
    and limit :: nat
  assumes extract_frame:
      "fr f \<Longrightarrow> length (f @ z) \<le> limit \<Longrightarrow> cut (f @ z) = map_option (\<lambda>(fs, r). (f # fs, r)) (cut z)"
    and extract_partial: "partial_frame fr p \<Longrightarrow> cut p = Some ([], p)"
begin

lemma extract_frames:
  "list_all fr fs \<Longrightarrow> partial_frame fr p \<Longrightarrow> length (concat fs @ p) \<le> limit \<Longrightarrow>
     cut (concat fs @ p) = Some (fs, p)"
proof (induction fs)
  case (Cons f fs)
  have "cut (f @ concat fs @ p) = map_option (\<lambda>(fs, r). (f # fs, r)) (cut (concat fs @ p))"
    using Cons.prems by (intro extract_frame) simp_all
  with Cons show ?case by simp
qed (simp add: extract_partial)

text \<open>Every cut of a stream of frames falls inside one frame.\<close>

lemma cut_frames:
  assumes "list_all fr fs" "partial_frame fr p" "x @ y = concat fs @ p"
  shows "\<exists>j q. x = concat (take j fs) @ q \<and> partial_frame fr q \<and> q @ y = concat (drop j fs) @ p"
  using assms
proof (induction fs arbitrary: x)
  case Nil
  then have "x @ y = p" by simp
  moreover have "partial_frame fr x"
  proof (cases "p = []")
    case False
    with Nil.prems(2) obtain q where "q \<noteq> []" "fr (p @ q)" by (auto simp: partial_frame_def)
    then have "fr (x @ (y @ q))" "y @ q \<noteq> []" using \<open>x @ y = p\<close> by auto
    then show ?thesis unfolding partial_frame_def by blast
  qed (use \<open>x @ y = p\<close> in \<open>simp add: partial_frame_def\<close>)
  ultimately show ?case by (intro exI [where x = 0] exI [where x = x]) simp
next
  case (Cons f fs)
  from Cons.prems(3) have "f @ (concat fs @ p) = x @ y" by simp
  then show ?case
  proof (cases rule: cut_append)
    case (inside u)
    then have "partial_frame fr x" using Cons.prems(1) by (auto simp: partial_frame_def)
    with inside show ?thesis by (intro exI [where x = 0] exI [where x = x]) simp
  next
    case (after u)
    from Cons.IH [of u] Cons.prems(1,2) after(2) obtain j q where
      "u = concat (take j fs) @ q" "partial_frame fr q" "q @ y = concat (drop j fs) @ p" by auto
    with after(1) show ?thesis by (intro exI [where x = "Suc j"] exI [where x = q]) simp
  qed
qed

text \<open>So the requests that come out do not depend on how the stream is cut into chunks.\<close>

lemma feed_frames:
  "b @ concat cs = concat fs @ p \<Longrightarrow> partial_frame fr b \<Longrightarrow> list_all fr fs \<Longrightarrow> partial_frame fr p \<Longrightarrow>
     length (b @ concat cs) \<le> limit \<Longrightarrow> cs \<noteq> [] \<or> fs = [] \<and> b = p \<Longrightarrow> feed cut b cs = Some (fs, p)"
proof (induction cs arbitrary: b fs)
  case (Cons c cs)
  from cut_frames [OF Cons.prems(3,4), of "b @ c" "concat cs"] Cons.prems(1) obtain j q where
    j: "b @ c = concat (take j fs) @ q" "partial_frame fr q" "q @ concat cs = concat (drop j fs) @ p"
    by auto
  have all: "list_all fr (take j fs)" "list_all fr (drop j fs)"
    using Cons.prems(3) by (auto simp: list_all_iff dest: in_set_takeD in_set_dropD)
  have len: "length (concat (take j fs) @ q) \<le> limit" "length (q @ concat cs) \<le> limit"
    using Cons.prems(5) arg_cong [OF j(1), of length] by simp_all
  from extract_frames [OF all(1) j(2) len(1)] have ex: "cut (b @ c) = Some (take j fs, q)"
    unfolding j(1) .
  show ?case
  proof (cases "cs = []")
    case False
    from Cons.IH [OF j(3,2) all(2) Cons.prems(4) len(2)] False have "feed cut q cs = Some (drop j fs, p)"
      by simp
    with ex show ?thesis by simp
  next
    case True
    with Cons.prems(1) have "b @ c = concat fs @ p" by simp
    with extract_frames [OF Cons.prems(3,4)] Cons.prems(5) True have "cut (b @ c) = Some (fs, p)"
      by simp
    with True show ?thesis by simp
  qed
qed simp

end

interpretation requests: framing frame extract_requests max_size
proof unfold_locales
  show "extract_requests (f @ z) = map_option (\<lambda>(fs, r). (f # fs, r)) (extract_requests z)"
    if "frame f" "length (f @ z) \<le> max_size" for f z
    using that by (rule extract_requests_frame)
  show "extract_requests p = Some ([], p)" if "partial_frame frame p" for p
    using that extract_requests_partial [of p]
    by (auto simp: partial_frame_def extract_requests_def extract_loop.simps)
qed

text \<open>What the client encodes is a frame.\<close>

lemma dec_header_show_nat: "dec_header (show_nat n) n"
  using show_nat_digits [of n] by (simp add: dec_header_def list_all_iff)

lemma encode_resp_frame:
  assumes "length (encode_resp args) \<le> max_size"
  shows "frame (encode_resp args)"
proof -
  have "frame_bulks (length xs) (concat (map encode_bulk xs))" for xs
  proof (induction xs)
    case (Cons a xs)
    from frame_bulks_Suc [OF dec_header_show_nat Cons.IH, of a] show ?case
      by (simp add: encode_bulk_def)
  qed (simp add: frame_bulks_0)
  moreover have "length args \<le> length (concat (map encode_bulk args))"
    by (induction args) (simp_all add: encode_bulk_def)
  then have "length args < 2 ^ 64" using assms by (simp add: encode_resp_eq max_size_def)
  ultimately show ?thesis
    using assms dec_header_show_nat unfolding frame_def
    by (intro conjI exI [where x = "show_nat (length args)"] exI [where x = "length args"]
        exI [where x = "concat (map encode_bulk args)"]) (simp_all add: encode_resp_eq)
qed

subsection \<open>Properties\<close>

text \<open>C9 (chunking_independent): a stream of whole requests, followed by an unfinished one or
  nothing, gives exactly those requests, in order and byte for byte, and leaves exactly the
  unfinished one in the buffer, however the network cuts the stream into chunks.\<close>

theorem chunking_independent:
  assumes "list_all frame fs" "partial_frame frame p"
    and "concat chunks = concat fs @ p" "chunks \<noteq> []" "length (concat chunks) \<le> max_size"
  shows "feed extract_requests [] chunks = Some (fs, p)"
  using assms by (intro requests.feed_frames) (auto simp: partial_frame_def)

lemma ping_request_frame: "frame ping_request"
proof -
  have "encode_resp [''PING''] = ping_request" by code_simp
  then show ?thesis using encode_resp_frame [of "[''PING'']"] by (simp add: max_size_def)
qed

theorem chunking_independent_witness:
  "feed extract_requests [] [''*1'', [CR], LF # ''$4'' @ CRLF @ ''PI'', ''NG'' @ CRLF @ ''*1''] =
     Some ([ping_request], ''*1'')"
proof (rule chunking_independent)
  show "list_all frame [ping_request]" by (simp add: ping_request_frame)
  show "partial_frame frame ''*1''"
    unfolding partial_frame_def
    using ping_request_frame by (auto simp: ping_request_def intro!: exI [where x = "CRLF @ ''$4'' @ CRLF @ ''PING'' @ CRLF"])
qed (simp_all add: ping_request_def max_size_def)

text \<open>Two crafted requests. Their numbers are \<open>2^64 - 1\<close>, \<open>2^64 - 25\<close> and \<open>2^64 - 28\<close>.\<close>

definition loop_request :: string where
  "loop_request = ''*18446744073709551615'' @ CRLF @ ''$18446744073709551591'' @ CRLF"

definition outside_request :: string where
  "outside_request = ''*1'' @ CRLF @ ''$18446744073709551588'' @ CRLF"

lemma loop_request_layout:
  "length loop_request = 46" "find_crlf loop_request 0 = Some 21" "find_crlf loop_request 23 = Some 44"
  "loop_request ! 23 = CHR ''$''" "loop_request ! 21 = CR" "loop_request ! 22 = LF"
  "substr loop_request 1 20 = ''18446744073709551615''"
  "substr loop_request 24 20 = ''18446744073709551591''"
  by code_simp+

lemma outside_request_layout:
  "length outside_request = 27" "find_crlf outside_request 0 = Some 2"
  "find_crlf outside_request 4 = Some 25" "outside_request ! 0 = CHR ''*''"
  "outside_request ! 4 = CHR ''$''" "substr outside_request 1 1 = ''1''"
  "substr outside_request 5 20 = ''18446744073709551588''"
  by code_simp+

lemma parse_decimal_literal:
  "substr v start (stop - start) = s \<Longrightarrow> start < stop \<Longrightarrow> list_all is_digit s \<Longrightarrow>
     parse_decimal v start stop = Some (size_wrap (dec_value s))"
  using parse_digits_value [of s 0] by (simp add: parse_decimal_def dec_value_def size_wrap_def)

lemma crafted_numbers:
  "parse_decimal loop_request 1 21 = Some 18446744073709551615"
  "parse_decimal loop_request 24 44 = Some 18446744073709551591"
  "parse_decimal outside_request 1 2 = Some 1"
  "parse_decimal outside_request 5 25 = Some 18446744073709551588"
proof -
  have d: "list_all is_digit ''18446744073709551615''" "list_all is_digit ''18446744073709551591''"
    "list_all is_digit ''1''" "list_all is_digit ''18446744073709551588''" by code_simp+
  have v: "dec_value ''18446744073709551615'' = 18446744073709551615"
    "dec_value ''18446744073709551591'' = 18446744073709551591"
    "dec_value ''1'' = 1" "dec_value ''18446744073709551588'' = 18446744073709551588"
    by (simp_all add: dec_value_def digit_value_def)
  show "parse_decimal loop_request 1 21 = Some 18446744073709551615"
    using parse_decimal_literal [of loop_request 1 21, OF _ _ d(1)] loop_request_layout
    by (simp add: v size_wrap_def)
  show "parse_decimal loop_request 24 44 = Some 18446744073709551591"
    using parse_decimal_literal [of loop_request 24 44, OF _ _ d(2)] loop_request_layout
    by (simp add: v size_wrap_def)
  show "parse_decimal outside_request 1 2 = Some 1"
    using parse_decimal_literal [of outside_request 1 2, OF _ _ d(3)] outside_request_layout
    by (simp add: v size_wrap_def)
  show "parse_decimal outside_request 5 25 = Some 18446744073709551588"
    using parse_decimal_literal [of outside_request 5 25, OF _ _ d(4)] outside_request_layout
    by (simp add: v size_wrap_def)
qed

text \<open>C28 (crafted_count_spins): a request of 46 bytes holds the parser in its argument loop. Its
  count is \<open>2^64 - 1\<close>, and its bulk length makes the position wrap around to where the
  argument began, so each of the \<open>2^64 - 1\<close> iterations leaves the position unchanged.\<close>

theorem crafted_count_spins:
  "length loop_request = 46 \<and> find_crlf loop_request 0 = Some 21 \<and>
   parse_decimal loop_request 1 21 = Some (2 ^ 64 - 1) \<and>
   (\<forall>n. scan_arguments (Suc n) loop_request 23 = scan_arguments n loop_request 23)"
proof (intro conjI allI)
  fix n
  have h: "has_crlf loop_request 21 = Some True"
    by (simp add: has_crlf_def loop_request_layout size_wrap_def)
  show "scan_arguments (Suc n) loop_request 23 = scan_arguments n loop_request 23"
    using crafted_numbers(2) by (simp add: loop_request_layout size_wrap_def h)
  show "parse_decimal loop_request 1 21 = Some (2 ^ 64 - 1)"
    using crafted_numbers(1) by simp
qed (rule loop_request_layout)+

text \<open>C27 (crafted_length_reads_outside): a request of 27 bytes makes \<open>has_crlf\<close> read before the
  beginning of the buffer. Its bulk length passes the size check because the sum wraps to 1,
  and the terminator is then looked for at position \<open>2^64 - 1\<close>.\<close>

theorem crafted_length_reads_outside:
  "length outside_request = 27 \<and> extract_requests outside_request = None \<and>
   has_crlf outside_request (2 ^ 64 - 1) = None"
proof (intro conjI)
  show h: "has_crlf outside_request (2 ^ 64 - 1) = None"
    by (simp add: has_crlf_def outside_request_layout size_wrap_def)
  have "scan_arguments 1 outside_request 4 = Outside"
    using crafted_numbers(4) h by (simp add: outside_request_layout size_wrap_def)
  moreover have "outside_request \<noteq> []" using outside_request_layout(1) by force
  ultimately show "extract_requests outside_request = None"
    using crafted_numbers(3)
    by (simp add: extract_requests_def extract_loop.simps [of outside_request] outside_request_layout)
qed (rule outside_request_layout)

text \<open>C29 (malformed_stalls): a malformed argument, here a line \<open>x\<close> where the marker \<open>$\<close> is due,
  stops the outer loop, too. Whatever follows it in the buffer, complete requests included, is
  left there unanswered until more input arrives.\<close>

theorem malformed_stalls:
  assumes "length rest + 8 \<le> max_size"
  shows "extract_requests (''*1'' @ CRLF @ ''x'' @ CRLF @ rest) =
    Some ([''-ERR invalid RESP bulk string'' @ CRLF], rest)"
proof -
  let ?b = "''*1'' @ CRLF @ ''x'' @ CRLF @ rest"
  have f: "find_crlf ?b 0 = Some 2" "find_crlf ?b 4 = Some 5"
    using find_crlf_at [of "''*1''" "[]" "''x'' @ CRLF @ rest"]
      find_crlf_at [of "''x''" "''*1'' @ CRLF" rest] by (simp_all add: eval_nat_numeral)
  have p: "parse_decimal ?b 1 2 = Some 1"
    by (simp add: parse_decimal_def substr_def is_digit_def digit_value_def size_wrap_def)
  have "scan_arguments 1 ?b 4 = Malformed (''-ERR invalid RESP bulk string'' @ CRLF) rest"
    using f(2) by (simp add: eval_nat_numeral)
  moreover have "?b ! 0 = CHR ''*''" by simp
  ultimately show ?thesis using f(1) p assms
    by (simp add: extract_requests_def extract_loop.simps [of ?b] del: scan_arguments.simps append.simps)
qed

theorem malformed_stalls_witness:
  "extract_requests (''*1'' @ CRLF @ ''x'' @ CRLF @ ping_request) =
     Some ([''-ERR invalid RESP bulk string'' @ CRLF], ping_request) \<and>
   extract_requests ping_request = Some ([ping_request], [])"
  using malformed_stalls [of ping_request] extract_requests_frame [OF ping_request_frame, of "[]"]
  by (simp add: max_size_def extract_requests_def extract_loop.simps [of "[]"])

end
