(* ===== verification/Auth.thy ===== *)
theory Auth
  imports Kv_Map
begin

section \<open>The authentication manager\<close>

text \<open>
  \<open>src/auth.cpp\<close> and \<open>include/auth.hpp\<close>. OpenSSL's \<open>SHA256\<close> is not part of the repository:
  it is the parameter \<open>sha\<close>, from the password's bytes to the digest's. What the code relies
  on is that a digest has 32 bytes; where a property needs two digests to differ, it says so.
\<close>

subsection \<open>State and operations\<close>

record user =
  password_hash :: string
  enabled :: bool

record auth_manager =
  users :: "(string \<times> user) list"

text \<open>The stream manipulators \<open>hex\<close>, \<open>setw(2)\<close>, \<open>setfill('0')\<close> on one byte.\<close>

definition hex_digit :: "nat \<Rightarrow> char" where
  "hex_digit n = (if n < 10 then char_of (48 + n) else char_of (87 + n))"

definition hex_byte :: "char \<Rightarrow> string" where
  "hex_byte c = [hex_digit (of_char c div 16), hex_digit (of_char c mod 16)]"

definition hash_password :: "(string \<Rightarrow> string) \<Rightarrow> string \<Rightarrow> string" where
  "hash_password sha password = foldl (\<lambda>out byte. out @ hex_byte byte) [] (sha password)"

definition set_password :: "(string \<Rightarrow> string) \<Rightarrow> string \<Rightarrow> string \<Rightarrow> auth_manager \<Rightarrow> auth_manager" where
  "set_password sha username password a =
     a\<lparr>users := AList.update username
          \<lparr>password_hash = hash_password sha password, enabled = True\<rparr> (users a)\<rparr>"

definition new_auth_manager :: "(string \<Rightarrow> string) \<Rightarrow> auth_manager" where
  "new_auth_manager sha = set_password sha ''default'' ''koshdb'' \<lparr>users = []\<rparr>"

definition user_exists :: "string \<Rightarrow> auth_manager \<Rightarrow> bool" where
  "user_exists username a \<longleftrightarrow> map_of (users a) username \<noteq> None"

definition user_enabled :: "string \<Rightarrow> auth_manager \<Rightarrow> bool" where
  "user_enabled username a \<longleftrightarrow>
     (case map_of (users a) username of None \<Rightarrow> False | Some u \<Rightarrow> enabled u)"

definition authenticate :: "(string \<Rightarrow> string) \<Rightarrow> string \<Rightarrow> string \<Rightarrow> auth_manager \<Rightarrow> bool" where
  "authenticate sha username password a \<longleftrightarrow>
     (case map_of (users a) username of
        None \<Rightarrow> False
      | Some u \<Rightarrow> if \<not> enabled u then False else password_hash u = hash_password sha password)"

subsection \<open>The interface\<close>

text \<open>
  What a user of the manager relies on: a password that was set is checked against the last
  one set for that name, and nothing else changes the answer. \<open>same p q\<close> says that the two
  passwords cannot be told apart.
\<close>

locale credentials =
  fixes set_op :: "string \<Rightarrow> string \<Rightarrow> 'a \<Rightarrow> 'a"
    and check :: "string \<Rightarrow> string \<Rightarrow> 'a \<Rightarrow> bool"
    and same :: "string \<Rightarrow> string \<Rightarrow> bool"
  assumes check_set: "check u q (set_op u p a) = same p q"
    and check_other: "u \<noteq> v \<Longrightarrow> check v q (set_op u p a) = check v q a"
    and same_refl: "same p p"
begin

lemma check_after_set: "check u p (set_op u p a)"
  by (simp add: check_set same_refl)

text \<open>After any history of calls, the last one for a name decides.\<close>

lemma check_history:
  "check u q (fold (\<lambda>(v, p). set_op v p) hist a) =
     (case find (\<lambda>(v, p). v = u) (rev hist) of None \<Rightarrow> check u q a | Some (v, p) \<Rightarrow> same p q)"
proof (induction hist rule: rev_induct)
  case (snoc vp hist)
  obtain v p where vp: "vp = (v, p)" by fastforce
  show ?case
    using snoc.IH by (cases "v = u") (simp_all add: vp check_set check_other)
qed simp

end

lemma hash_password_concat: "hash_password sha p = concat (map hex_byte (sha p))"
proof -
  have "foldl (\<lambda>out byte. out @ hex_byte byte) acc xs = acc @ concat (map hex_byte xs)" for acc xs
    by (induction xs arbitrary: acc) auto
  then show ?thesis by (simp add: hash_password_def)
qed

lemma hex_digit_inj: "m < 16 \<Longrightarrow> n < 16 \<Longrightarrow> hex_digit m = hex_digit n \<Longrightarrow> m = n"
  by (auto simp: hex_digit_def dest!: arg_cong [where f = "of_char :: char \<Rightarrow> nat"] split: if_splits)

lemma hex_byte_inj: "hex_byte c = hex_byte d \<Longrightarrow> c = d"
proof -
  assume "hex_byte c = hex_byte d"
  then have "hex_digit (of_char c div 16) = hex_digit (of_char d div 16)"
    "hex_digit (of_char c mod 16) = hex_digit (of_char d mod 16)"
    by (simp_all add: hex_byte_def)
  moreover have "(of_char c :: nat) div 16 < 16" "(of_char d :: nat) div 16 < 16"
    using nat_of_char_less_256 [of c] nat_of_char_less_256 [of d] by linarith+
  ultimately have "(of_char c :: nat) div 16 = of_char d div 16" "(of_char c :: nat) mod 16 = of_char d mod 16"
    using hex_digit_inj by (blast, simp add: hex_digit_inj)
  then have "(of_char c :: nat) = of_char d" by (metis div_mult_mod_eq)
  then show "c = d" by simp
qed

lemma hex_bytes_inj: "concat (map hex_byte xs) = concat (map hex_byte ys) \<Longrightarrow> xs = ys"
proof (induction xs arbitrary: ys)
  case (Cons x xs)
  then obtain y ys' where "ys = y # ys'" by (cases ys) (auto simp: hex_byte_def)
  moreover have "length (hex_byte x) = length (hex_byte y)" by (simp add: hex_byte_def)
  ultimately show ?case using Cons hex_byte_inj by auto
next
  case Nil
  then show ?case by (cases ys) (auto simp: hex_byte_def)
qed

lemma hash_password_eq: "hash_password sha p = hash_password sha q \<longleftrightarrow> sha p = sha q"
  by (auto simp: hash_password_concat dest: hex_bytes_inj)

interpretation auth: credentials "set_password sha" "authenticate sha" "\<lambda>p q. sha p = sha q"
  for sha :: "string \<Rightarrow> string"
  by unfold_locales (auto simp: set_password_def authenticate_def update_conv' hash_password_eq)

lemma length_hex: "length (concat (map hex_byte xs)) = 2 * length xs"
  by (induction xs) (simp_all add: hex_byte_def)

subsection \<open>Properties\<close>

text \<open>C31 (authenticate_history): whatever passwords were set, in any order and for any users, after
  the constructor, a login succeeds exactly when the password has the digest of the one set
  last for that name, or of \<open>koshdb\<close> for \<open>default\<close> if none was set; a name without a
  password never logs in.\<close>

theorem authenticate_history:
  "authenticate sha u q (fold (\<lambda>(v, p). set_password sha v p) hist (new_auth_manager sha)) \<longleftrightarrow>
     (case find (\<lambda>(v, p). v = u) (rev hist) of
        None \<Rightarrow> u = ''default'' \<and> sha ''koshdb'' = sha q
      | Some (v, p) \<Rightarrow> sha p = sha q)"
proof -
  have "authenticate sha u q (new_auth_manager sha) \<longleftrightarrow> u = ''default'' \<and> sha ''koshdb'' = sha q"
    unfolding new_auth_manager_def
    using auth.check_set [of sha "''default''" q "''koshdb''" "\<lparr>users = []\<rparr>"]
      auth.check_other [of "''default''" u sha q "''koshdb''" "\<lparr>users = []\<rparr>"]
    by (cases "u = ''default''") (auto simp: authenticate_def)
  then show ?thesis
    by (simp add: auth.check_history split: option.split)
qed

text \<open>The stored hash is 64 hexadecimal digits, and a user is enabled as soon as it exists.\<close>

lemma stored_hash:
  assumes "\<And>p. length (sha p) = 32"
  shows "length (hash_password sha p) = 64"
  by (simp add: hash_password_concat length_hex assms)

lemma set_password_enabled:
  "user_exists u (set_password sha u p a) \<and> user_enabled u (set_password sha u p a)"
  by (simp add: user_exists_def user_enabled_def set_password_def update_conv')

end
