(* ===== verification/Replication.thy ===== *)
theory Replication
  imports Byte_Strings "HOL-Library.Multiset"
begin

section \<open>The replication state\<close>

text \<open>
  \<open>src/replication.cpp\<close> and \<open>include/replication.hpp\<close>. Each method is one atomic access, or
  one critical section of \<open>state_mutex\<close>, so an interleaving of threads is a sequence of
  method calls. The offset is a \<open>std::uint64_t\<close> and wraps.
\<close>

datatype replication_role = Primary | Replica

record replication_state =
  current_role :: replication_role
  primary_host_value :: string
  primary_port_value :: "16 word"
  offset :: "64 word"

definition new_replication_state :: replication_state where
  "new_replication_state =
     \<lparr>current_role = Primary, primary_host_value = [], primary_port_value = 0, offset = 0\<rparr>"

definition set_role :: "replication_role \<Rightarrow> replication_state \<Rightarrow> replication_state" where
  "set_role new_role st = st\<lparr>current_role := new_role\<rparr>"

definition role :: "replication_state \<Rightarrow> replication_role" where
  "role st = current_role st"

definition is_primary :: "replication_state \<Rightarrow> bool" where
  "is_primary st \<longleftrightarrow> role st = Primary"

definition is_replica :: "replication_state \<Rightarrow> bool" where
  "is_replica st \<longleftrightarrow> role st = Replica"

definition set_primary :: "string \<Rightarrow> 16 word \<Rightarrow> replication_state \<Rightarrow> replication_state" where
  "set_primary host port st = st\<lparr>primary_host_value := host, primary_port_value := port\<rparr>"

definition primary_host :: "replication_state \<Rightarrow> string" where
  "primary_host st = primary_host_value st"

definition primary_port :: "replication_state \<Rightarrow> 16 word" where
  "primary_port st = primary_port_value st"

definition replication_offset :: "replication_state \<Rightarrow> 64 word" where
  "replication_offset st = offset st"

definition advance_offset :: "64 word \<Rightarrow> replication_state \<Rightarrow> 64 word \<times> replication_state" where
  "advance_offset bytes st = (offset st + bytes, st\<lparr>offset := offset st + bytes\<rparr>)"

definition set_replication_offset :: "64 word \<Rightarrow> replication_state \<Rightarrow> replication_state" where
  "set_replication_offset new_offset st = st\<lparr>offset := new_offset\<rparr>"

text \<open>A sequence of advances, in the order in which the atomic additions happen.\<close>

fun advance_all :: "64 word list \<Rightarrow> replication_state \<Rightarrow> 64 word list \<times> replication_state" where
  "advance_all [] st = ([], st)"
| "advance_all (b # bs) st =
     (case advance_offset b st of (r, st') \<Rightarrow>
        (case advance_all bs st' of (rs, st'') \<Rightarrow> (r # rs, st'')))"

lemma advance_all_Cons:
  "advance_all (b # bs) st =
     ((offset st + b) # fst (advance_all bs (st\<lparr>offset := offset st + b\<rparr>)),
      snd (advance_all bs (st\<lparr>offset := offset st + b\<rparr>)))"
  by (simp add: advance_offset_def split: prod.split)

declare advance_all.simps(2) [simp del]

lemma advance_all_offset: "snd (advance_all bs st) = st\<lparr>offset := offset st + sum_list bs\<rparr>"
  by (induction bs arbitrary: st) (simp_all add: advance_all_Cons add.assoc)

lemma advance_all_results:
  "i < length bs \<Longrightarrow> fst (advance_all bs st) ! i = offset st + sum_list (take (Suc i) bs)"
proof (induction bs arbitrary: st i)
  case (Cons b bs)
  then show ?case by (cases i) (simp_all add: advance_all_Cons add.assoc)
qed simp

lemma unat_sum_list_mod: "unat (sum_list bs :: 64 word) = (\<Sum>b \<leftarrow> bs. unat b) mod 2 ^ 64"
  by (induction bs) (simp_all add: unat_word_ariths mod_simps)

lemma unat_add_sum_list:
  "unat (a + sum_list bs :: 64 word) = (unat a + (\<Sum>b \<leftarrow> bs. unat b)) mod 2 ^ 64"
  by (simp add: unat_word_ariths unat_sum_list_mod mod_simps)

lemma sum_take_le: "(\<Sum>b \<leftarrow> take n bs. unat b) \<le> (\<Sum>b \<leftarrow> bs. unat b)"
proof -
  have "(\<Sum>b \<leftarrow> bs. unat b) = (\<Sum>b \<leftarrow> take n bs. unat b) + (\<Sum>b \<leftarrow> drop n bs. unat b)"
    by (metis append_take_drop_id map_append sum_list_append)
  then show ?thesis by simp
qed

subsection \<open>Properties\<close>

text \<open>C32 (advance_offset_interleaved): however the advances of several threads interleave, the
  final state is the same: nothing but the offset changes, and it is the initial offset plus
  all the byte counts, modulo \<open>2^64\<close>. Call \<open>i\<close> in the order of the additions returns that sum
  up to and including its own bytes, again modulo \<open>2^64\<close>; and while the total fits in 64 bits,
  the exact sum, so the ranges that the callers get are then adjacent and disjoint.\<close>

theorem advance_offset_interleaved:
  assumes "mset bs = mset bs'"
  shows "snd (advance_all bs st) = snd (advance_all bs' st) \<and>
    snd (advance_all bs st) = st\<lparr>offset := offset st + sum_list bs\<rparr> \<and>
    unat (replication_offset (snd (advance_all bs st))) =
      (unat (replication_offset st) + (\<Sum>b \<leftarrow> bs. unat b)) mod 2 ^ 64 \<and>
    (\<forall>i < length bs. unat (fst (advance_all bs st) ! i) =
      (unat (replication_offset st) + (\<Sum>b \<leftarrow> take (Suc i) bs. unat b)) mod 2 ^ 64) \<and>
    (unat (replication_offset st) + (\<Sum>b \<leftarrow> bs. unat b) < 2 ^ 64 \<longrightarrow>
      (\<forall>i < length bs. unat (fst (advance_all bs st) ! i) =
        unat (replication_offset st) + (\<Sum>b \<leftarrow> take (Suc i) bs. unat b)))"
proof -
  have "sum_list bs = sum_list bs'" using assms by (metis sum_mset_sum_list)
  moreover have "(\<Sum>b \<leftarrow> bs'. unat b) = (\<Sum>b \<leftarrow> bs. unat b)"
    using assms by (metis mset_map sum_mset_sum_list)
  moreover have each: "unat (fst (advance_all bs st) ! i) =
      (unat (replication_offset st) + (\<Sum>b \<leftarrow> take (Suc i) bs. unat b)) mod 2 ^ 64" if "i < length bs" for i
    by (simp add: advance_all_results [OF that] replication_offset_def unat_add_sum_list)
  moreover have "unat (fst (advance_all bs st) ! i) =
      unat (replication_offset st) + (\<Sum>b \<leftarrow> take (Suc i) bs. unat b)"
    if "i < length bs" "unat (replication_offset st) + (\<Sum>b \<leftarrow> bs. unat b) < 2 ^ 64" for i
  proof -
    have "unat (replication_offset st) + (\<Sum>b \<leftarrow> take (Suc i) bs. unat b) < 2 ^ 64"
      using that(2) sum_take_le [of "Suc i" bs] by linarith
    then show ?thesis using each [OF that(1)] by simp
  qed
  ultimately show ?thesis
    by (simp add: advance_all_offset replication_offset_def unat_add_sum_list)
qed

theorem advance_offset_interleaved_witness:
  "unat (fst (advance_all [10, 5] new_replication_state) ! 1) = 15 \<and>
   snd (advance_all [10, 5] new_replication_state) = snd (advance_all [5, 10] new_replication_state) \<and>
   unat (replication_offset (snd (advance_all [- 1, 5] new_replication_state))) = 4"
  using advance_offset_interleaved [of "[10, 5]" "[5, 10]" new_replication_state]
    advance_offset_interleaved [of "[- 1, 5]" "[- 1, 5]" new_replication_state]
  by (simp add: new_replication_state_def replication_offset_def)

end
