(* ===== verification/Thread_Pool.thy ===== *)
theory Thread_Pool
  imports Byte_Strings "HOL-Library.Multiset"
begin

section \<open>The thread pool\<close>

text \<open>
  \<open>src/thread_pool.cpp\<close> and \<open>include/thread_pool.hpp\<close>, as a step relation. A step is one
  critical section of \<open>queue_mutex\<close>, one notification of the condition variable, or the end
  of a job, which runs outside the lock; the scheduler may take the steps of the callers and of
  the workers in any order. A worker whose wait finds the predicate false sleeps
  (\<open>Waiting\<close>) and looks again only after a notification, or after a spurious wakeup, which
  the standard allows. The notifications come after the lock is released, so they are steps of
  their own: \<open>notify_pending\<close> counts the callers of \<open>enqueue\<close> between the unlock and
  \<open>notify_one\<close>, and \<open>closing\<close> says how far \<open>shutdown\<close> is. Jobs are values of any type; an
  exception of a job is caught by the worker, which is the end of the job.
\<close>

subsection \<open>State and steps\<close>

text \<open>\<open>Ready\<close>: the worker is about to take the lock and evaluate the predicate.\<close>

datatype 'j worker = Ready | Waiting | Running 'j | Exited

datatype shutdown_phase = Open | Notify | Joining | Closed

text \<open>The three lists at the end are history: jobs accepted, taken by a worker, ended.\<close>

record 'j pool =
  stopping :: bool
  jobs :: "'j list"
  workers :: "'j worker list"
  notify_pending :: nat
  closing :: shutdown_phase
  accepted :: "'j list"
  started :: "'j list"
  ended :: "'j list"

definition clamp_workers :: "nat \<Rightarrow> nat" where
  "clamp_workers worker_count =
     (let worker_count = (if worker_count = 0 then 2 else worker_count)
      in max 1 (min worker_count 16))"

definition new_pool :: "nat \<Rightarrow> 'j pool" where
  "new_pool worker_count =
     \<lparr>stopping = False, jobs = [], workers = replicate (clamp_workers worker_count) Ready,
      notify_pending = 0, closing = Open, accepted = [], started = [], ended = []\<rparr>"

text \<open>
  \<open>enqueue\<close>: the critical section, after which the caller has a \<open>notify_one\<close> to make; an empty
  \<open>std::function\<close> is \<open>None\<close>.
\<close>

definition enqueue :: "'j option \<Rightarrow> 'j pool \<Rightarrow> 'j pool" where
  "enqueue job p =
     (case job of
        None \<Rightarrow> p
      | Some j \<Rightarrow>
          if stopping p then p
          else p\<lparr>jobs := jobs p @ [j], notify_pending := Suc (notify_pending p),
                 accepted := accepted p @ [j]\<rparr>)"

text \<open>
  \<open>condition.notify_one()\<close> of a caller that has one to make: it unblocks a sleeping worker \<open>i\<close>,
  whichever the implementation picks, and does nothing when no worker sleeps.
\<close>

definition notify_one :: "nat \<Rightarrow> 'j pool \<Rightarrow> 'j pool option" where
  "notify_one i p =
     (if notify_pending p = 0 then None
      else if Waiting \<notin> set (workers p) then Some (p\<lparr>notify_pending := notify_pending p - 1\<rparr>)
      else if i < length (workers p) \<and> workers p ! i = Waiting
      then Some (p\<lparr>workers := (workers p)[i := Ready], notify_pending := notify_pending p - 1\<rparr>)
      else None)"

text \<open>
  The critical section of \<open>worker_loop\<close>: with the predicate of the wait false the worker goes to
  sleep; otherwise it exits, or takes the first job.
\<close>

definition worker_check :: "nat \<Rightarrow> 'j pool \<Rightarrow> 'j pool option" where
  "worker_check i p =
     (if length (workers p) \<le> i \<or> workers p ! i \<noteq> Ready then None
      else if \<not> (stopping p \<or> jobs p \<noteq> []) then Some (p\<lparr>workers := (workers p)[i := Waiting]\<rparr>)
      else case jobs p of
          [] \<Rightarrow> Some (p\<lparr>workers := (workers p)[i := Exited]\<rparr>)
        | j # js \<Rightarrow>
            Some (p\<lparr>jobs := js, workers := (workers p)[i := Running j], started := started p @ [j]\<rparr>))"

definition worker_job_done :: "nat \<Rightarrow> 'j pool \<Rightarrow> 'j pool option" where
  "worker_job_done i p =
     (if length (workers p) \<le> i then None
      else case workers p ! i of
          Running j \<Rightarrow> Some (p\<lparr>workers := (workers p)[i := Ready], ended := ended p @ [j]\<rparr>)
        | _ \<Rightarrow> None)"

text \<open>A sleeping worker may wake with no notification, to evaluate the predicate again.\<close>

definition spurious_wakeup :: "nat \<Rightarrow> 'j pool \<Rightarrow> 'j pool option" where
  "spurious_wakeup i p =
     (if i < length (workers p) \<and> workers p ! i = Waiting
      then Some (p\<lparr>workers := (workers p)[i := Ready]\<rparr>) else None)"

text \<open>
  \<open>shutdown\<close>: its critical section; \<open>condition.notify_all()\<close>, which wakes every worker that
  sleeps at that moment; and the joins, which wait for every worker to return, with
  \<open>workers.clear()\<close> after them.
\<close>

definition shutdown_begin :: "'j pool \<Rightarrow> 'j pool option" where
  "shutdown_begin p = (if stopping p then None else Some (p\<lparr>stopping := True, closing := Notify\<rparr>))"

definition woken :: "'j worker \<Rightarrow> 'j worker" where
  "woken w = (case w of Waiting \<Rightarrow> Ready | _ \<Rightarrow> w)"

definition notify_all :: "'j pool \<Rightarrow> 'j pool option" where
  "notify_all p =
     (if closing p = Notify then Some (p\<lparr>workers := map woken (workers p), closing := Joining\<rparr>)
      else None)"

definition shutdown_join :: "'j pool \<Rightarrow> 'j pool option" where
  "shutdown_join p =
     (if closing p = Joining \<and> list_all (\<lambda>w. w = Exited) (workers p)
      then Some (p\<lparr>workers := [], closing := Closed\<rparr>) else None)"

definition worker_count :: "'j pool \<Rightarrow> nat" where
  "worker_count p = length (workers p)"

text \<open>
  The steps that the pool owes its callers: those of the workers and the notifications already
  under way. The others are the callers' own, and the spurious wakeups.
\<close>

inductive progress_step :: "'j pool \<Rightarrow> 'j pool \<Rightarrow> bool" where
  step_check: "worker_check i p = Some p' \<Longrightarrow> progress_step p p'"
| step_done: "worker_job_done i p = Some p' \<Longrightarrow> progress_step p p'"
| step_notify_one: "notify_one i p = Some p' \<Longrightarrow> progress_step p p'"
| step_notify_all: "notify_all p = Some p' \<Longrightarrow> progress_step p p'"

inductive pool_step :: "'j pool \<Rightarrow> 'j pool \<Rightarrow> bool" where
  step_progress: "progress_step p p' \<Longrightarrow> pool_step p p'"
| step_spurious: "spurious_wakeup i p = Some p' \<Longrightarrow> pool_step p p'"
| step_enqueue: "pool_step p (enqueue job p)"
| step_shutdown: "shutdown_begin p = Some p' \<Longrightarrow> pool_step p p'"
| step_join: "shutdown_join p = Some p' \<Longrightarrow> pool_step p p'"

inductive_cases pool_stepE: "pool_step p p'"

inductive_cases progress_stepE: "progress_step p p'"

lemmas pool_ops = worker_check_def worker_job_done_def notify_one_def notify_all_def
  spurious_wakeup_def enqueue_def shutdown_begin_def shutdown_join_def

subsection \<open>The invariant\<close>

fun running_jobs :: "'j worker list \<Rightarrow> 'j list" where
  "running_jobs [] = []"
| "running_jobs (Running j # ws) = j # running_jobs ws"
| "running_jobs (_ # ws) = running_jobs ws"

text \<open>A worker that will take the lock again by itself.\<close>

definition awake :: "'j worker \<Rightarrow> bool" where
  "awake w = (case w of Ready \<Rightarrow> True | Running _ \<Rightarrow> True | _ \<Rightarrow> False)"

text \<open>
  Jobs are started in the order in which they were accepted, the queue holds exactly the ones
  not started yet, and a started job is running in one worker or has ended. A worker exits
  only when it can, and the workers are gone only after all of that. No wakeup is lost: while
  a job is queued, a worker is awake or a notification is on its way; and once \<open>shutdown\<close> has
  notified, no worker sleeps.
\<close>

definition accounts :: "'j pool \<Rightarrow> bool" where
  "accounts p \<longleftrightarrow> accepted p = started p @ jobs p \<and>
     mset (started p) = mset (ended p) + mset (running_jobs (workers p)) \<and>
     (Exited \<in> set (workers p) \<longrightarrow> stopping p \<and> jobs p = []) \<and>
     (workers p = [] \<longrightarrow> stopping p \<and> jobs p = []) \<and> length (workers p) \<le> 16"

definition wakes :: "'j pool \<Rightarrow> bool" where
  "wakes p \<longleftrightarrow>
     (jobs p \<noteq> [] \<longrightarrow> list_ex awake (workers p) \<or> 0 < notify_pending p \<or> closing p = Notify) \<and>
     (stopping p \<longleftrightarrow> closing p \<noteq> Open) \<and>
     (closing p = Joining \<or> closing p = Closed \<longrightarrow> Waiting \<notin> set (workers p)) \<and>
     (closing p = Closed \<longrightarrow> workers p = [])"

definition pool_inv :: "'j pool \<Rightarrow> bool" where
  "pool_inv p \<longleftrightarrow> accounts p \<and> wakes p"

lemma running_jobs_update:
  "i < length ws \<Longrightarrow> mset (running_jobs ws) + mset (running_jobs [w]) =
     mset (running_jobs (ws[i := w])) + mset (running_jobs [ws ! i])"
proof (induction ws arbitrary: i)
  case (Cons v ws)
  show ?case
  proof (cases i)
    case 0
    then show ?thesis by (cases v; cases w) simp_all
  next
    case (Suc k)
    with Cons have "mset (running_jobs ws) + mset (running_jobs [w]) =
        mset (running_jobs (ws[k := w])) + mset (running_jobs [ws ! k])" by simp
    with Suc show ?thesis by (cases v) simp_all
  qed
qed simp


lemma running_jobs_woken: "running_jobs (map woken ws) = running_jobs ws"
proof (induction ws)
  case (Cons w ws)
  then show ?case by (cases w) (simp_all add: woken_def)
qed simp

lemma set_updateD: "w \<in> set (ws[i := v]) \<Longrightarrow> w = v \<or> w \<in> set ws"
  using set_update_subset_insert [of ws i v] by auto

text \<open>A worker that changes state without a job in hand keeps the accounts.\<close>

lemma accounts_rest:
  assumes "accounts p" "i < length (workers p)" "running_jobs [workers p ! i] = []"
    "running_jobs [w] = []" "w = Exited \<Longrightarrow> stopping p \<and> jobs p = []"
  shows "accounts (p\<lparr>workers := (workers p)[i := w]\<rparr>)"
proof -
  have "mset (running_jobs ((workers p)[i := w])) = mset (running_jobs (workers p))"
    using running_jobs_update [OF assms(2), of w] assms(3,4) by simp
  moreover have "Exited \<in> set ((workers p)[i := w]) \<Longrightarrow> stopping p \<and> jobs p = []"
    using set_updateD [of Exited "workers p" i w] assms(1,5) by (auto simp: accounts_def)
  ultimately show ?thesis
    using assms(1) unfolding accounts_def by simp
qed

lemma accounts_pending [simp]: "accounts (p\<lparr>notify_pending := n\<rparr>) = accounts p"
  by (simp add: accounts_def)

lemma accounts_closing [simp]: "accounts (p\<lparr>closing := c\<rparr>) = accounts p"
  by (simp add: accounts_def)

lemma worker_check_accounts:
  assumes "worker_check i p = Some p'" "accounts p"
  shows "accounts p'"
proof -
  from assms(1) have i: "i < length (workers p)" "workers p ! i = Ready"
    by (auto simp: worker_check_def split: if_splits)
  show ?thesis
  proof (cases "jobs p")
    case Nil
    with assms i accounts_rest [of p i Exited] accounts_rest [of p i Waiting] show ?thesis
      by (auto simp: worker_check_def split: if_splits)
  next
    case (Cons j js)
    from assms(2) Cons have "Exited \<notin> set (workers p)" by (auto simp: accounts_def)
    then have "Exited \<notin> set ((workers p)[i := Running j])"
      using set_updateD [of Exited "workers p" i "Running j"] by auto
    with assms i Cons running_jobs_update [OF i(1), of "Running j"] show ?thesis
      by (auto simp: worker_check_def accounts_def)
  qed
qed

lemma worker_job_done_accounts:
  assumes "worker_job_done i p = Some p'" "accounts p"
  shows "accounts p'"
proof -
  from assms(1) obtain j where i: "i < length (workers p)" "workers p ! i = Running j"
    and p': "p' = p\<lparr>workers := (workers p)[i := Ready], ended := ended p @ [j]\<rparr>"
    by (auto simp: worker_job_done_def split: if_splits worker.splits)
  have "mset (running_jobs (workers p)) = add_mset j (mset (running_jobs ((workers p)[i := Ready])))"
    using running_jobs_update [OF i(1), of Ready] i(2) by simp
  moreover have "Exited \<in> set ((workers p)[i := Ready]) \<Longrightarrow> Exited \<in> set (workers p)"
    using set_updateD [of Exited "workers p" i Ready] by auto
  ultimately show ?thesis
    using assms(2) i(1) by (auto simp: accounts_def p')
qed

lemma running_jobs_exited: "list_all (\<lambda>w. w = Exited) ws \<Longrightarrow> running_jobs ws = []"
  by (induction ws) auto

lemma notify_one_accounts: "notify_one i p = Some p' \<Longrightarrow> accounts p \<Longrightarrow> accounts p'"
  using accounts_rest [of p i Ready]
  by (auto simp: notify_one_def split: if_splits)

lemma notify_all_accounts: "notify_all p = Some p' \<Longrightarrow> accounts p \<Longrightarrow> accounts p'"
  by (auto simp: notify_all_def accounts_def running_jobs_woken woken_def
      split: if_splits worker.splits)

lemma progress_step_accounts: "progress_step p p' \<Longrightarrow> accounts p \<Longrightarrow> accounts p'"
  by (erule progress_stepE)
    (auto intro: worker_check_accounts worker_job_done_accounts notify_one_accounts notify_all_accounts)

lemma pool_step_accounts:
  assumes "pool_step p p'" "accounts p" "wakes p"
  shows "accounts p'"
  using assms(1)
proof (cases rule: pool_step.cases)
  case step_progress
  with assms(2) show ?thesis by (simp add: progress_step_accounts)
next
  case (step_spurious i)
  with assms(2) accounts_rest [of p i Ready] show ?thesis
    by (auto simp: spurious_wakeup_def split: if_splits)
next
  case (step_enqueue job)
  with assms(2) show ?thesis by (auto simp: enqueue_def accounts_def split: option.splits)
next
  case step_shutdown
  with assms(2) show ?thesis by (auto simp: shutdown_begin_def accounts_def split: if_splits)
next
  case step_join
  with assms(2,3) running_jobs_exited [of "workers p"] show ?thesis
    by (cases "workers p") (auto simp: shutdown_join_def accounts_def wakes_def split: if_splits)
qed

subsection \<open>No lost wakeup\<close>

lemma list_ex_update: "i < length ws \<Longrightarrow> P w \<Longrightarrow> list_ex P (ws[i := w])"
  by (auto simp: list_ex_iff intro!: bexI [of _ w] set_update_memI)

text \<open>A queued job leaves some worker that has not exited.\<close>

lemma some_awake:
  assumes "accounts p" "jobs p \<noteq> []" "Waiting \<notin> set (workers p)"
  shows "list_ex awake (workers p)"
proof -
  from assms have "workers p \<noteq> []" "Exited \<notin> set (workers p)" by (auto simp: accounts_def)
  then have "hd (workers p) \<in> set (workers p)" "hd (workers p) \<noteq> Exited"
    "hd (workers p) \<noteq> Waiting" using assms(3) by (metis hd_in_set)+
  then show ?thesis
    by (auto simp: list_ex_iff awake_def split: worker.split intro!: bexI [of _ "hd (workers p)"])
qed

lemma worker_check_wakes:
  assumes "worker_check i p = Some p'" "wakes p"
  shows "wakes p'"
proof -
  from assms(1) have i: "i < length (workers p)" "workers p ! i = Ready"
    by (auto simp: worker_check_def split: if_splits)
  have aw: "list_ex awake ((workers p)[i := Running j])" for j
    using list_ex_update [OF i(1)] by (simp add: awake_def)
  from assms i aw show ?thesis
    by (auto simp: worker_check_def wakes_def dest: set_updateD split: if_splits list.splits)
qed

text \<open>A step that makes worker \<open>i\<close> ready, and perhaps uses up a notification.\<close>

lemma ready_wakes:
  assumes "wakes p" "i < length (workers p)"
  shows "wakes (p\<lparr>workers := (workers p)[i := Ready], notify_pending := n\<rparr>)"
    "wakes (p\<lparr>workers := (workers p)[i := Ready]\<rparr>)"
    "wakes (p\<lparr>workers := (workers p)[i := Ready], ended := e\<rparr>)"
proof -
  have "list_ex awake ((workers p)[i := Ready])"
    using list_ex_update [OF assms(2)] by (simp add: awake_def)
  moreover have "Waiting \<in> set ((workers p)[i := Ready]) \<Longrightarrow> Waiting \<in> set (workers p)"
    using set_updateD by fastforce
  moreover have "workers p \<noteq> []" using assms(2) by auto
  ultimately show "wakes (p\<lparr>workers := (workers p)[i := Ready], notify_pending := n\<rparr>)"
    "wakes (p\<lparr>workers := (workers p)[i := Ready]\<rparr>)"
    "wakes (p\<lparr>workers := (workers p)[i := Ready], ended := e\<rparr>)"
    using assms(1) by (simp_all add: wakes_def) blast+
qed

lemma worker_job_done_wakes: "worker_job_done i p = Some p' \<Longrightarrow> wakes p \<Longrightarrow> wakes p'"
  by (auto simp: worker_job_done_def intro: ready_wakes split: if_splits worker.splits)

lemma spurious_wakes: "spurious_wakeup i p = Some p' \<Longrightarrow> wakes p \<Longrightarrow> wakes p'"
  by (auto simp: spurious_wakeup_def intro: ready_wakes split: if_splits)

lemma unnotified_wakes:
  "accounts p \<Longrightarrow> wakes p \<Longrightarrow> Waiting \<notin> set (workers p) \<Longrightarrow> wakes (p\<lparr>notify_pending := n\<rparr>)"
  using some_awake [of p] by (simp add: wakes_def)

lemma notify_one_wakes:
  "notify_one i p = Some p' \<Longrightarrow> accounts p \<Longrightarrow> wakes p \<Longrightarrow> wakes p'"
  by (auto simp: notify_one_def intro: ready_wakes unnotified_wakes split: if_splits)

lemma notify_all_wakes:
  assumes "notify_all p = Some p'" "accounts p" "wakes p"
  shows "wakes p'"
proof -
  have none: "Waiting \<notin> set (map woken (workers p))"
    by (auto simp: woken_def split: worker.splits)
  have p': "p' = p\<lparr>workers := map woken (workers p), closing := Joining\<rparr>" "closing p = Notify"
    using assms(1) by (auto simp: notify_all_def split: if_splits)
  moreover have "accounts p'" using assms(1,2) by (rule notify_all_accounts)
  ultimately show ?thesis
    using assms(3) none some_awake [of p'] by (auto simp: wakes_def)
qed

lemma progress_step_wakes: "progress_step p p' \<Longrightarrow> accounts p \<Longrightarrow> wakes p \<Longrightarrow> wakes p'"
  by (erule progress_stepE)
    (auto intro: worker_check_wakes worker_job_done_wakes notify_one_wakes notify_all_wakes)

lemma pool_step_wakes:
  assumes "pool_step p p'" "accounts p" "wakes p"
  shows "wakes p'"
  using assms(1)
proof (cases rule: pool_step.cases)
  case step_progress
  with assms(2,3) show ?thesis by (simp add: progress_step_wakes)
next
  case step_spurious
  with assms(3) show ?thesis by (simp add: spurious_wakes)
next
  case (step_enqueue job)
  with assms(3) show ?thesis by (auto simp: enqueue_def wakes_def split: option.splits)
next
  case step_shutdown
  with assms(3) show ?thesis by (auto simp: shutdown_begin_def wakes_def split: if_splits)
next
  case step_join
  with assms(2,3) show ?thesis
    by (cases "workers p") (auto simp: shutdown_join_def accounts_def wakes_def split: if_splits)
qed

lemma pool_step_inv: "pool_step p p' \<Longrightarrow> pool_inv p \<Longrightarrow> pool_inv p'"
  by (simp add: pool_inv_def pool_step_accounts pool_step_wakes)

lemma clamp_workers_bounds: "1 \<le> clamp_workers n \<and> clamp_workers n \<le> 16"
  by (simp add: clamp_workers_def Let_def)

lemma new_pool_inv: "pool_inv (new_pool n)"
proof -
  have "running_jobs (replicate k Ready) = []" for k by (induction k) auto
  then show ?thesis
    using clamp_workers_bounds [of n]
    by (auto simp: pool_inv_def accounts_def wakes_def new_pool_def)
qed

lemma pool_reachable_inv: "pool_step\<^sup>*\<^sup>* p p' \<Longrightarrow> pool_inv p \<Longrightarrow> pool_inv p'"
  by (induction rule: rtranclp_induct) (auto intro: pool_step_inv)

subsection \<open>Draining\<close>

definition worker_weight :: "'j worker \<Rightarrow> nat" where
  "worker_weight w = (case w of Ready \<Rightarrow> 2 | Waiting \<Rightarrow> 0 | Running _ \<Rightarrow> 3 | Exited \<Rightarrow> 0)"

text \<open>What is left to do: it shrinks with every step that the pool owes.\<close>

definition work_left :: "'j pool \<Rightarrow> nat" where
  "work_left p = 2 * length (jobs p) + sum_list (map worker_weight (workers p)) +
     3 * notify_pending p + (if closing p = Notify then 2 * length (workers p) + 1 else 0)"

lemma sum_weight_update:
  "i < length ws \<Longrightarrow> sum_list (map worker_weight (ws[i := w])) + worker_weight (ws ! i) =
     sum_list (map worker_weight ws) + worker_weight w"
proof (induction ws arbitrary: i)
  case (Cons v ws)
  then show ?case by (cases i) auto
qed simp

lemma sum_weight_woken:
  "sum_list (map worker_weight (map woken ws)) \<le> sum_list (map worker_weight ws) + 2 * length ws"
proof (induction ws)
  case (Cons w ws)
  then show ?case by (cases w) (simp_all add: woken_def worker_weight_def)
qed simp

lemma worker_check_decreases:
  assumes "worker_check i p = Some p'"
  shows "work_left p' < work_left p"
proof -
  from assms have i: "i < length (workers p)" "workers p ! i = Ready"
    by (auto simp: worker_check_def split: if_splits)
  from assms i sum_weight_update [OF i(1), of Exited] sum_weight_update [OF i(1), of Waiting]
  show ?thesis
    using sum_weight_update [OF i(1), of "Running (hd (jobs p))"]
    by (auto simp: worker_check_def work_left_def worker_weight_def split: if_splits list.splits)
qed

lemma worker_job_done_decreases:
  assumes "worker_job_done i p = Some p'"
  shows "work_left p' < work_left p"
proof -
  from assms obtain j where i: "i < length (workers p)" "workers p ! i = Running j"
    by (auto simp: worker_job_done_def split: if_splits worker.splits)
  from assms i sum_weight_update [OF i(1), of Ready] show ?thesis
    by (auto simp: worker_job_done_def work_left_def worker_weight_def)
qed

lemma notify_one_decreases: "notify_one i p = Some p' \<Longrightarrow> work_left p' < work_left p"
  using sum_weight_update [of i "workers p" Ready]
  by (auto simp: notify_one_def work_left_def worker_weight_def split: if_splits)

lemma notify_all_decreases: "notify_all p = Some p' \<Longrightarrow> work_left p' < work_left p"
  using sum_weight_woken [of "workers p"]
  by (auto simp: notify_all_def work_left_def split: if_splits)

lemma progress_step_decreases: "progress_step p p' \<Longrightarrow> work_left p' < work_left p"
  by (erule progress_stepE)
    (auto intro: worker_check_decreases worker_job_done_decreases notify_one_decreases
      notify_all_decreases)

text \<open>
  Where the pool owes no step, nobody is awake and no notification is under way; so no job is
  queued or running, and after \<open>shutdown\<close> has begun every worker has exited.
\<close>

lemma stuck_workers:
  assumes "\<And>p'. \<not> progress_step p p'" "i < length (workers p)"
  shows "workers p ! i = Waiting \<or> workers p ! i = Exited"
proof (cases "workers p ! i")
  case Ready
  with assms(2) have "\<exists>p'. worker_check i p = Some p'"
    by (auto simp: worker_check_def split: list.split)
  with assms(1) step_check show ?thesis by blast
next
  case (Running j)
  with assms(2) have "\<exists>p'. worker_job_done i p = Some p'" by (auto simp: worker_job_done_def)
  with assms(1) step_done show ?thesis by blast
qed simp_all

lemma stuck_notifications:
  assumes "\<And>p'. \<not> progress_step p p'"
  shows "notify_pending p = 0 \<and> closing p \<noteq> Notify"
proof
  show "notify_pending p = 0"
  proof (rule ccontr)
    assume "notify_pending p \<noteq> 0"
    then have "\<exists>i p'. notify_one i p = Some p'"
      by (auto simp: notify_one_def in_set_conv_nth)
    with assms step_notify_one show False by blast
  qed
  show "closing p \<noteq> Notify"
    using assms step_notify_all [of p] by (auto simp: notify_all_def)
qed

lemma running_jobs_asleep: "list_all (\<lambda>w. w = Waiting \<or> w = Exited) ws \<Longrightarrow> running_jobs ws = []"
  by (induction ws) auto

lemma stuck_drained:
  assumes "\<And>p'. \<not> progress_step p p'" "pool_inv p"
  shows "jobs p = []" "mset (ended p) = mset (accepted p)"
    "stopping p \<Longrightarrow> list_all (\<lambda>w. w = Exited) (workers p) \<and>
       (closing p = Closed \<or> shutdown_join p \<noteq> None)"
proof -
  have ws: "list_all (\<lambda>w. w = Waiting \<or> w = Exited) (workers p)"
    using stuck_workers [OF assms(1)] by (simp add: list_all_length)
  then have "\<not> list_ex awake (workers p)"
    by (auto simp: list_ex_iff list_all_iff awake_def split: worker.splits)
  then show empty: "jobs p = []"
    using stuck_notifications [OF assms(1)] assms(2) by (auto simp: pool_inv_def wakes_def)
  then show "mset (ended p) = mset (accepted p)"
    using assms(2) running_jobs_asleep [OF ws] by (simp add: pool_inv_def accounts_def)
  assume "stopping p"
  then have cl: "closing p = Joining \<or> closing p = Closed"
    using assms(2) stuck_notifications [OF assms(1)]
    by (cases "closing p") (auto simp: pool_inv_def wakes_def)
  then have "list_all (\<lambda>w. w = Exited) (workers p)"
    using ws assms(2) by (auto simp: list_all_iff pool_inv_def wakes_def)
  with cl show "list_all (\<lambda>w. w = Exited) (workers p) \<and>
      (closing p = Closed \<or> shutdown_join p \<noteq> None)"
    by (auto simp: shutdown_join_def)
qed

lemma progress_step_frame:
  "progress_step p p' \<Longrightarrow> stopping p' = stopping p \<and> accepted p' = accepted p"
  by (erule progress_stepE) (auto simp: pool_ops split: if_splits list.splits worker.splits)

lemma progress_steps_frame:
  "progress_step\<^sup>*\<^sup>* p q \<Longrightarrow> stopping q = stopping p \<and> accepted q = accepted p"
  by (induction rule: rtranclp_induct) (auto dest: progress_step_frame)

lemma progress_steps_inv: "progress_step\<^sup>*\<^sup>* p q \<Longrightarrow> pool_inv p \<Longrightarrow> pool_inv q"
  by (induction rule: rtranclp_induct) (auto intro: pool_step_inv step_progress)

lemma progress_steps_finish: "\<exists>q. progress_step\<^sup>*\<^sup>* p q \<and> (\<forall>q'. \<not> progress_step q q')"
proof (induction "work_left p" arbitrary: p rule: less_induct)
  case less
  show ?case
  proof (cases "\<exists>p'. progress_step p p'")
    case True
    then obtain p' where "progress_step p p'" ..
    with less progress_step_decreases show ?thesis by (meson converse_rtranclp_into_rtranclp)
  qed auto
qed

subsection \<open>Shutting an idle pool down\<close>

text \<open>
  The destructor calls \<open>shutdown\<close>. For a pool with nothing to do, whose workers all wait or are
  about to, its whole effect is the following, by the steps of any schedule.
\<close>

definition shutdown_idle :: "'j pool \<Rightarrow> 'j pool" where
  "shutdown_idle p = (if stopping p then p else p\<lparr>stopping := True, workers := [], closing := Closed\<rparr>)"

lemma exit_all:
  "stopping p \<Longrightarrow> jobs p = [] \<Longrightarrow> workers p = replicate k Exited @ replicate n Ready \<Longrightarrow>
     progress_step\<^sup>*\<^sup>* p (p\<lparr>workers := replicate (k + n) Exited\<rparr>)"
proof (induction n arbitrary: k p)
  case 0
  then have "p\<lparr>workers := replicate (k + 0) Exited\<rparr> = p" by (cases p) simp
  then show ?case by simp
next
  case (Suc n)
  let ?p = "p\<lparr>workers := replicate (Suc k) Exited @ replicate n Ready\<rparr>"
  have "(replicate k Exited @ Ready # replicate n Ready)[k := Exited] =
      replicate k Exited @ Exited # replicate n (Ready :: 'a worker)"
    by (simp add: list_update_append)
  also have "\<dots> = replicate (Suc k) Exited @ replicate n Ready"
    by (simp add: replicate_app_Cons_same)
  finally have "worker_check k p = Some ?p"
    using Suc.prems by (simp add: worker_check_def nth_append)
  then have "progress_step p ?p" by (rule step_check)
  moreover have "progress_step\<^sup>*\<^sup>* ?p (?p\<lparr>workers := replicate (Suc k + n) Exited\<rparr>)"
    using Suc.prems by (intro Suc.IH) simp_all
  ultimately show ?case by (simp add: converse_rtranclp_into_rtranclp)
qed

lemma shutdown_idle_steps:
  assumes "jobs p = []" "\<forall>w \<in> set (workers p). w = Ready \<or> w = Waiting" "\<not> stopping p"
  shows "pool_step\<^sup>*\<^sup>* p (shutdown_idle p)"
proof -
  let ?n = "length (workers p)"
  let ?p1 = "p\<lparr>stopping := True, closing := Notify\<rparr>"
  let ?p2 = "?p1\<lparr>workers := replicate ?n Ready, closing := Joining\<rparr>"
  let ?p3 = "?p2\<lparr>workers := replicate ?n Exited\<rparr>"
  have "pool_step p ?p1" by (rule step_shutdown) (simp add: shutdown_begin_def assms(3))
  moreover have "map woken (workers p) = replicate ?n Ready"
    using assms(2) by (intro replicate_eqI) (auto simp: woken_def)
  then have "progress_step ?p1 ?p2" by (intro step_notify_all) (simp add: notify_all_def)
  moreover have "progress_step\<^sup>*\<^sup>* ?p2 ?p3" using exit_all [of ?p2 0 ?n] assms(1) by simp
  moreover have "pool_step ?p3 (shutdown_idle p)"
    by (rule step_join) (simp add: shutdown_join_def shutdown_idle_def assms(3) list_all_iff)
  moreover have "pool_step\<^sup>*\<^sup>* q q'" if "progress_step\<^sup>*\<^sup>* q q'" for q q' :: "'a pool"
    using that by (rule rtranclp_mono [THEN predicate2D, rotated]) (auto intro: step_progress)
  ultimately show ?thesis
    by (meson converse_rtranclp_into_rtranclp r_into_rtranclp rtranclp_trans step_progress)
qed

subsection \<open>Properties\<close>

text \<open>C21 (pool_keeps_jobs): in every reachable state of the pool, under every interleaving of
  callers, workers, notifications and spurious wakeups, the jobs accepted are those started
  followed by those queued, in order; each started job is running in one worker or has ended,
  once; there are at most 16 workers; and a worker has exited only if shutdown began and the
  queue is empty. No wakeup is lost: while a job is queued, some worker is awake or a
  notification is still to be made.\<close>

theorem pool_keeps_jobs:
  assumes "pool_step\<^sup>*\<^sup>* (new_pool n) p"
  shows "accepted p = started p @ jobs p \<and>
    mset (started p) = mset (ended p) + mset (running_jobs (workers p)) \<and>
    worker_count p \<le> 16 \<and> (Exited \<in> set (workers p) \<longrightarrow> stopping p \<and> jobs p = []) \<and>
    (jobs p \<noteq> [] \<longrightarrow> list_ex awake (workers p) \<or> 0 < notify_pending p \<or> closing p = Notify)"
  using pool_reachable_inv [OF assms new_pool_inv]
  unfolding pool_inv_def accounts_def wakes_def worker_count_def by blast

text \<open>One worker, asleep, and two jobs enqueued before it is notified.\<close>

definition sample_pool :: "nat pool" where
  "sample_pool = enqueue (Some 8) (enqueue (Some 7) (the (worker_check 0 (new_pool 1))))"

lemmas sample_pool_eval = sample_pool_def enqueue_def new_pool_def worker_check_def clamp_workers_def

lemma sample_pool_reachable: "pool_step\<^sup>*\<^sup>* (new_pool 1) sample_pool"
proof -
  have "worker_check 0 (new_pool 1) = Some (the (worker_check 0 (new_pool 1)))"
    by (simp add: new_pool_def worker_check_def clamp_workers_def)
  then have "pool_step (new_pool 1) (the (worker_check 0 (new_pool 1)))"
    by (rule step_progress [OF step_check])
  then show ?thesis
    unfolding sample_pool_def by (meson r_into_rtranclp rtranclp.rtrancl_into_rtrancl step_enqueue)
qed

theorem pool_keeps_jobs_witness:
  "accepted sample_pool = started sample_pool @ [7, 8] \<and> worker_count sample_pool \<le> 16 \<and>
   workers sample_pool = [Waiting] \<and> notify_pending sample_pool = 2"
  using pool_keeps_jobs [OF sample_pool_reachable] by (simp add: sample_pool_eval)

text \<open>C22 (shutdown_drains): from every reachable state the steps that the pool owes (a worker
  evaluating its wait or ending a job, a \<open>notify_one\<close> of an enqueue, the \<open>notify_all\<close> of
  shutdown) end after finitely many, whatever their order. When none is left, with nobody woken
  but by a notification, the queue is empty and every accepted job has been run once; and if
  shutdown has begun, every worker has exited and the joins return, or have returned.\<close>

theorem shutdown_drains:
  assumes "pool_step\<^sup>*\<^sup>* (new_pool n) p"
  shows "wfP (\<lambda>q' q :: 'j pool. progress_step q q') \<and>
    (\<exists>q. progress_step\<^sup>*\<^sup>* p q \<and> (\<forall>q'. \<not> progress_step q q')) \<and>
    (\<forall>q. progress_step\<^sup>*\<^sup>* p q \<and> (\<forall>q'. \<not> progress_step q q') \<longrightarrow>
       jobs q = [] \<and> mset (ended q) = mset (accepted p) \<and>
       (stopping p \<longrightarrow> list_all (\<lambda>w. w = Exited) (workers q) \<and>
          (closing q = Closed \<or> shutdown_join q \<noteq> None)))"
proof (intro conjI allI impI)
  show "wfP (\<lambda>q' q :: 'j pool. progress_step q q')"
    by (rule wfp_if_convertible_to_nat [of _ work_left]) (rule progress_step_decreases)
  show "\<exists>q. progress_step\<^sup>*\<^sup>* p q \<and> (\<forall>q'. \<not> progress_step q q')" by (rule progress_steps_finish)
next
  fix q
  assume q: "progress_step\<^sup>*\<^sup>* p q \<and> (\<forall>q'. \<not> progress_step q q')"
  then have inv: "pool_inv q"
    using progress_steps_inv pool_reachable_inv [OF assms new_pool_inv] by blast
  have fr: "stopping q = stopping p" "accepted q = accepted p" using q progress_steps_frame by blast+
  note st = stuck_drained [OF _ inv]
  show "jobs q = []" "mset (ended q) = mset (accepted p)" using st(1,2) q fr by auto
  show "list_all (\<lambda>w. w = Exited) (workers q)" "closing q = Closed \<or> shutdown_join q \<noteq> None"
    if "stopping p" using st(3) q fr that by auto
qed

text \<open>The sleeping worker of the sample, in a pool where \<open>shutdown\<close> begins before any notification.\<close>

theorem shutdown_drains_witness:
  "\<exists>q. progress_step\<^sup>*\<^sup>* (the (shutdown_begin sample_pool)) q \<and> mset (ended q) = {#7, 8#} \<and>
     list_all (\<lambda>w. w = Exited) (workers q)"
proof -
  have sh: "shutdown_begin sample_pool = Some (the (shutdown_begin sample_pool))"
    and st: "stopping (the (shutdown_begin sample_pool))"
    and acc: "accepted (the (shutdown_begin sample_pool)) = [7, 8]"
    by (simp_all add: shutdown_begin_def sample_pool_eval)
  from sh have "pool_step\<^sup>*\<^sup>* (new_pool 1) (the (shutdown_begin sample_pool))"
    using sample_pool_reachable by (meson rtranclp.rtrancl_into_rtrancl step_shutdown)
  from shutdown_drains [OF this] st acc show ?thesis by auto
qed

end
