(* ===== verification/Tls.thy ===== *)
theory Tls
  imports Byte_Strings
begin

section \<open>The TLS manager\<close>

text \<open>
  \<open>src/tls_manager.cpp\<close> and \<open>include/tls_manager.hpp\<close>. OpenSSL is not part of the
  repository: the outcome of each of its calls is an argument, and contexts and sessions are
  numbers. The model keeps the contexts that were created, restricted to TLS 1.2 and later, and
  freed, in order, so that leaks, double frees and missing restrictions can be stated. A null
  pointer is \<open>None\<close>.
\<close>

subsection \<open>State and operations\<close>

record tls_manager =
  context_ptr :: "nat option"
  tls_on :: bool
  created :: "nat list"
  restricted :: "nat list"
  freed :: "nat list"

definition new_tls_manager :: tls_manager where
  "new_tls_manager = \<lparr>context_ptr = None, tls_on = False, created = [], restricted = [], freed = []\<rparr>"

text \<open>
  What the calls of \<open>initialize\<close> return: \<open>SSL_CTX_new\<close>, \<open>SSL_CTX_set_min_proto_version\<close> (1 when
  it has restricted the context, 0 on failure), the certificate chain, the private key, the
  check that they match; and the entry of the error queue (\<open>ERR_get_error\<close>).
\<close>

record init_calls =
  ctx_new :: "nat option"
  min_version_result :: "nat \<Rightarrow> int"
  certificate_result :: "nat \<Rightarrow> string \<Rightarrow> int"
  private_key_result :: "nat \<Rightarrow> string \<Rightarrow> int"
  check_result :: "nat \<Rightarrow> int"
  error_queue :: "string option"

definition openssl_error_message :: "string option \<Rightarrow> string" where
  "openssl_error_message q = (case q of None \<Rightarrow> ''unknown OpenSSL error'' | Some m \<Rightarrow> take 255 m)"

definition cleanup :: "tls_manager \<Rightarrow> tls_manager" where
  "cleanup m =
     (case context_ptr m of
        None \<Rightarrow> m\<lparr>tls_on := False\<rparr>
      | Some c \<Rightarrow> m\<lparr>context_ptr := None, freed := freed m @ [c], tls_on := False\<rparr>)"

text \<open>The code ignores the result of \<open>SSL_CTX_set_min_proto_version\<close>.\<close>

definition tls_initialize ::
  "init_calls \<Rightarrow> string \<Rightarrow> string \<Rightarrow> tls_manager \<Rightarrow> (string + unit) \<times> tls_manager" where
  "tls_initialize calls certificate_path private_key_path m0 =
     (let m = cleanup m0; err = openssl_error_message (error_queue calls)
      in case ctx_new calls of
          None \<Rightarrow> (Inl (''Unable to create TLS context: '' @ err), m\<lparr>context_ptr := None\<rparr>)
        | Some c \<Rightarrow>
            (let m = m\<lparr>context_ptr := Some c, created := created m @ [c]\<rparr>;
                 m = (if min_version_result calls c = 1 then m\<lparr>restricted := restricted m @ [c]\<rparr> else m)
             in if certificate_result calls c certificate_path \<noteq> 1
                then (Inl (''Unable to load TLS certificate: '' @ err), cleanup m)
                else if private_key_result calls c private_key_path \<noteq> 1
                then (Inl (''Unable to load TLS private key: '' @ err), cleanup m)
                else if check_result calls c \<noteq> 1
                then (Inl (''TLS certificate and private key do not match: '' @ err), cleanup m)
                else (Inr (), m\<lparr>tls_on := True\<rparr>)))"

definition tls_enabled :: "tls_manager \<Rightarrow> bool" where
  "tls_enabled m = tls_on m"

text \<open>
  The calls made on a session are recorded in order. \<open>create_session\<close> depends on what
  \<open>SSL_new\<close> and \<open>SSL_set_fd\<close> return; its result is the session, or \<open>None\<close> for a null pointer.
\<close>

datatype ssl_call = SSL_set_fd nat int | SSL_set_accept_state nat | SSL_shutdown nat | SSL_free nat

definition create_session ::
  "(nat \<Rightarrow> nat option) \<Rightarrow> (nat \<Rightarrow> int \<Rightarrow> int) \<Rightarrow> string option \<Rightarrow> int \<Rightarrow> tls_manager \<Rightarrow>
     (string + nat option) \<times> ssl_call list" where
  "create_session ssl_new ssl_set_fd q client_fd m =
     (case context_ptr m of
        None \<Rightarrow> (Inr None, [])
      | Some c \<Rightarrow>
          if \<not> tls_on m then (Inr None, [])
          else case ssl_new c of
              None \<Rightarrow> (Inl (''Unable to create TLS session: '' @ openssl_error_message q), [])
            | Some ssl \<Rightarrow>
                if ssl_set_fd ssl client_fd \<noteq> 1
                then (Inl (''Unable to associate TLS session with socket: '' @ openssl_error_message q),
                  [SSL_set_fd ssl client_fd, SSL_free ssl])
                else (Inr (Some ssl), [SSL_set_fd ssl client_fd, SSL_set_accept_state ssl]))"

definition tls_accept :: "(nat \<Rightarrow> int) \<Rightarrow> nat option \<Rightarrow> bool" where
  "tls_accept ssl_accept ssl = (case ssl of None \<Rightarrow> False | Some s \<Rightarrow> ssl_accept s = 1)"

definition tls_read :: "(nat \<Rightarrow> int \<Rightarrow> int) \<Rightarrow> nat option \<Rightarrow> int \<Rightarrow> int" where
  "tls_read ssl_read ssl len = (case ssl of None \<Rightarrow> -1 | Some s \<Rightarrow> ssl_read s len)"

definition tls_write :: "(nat \<Rightarrow> int \<Rightarrow> int) \<Rightarrow> nat option \<Rightarrow> int \<Rightarrow> int" where
  "tls_write ssl_write ssl len = (case ssl of None \<Rightarrow> -1 | Some s \<Rightarrow> ssl_write s len)"

text \<open>\<open>SSL_ERROR_SSL\<close> is a constant of OpenSSL, so it is an argument too.\<close>

definition tls_get_error :: "int \<Rightarrow> (nat \<Rightarrow> int \<Rightarrow> int) \<Rightarrow> nat option \<Rightarrow> int \<Rightarrow> int" where
  "tls_get_error SSL_ERROR_SSL ssl_get_error ssl result =
     (case ssl of None \<Rightarrow> SSL_ERROR_SSL | Some s \<Rightarrow> ssl_get_error s result)"

definition shutdown_session :: "nat option \<Rightarrow> ssl_call list" where
  "shutdown_session ssl = (case ssl of None \<Rightarrow> [] | Some s \<Rightarrow> [SSL_shutdown s])"

definition destroy_session :: "nat option \<Rightarrow> ssl_call list" where
  "destroy_session ssl = (case ssl of None \<Rightarrow> [] | Some s \<Rightarrow> shutdown_session ssl @ [SSL_free s])"

subsection \<open>Reachable managers\<close>

inductive tls_step :: "tls_manager \<Rightarrow> tls_manager \<Rightarrow> bool" where
  step_initialize: "tls_step m (snd (tls_initialize calls certificate_path private_key_path m))"
| step_destructor: "tls_step m (cleanup m)"

text \<open>
  The invariant: TLS is on exactly when there is a context, and the contexts created are the
  ones freed, in the same order, followed by the current one.
\<close>

definition tls_inv :: "tls_manager \<Rightarrow> bool" where
  "tls_inv m \<longleftrightarrow> (tls_on m \<longleftrightarrow> context_ptr m \<noteq> None) \<and>
     created m = freed m @ (case context_ptr m of None \<Rightarrow> [] | Some c \<Rightarrow> [c])"

lemma cleanup_inv:
  "created m = freed m @ (case context_ptr m of None \<Rightarrow> [] | Some c \<Rightarrow> [c]) \<Longrightarrow>
     tls_inv (cleanup m) \<and> context_ptr (cleanup m) = None \<and> freed (cleanup m) = created m \<and>
     created (cleanup m) = created m"
  by (auto simp: tls_inv_def cleanup_def split: option.split)

text \<open>A new context that is either kept, with TLS on, or cleaned up again.\<close>

lemma new_context_inv:
  assumes "created m = freed m @ [c]" "context_ptr m = Some c"
  shows "tls_inv (cleanup m)" "tls_inv (m\<lparr>tls_on := True\<rparr>)"
  using assms cleanup_inv [of m] by (simp_all add: tls_inv_def)

lemma tls_initialize_inv:
  assumes "tls_inv m"
  shows "tls_inv (snd (tls_initialize calls certificate_path private_key_path m))"
proof (cases "ctx_new calls")
  case None
  with cleanup_inv [of m] assms show ?thesis
    by (auto simp: tls_initialize_def Let_def tls_inv_def)
next
  case (Some c)
  have "created (cleanup m) = freed (cleanup m)" using cleanup_inv [of m] assms by (simp add: tls_inv_def)
  with Some show ?thesis
    by (auto simp: tls_initialize_def Let_def intro!: new_context_inv)
qed

lemma tls_step_inv: "tls_step m m' \<Longrightarrow> tls_inv m \<Longrightarrow> tls_inv m'"
proof (induction rule: tls_step.induct)
  case (step_destructor m)
  then have "created m = freed m @ (case context_ptr m of None \<Rightarrow> [] | Some c \<Rightarrow> [c])"
    by (simp add: tls_inv_def)
  then show ?case using cleanup_inv by blast
qed (rule tls_initialize_inv)

lemma tls_reachable_inv: "tls_step\<^sup>*\<^sup>* m m' \<Longrightarrow> tls_inv m \<Longrightarrow> tls_inv m'"
  by (induction rule: rtranclp_induct) (auto intro: tls_step_inv)

lemma new_tls_manager_inv: "tls_inv new_tls_manager"
  by (simp add: tls_inv_def new_tls_manager_def)

text \<open>What \<open>initialize\<close> returns and leaves on every branch.\<close>

lemma tls_initialize_ok_iff:
  "fst (tls_initialize calls cert key m) = Inr () \<longleftrightarrow>
     (\<exists>c. ctx_new calls = Some c \<and> certificate_result calls c cert = 1 \<and>
        private_key_result calls c key = 1 \<and> check_result calls c = 1)"
  by (auto simp: tls_initialize_def Let_def split: option.split)

lemma tls_initialize_enabled_iff:
  "tls_enabled (snd (tls_initialize calls cert key m)) \<longleftrightarrow> fst (tls_initialize calls cert key m) = Inr ()"
  by (auto simp: tls_initialize_def tls_enabled_def cleanup_def Let_def split: option.split)

subsection \<open>Properties\<close>

text \<open>C33 (tls_never_half_open): after any sequence of initialisations, failed ones included, and
  cleanups, TLS is enabled exactly when a context exists, every context that was ever created
  and is not the current one has been freed exactly once, in order, and no session is created
  while TLS is off. After an initialisation TLS is enabled exactly when it returned without
  throwing, that is, when the context was created, both files were accepted and they match.\<close>

theorem tls_never_half_open:
  assumes "tls_step\<^sup>*\<^sup>* new_tls_manager m"
  shows "(tls_enabled m \<longleftrightarrow> context_ptr m \<noteq> None) \<and>
    created m = freed m @ (case context_ptr m of None \<Rightarrow> [] | Some c \<Rightarrow> [c]) \<and>
    (\<not> tls_enabled m \<longrightarrow> create_session ssl_new ssl_set_fd q fd m = (Inr None, [])) \<and>
    (tls_enabled (snd (tls_initialize calls cert key m)) \<longleftrightarrow> fst (tls_initialize calls cert key m) = Inr ()) \<and>
    (fst (tls_initialize calls cert key m) = Inr () \<longleftrightarrow>
      (\<exists>c. ctx_new calls = Some c \<and> certificate_result calls c cert = 1 \<and>
         private_key_result calls c key = 1 \<and> check_result calls c = 1))"
  using tls_reachable_inv [OF assms new_tls_manager_inv]
  by (simp add: tls_inv_def tls_enabled_def create_session_def tls_initialize_enabled_iff
      [unfolded tls_enabled_def] tls_initialize_ok_iff split: option.split)

definition failing_calls :: init_calls where
  "failing_calls = \<lparr>ctx_new = Some 7, min_version_result = (\<lambda>_. 1), certificate_result = (\<lambda>_ _. 1), private_key_result = (\<lambda>_ _. 0),
     check_result = (\<lambda>_. 1), error_queue = None\<rparr>"

theorem tls_never_half_open_witness:
  "\<not> tls_enabled (snd (tls_initialize failing_calls ''cert.pem'' ''key.pem'' new_tls_manager)) \<and>
   created (snd (tls_initialize failing_calls ''cert.pem'' ''key.pem'' new_tls_manager)) = [7] \<and>
   freed (snd (tls_initialize failing_calls ''cert.pem'' ''key.pem'' new_tls_manager)) = [7]"
  using tls_never_half_open [OF r_into_rtranclp [of tls_step,
      OF step_initialize [of new_tls_manager failing_calls "''cert.pem''" "''key.pem''"]]]
  by (simp add: tls_initialize_def failing_calls_def new_tls_manager_def cleanup_def Let_def)

text \<open>
  The restriction to TLS 1.2 is not assured: an initialisation whose call of
  \<open>SSL_CTX_set_min_proto_version\<close> fails enables TLS with a context that was never restricted.
\<close>

lemma unrestricted_tls_enabled:
  assumes "ctx_new calls = Some c" "min_version_result calls c \<noteq> 1"
    and "certificate_result calls c cert = 1" "private_key_result calls c key = 1" "check_result calls c = 1"
  shows "fst (tls_initialize calls cert key m) = Inr () \<and>
    tls_enabled (snd (tls_initialize calls cert key m)) \<and>
    context_ptr (snd (tls_initialize calls cert key m)) = Some c \<and>
    restricted (snd (tls_initialize calls cert key m)) = restricted m"
  using assms by (simp add: tls_initialize_def Let_def tls_enabled_def cleanup_def split: option.split)

text \<open>A session that was created is either returned ready to accept, or freed.\<close>

lemma create_session_no_leak:
  assumes "create_session ssl_new ssl_set_fd q fd m = (r, calls)" "context_ptr m = Some c" "ssl_new c = Some ssl"
  shows "tls_on m \<longrightarrow> (r = Inr (Some ssl) \<and> SSL_set_accept_state ssl \<in> set calls \<and> SSL_free ssl \<notin> set calls) \<or>
    (\<exists>e. r = Inl e) \<and> last calls = SSL_free ssl"
  using assms by (auto simp: create_session_def split: if_splits)

end
