(* ===== verification/Server.thy ===== *)
theory Server
  imports Command Framing Auth Replication Thread_Pool Tls
begin

section \<open>The server\<close>

text \<open>
  \<open>src/server.cpp\<close> and \<open>include/server.hpp\<close>. Every handler is a function on the server
  record; what the sockets do is its argument, a script of the outcomes of the system calls
  to come (an exhausted script is a socket that would block). \<open>None\<close> stands for the undefined
  behaviour of \<open>Framing\<close>. Three fields record what the operating system has seen:
  the descriptors opened and closed, and the bytes sent on each descriptor.
\<close>

subsection \<open>State\<close>

record client =
  client_fd :: int
  input_buffer :: string
  output_buffer :: string
  authenticated :: bool
  username :: string
  client_tls :: bool
  tls_handshake_completed :: bool

record server =
  port :: int
  server_fd :: int
  running :: bool
  core :: dispatcher
  auth_state :: auth_manager
  thread_pool :: "unit pool"
  tls_state :: tls_manager
  replication :: replication_state
  clients :: "(int \<times> client) list"
  opened_fds :: "int list"
  closed_fds :: "int list"
  wire :: "int \<Rightarrow> string"

definition new_server :: "(string \<Rightarrow> string) \<Rightarrow> nat \<Rightarrow> int \<Rightarrow> disk \<Rightarrow> clock \<Rightarrow> server" where
  "new_server sha cpus p d clk =
     \<lparr>port = p, server_fd = -1, running = False,
      core = \<lparr>dp_database = empty_database, dp_persistence = new_persistence ''data'' d, dp_clock = clk\<rparr>,
      auth_state = new_auth_manager sha, thread_pool = new_pool cpus, tls_state = new_tls_manager,
      replication = new_replication_state, clients = [], opened_fds = [], closed_fds = [], wire = (\<lambda>_. [])\<rparr>"

definition max_request_size :: nat where
  "max_request_size = 1024 * 1024"

definition put_client :: "int \<Rightarrow> client \<Rightarrow> server \<Rightarrow> server" where
  "put_client fd c s = s\<lparr>clients := AList.update fd c (clients s)\<rparr>"

subsection \<open>The listener\<close>

record listen_calls =
  socket_ret :: "string + int"
  setsockopt_err :: "string option"
  getfl_err :: "string option"
  setfl_err :: "string option"
  bind_err :: "string option"
  listen_err :: "string option"

text \<open>Each field is the error text of a call, or \<open>None\<close>; \<open>set_non_blocking_fd\<close> makes two \<open>fcntl\<close>
  calls and fails with the error of the first that does.\<close>

definition set_non_blocking_fd :: "string option \<Rightarrow> string option \<Rightarrow> string option" where
  "set_non_blocking_fd getfl setfl = (case getfl of Some m \<Rightarrow> Some m | None \<Rightarrow> setfl)"

definition abandon_listener :: "string \<Rightarrow> server \<Rightarrow> (string + unit) \<times> server" where
  "abandon_listener m s = (Inl m, s\<lparr>closed_fds := closed_fds s @ [server_fd s], server_fd := -1\<rparr>)"

definition setup_listener :: "listen_calls \<Rightarrow> server \<Rightarrow> (string + unit) \<times> server" where
  "setup_listener calls s =
     (case socket_ret calls of
        Inl m \<Rightarrow> (Inl (''Failed to create socket: '' @ m), s\<lparr>server_fd := -1\<rparr>)
      | Inr fd \<Rightarrow>
          (let s = s\<lparr>server_fd := fd, opened_fds := opened_fds s @ [fd]\<rparr>
           in case setsockopt_err calls of
               Some m \<Rightarrow> abandon_listener (''Failed to set SO_REUSEADDR: '' @ m) s
             | None \<Rightarrow>
                 (case set_non_blocking_fd (getfl_err calls) (setfl_err calls) of
                    Some m \<Rightarrow> abandon_listener (''Failed to set server socket non-blocking: '' @ m) s
                  | None \<Rightarrow>
                      (case bind_err calls of
                         Some m \<Rightarrow> abandon_listener (''Failed to bind server socket: '' @ m) s
                       | None \<Rightarrow>
                           (case listen_err calls of
                              Some m \<Rightarrow> abandon_listener (''Failed to listen on server socket: '' @ m) s
                            | None \<Rightarrow> (Inr (), s))))))"

datatype accept_result = Accepted int bool | Accept_again | Accept_intr | Accept_error string

text \<open>\<open>Accepted fd ok\<close>: the new descriptor, and whether it could be made non-blocking.\<close>

definition new_client :: "int \<Rightarrow> client" where
  "new_client fd =
     \<lparr>client_fd = fd, input_buffer = [], output_buffer = [], authenticated = True, username = [],
      client_tls = False, tls_handshake_completed = False\<rparr>"

fun accept_clients :: "accept_result list \<Rightarrow> server \<Rightarrow> server \<times> accept_result list" where
  "accept_clients [] s = (s, [])"
| "accept_clients (e # es) s =
     (if \<not> running s then (s, e # es)
      else case e of
          Accept_again \<Rightarrow> (s, es)
        | Accept_intr \<Rightarrow> accept_clients es s
        | Accept_error m \<Rightarrow> (s, es)
        | Accepted fd ok \<Rightarrow>
            (let s = s\<lparr>opened_fds := opened_fds s @ [fd]\<rparr>
             in if \<not> ok then accept_clients es (s\<lparr>closed_fds := closed_fds s @ [fd]\<rparr>)
                else accept_clients es (s\<lparr>clients := emplace fd (new_client fd) (clients s)\<rparr>)))"

definition close_client :: "int \<Rightarrow> server \<Rightarrow> server" where
  "close_client fd s =
     (case map_of (clients s) fd of
        None \<Rightarrow> s
      | Some c \<Rightarrow> s\<lparr>closed_fds := closed_fds s @ [fd], clients := AList.delete fd (clients s)\<rparr>)"

subsection \<open>Commands\<close>

definition server_execute_command :: "client \<Rightarrow> string \<Rightarrow> server \<Rightarrow> string \<times> server" where
  "server_execute_command c request s =
     (case execute request (core s) of (response, d) \<Rightarrow> (response, s\<lparr>core := d\<rparr>))"

definition execute_auth_command :: "client \<Rightarrow> string list \<Rightarrow> string" where
  "execute_auth_command c command = ''-ERR authentication is not implemented'' @ CRLF"

definition command_allowed_without_auth :: "string list \<Rightarrow> bool" where
  "command_allowed_without_auth command \<longleftrightarrow>
     (if command = [] then False
      else command ! 0 = ''AUTH'' \<or> command ! 0 = ''PING'' \<or> command ! 0 = ''QUIT'')"

text \<open>The loop of \<open>process_client_buffer\<close> over the requests.\<close>

fun answer_all :: "string list \<Rightarrow> client \<Rightarrow> server \<Rightarrow> client \<times> server" where
  "answer_all [] c s = (c, s)"
| "answer_all (request # requests) c s =
     (case server_execute_command c request s of (response, s') \<Rightarrow>
        answer_all requests (c\<lparr>output_buffer := output_buffer c @ response\<rparr>) s')"

definition process_client_buffer :: "client \<Rightarrow> server \<Rightarrow> (client \<times> server) option" where
  "process_client_buffer c s =
     (case extract_requests (input_buffer c) of
        None \<Rightarrow> None
      | Some (requests, buffer) \<Rightarrow> Some (answer_all requests (c\<lparr>input_buffer := buffer\<rparr>) s))"

subsection \<open>Reading and writing\<close>

text \<open>\<open>Received []\<close> is an orderly close by the peer (\<open>recv\<close> returns 0).\<close>

datatype recv_result = Received string | Recv_intr | Recv_again | Recv_error string

fun recv_loop ::
  "int \<Rightarrow> client \<Rightarrow> recv_result list \<Rightarrow> server \<Rightarrow> (server \<times> recv_result list) option" where
  "recv_loop fd c [] s = Some (s, [])"
| "recv_loop fd c (Received b # es) s =
     (if b = [] then Some (close_client fd s, es)
      else let c' = c\<lparr>input_buffer := input_buffer c @ b\<rparr>
        in if max_request_size < length (input_buffer c')
           then Some (close_client fd (put_client fd
                  (c'\<lparr>output_buffer := ''-ERR request too large'' @ CRLF\<rparr>) s), es)
           else case process_client_buffer c' s of
               None \<Rightarrow> None
             | Some (c'', s') \<Rightarrow> recv_loop fd c'' es (put_client fd c'' s'))"
| "recv_loop fd c (Recv_intr # es) s = recv_loop fd c es s"
| "recv_loop fd c (Recv_again # es) s = Some (s, es)"
| "recv_loop fd c (Recv_error m # es) s = Some (close_client fd s, es)"

definition handle_read :: "int \<Rightarrow> recv_result list \<Rightarrow> server \<Rightarrow> (server \<times> recv_result list) option" where
  "handle_read fd es s =
     (case map_of (clients s) fd of None \<Rightarrow> Some (s, es) | Some c \<Rightarrow> recv_loop fd c es s)"

text \<open>\<open>Sent n\<close>: \<open>send\<close> accepted \<open>n\<close> bytes, or all of them if there were fewer.\<close>

datatype send_result = Sent nat | Send_intr | Send_again | Send_error string

fun send_loop :: "int \<Rightarrow> client \<Rightarrow> send_result list \<Rightarrow> server \<Rightarrow> server \<times> send_result list" where
  "send_loop fd c [] s = (s, [])"
| "send_loop fd c (e # es) s =
     (if output_buffer c = [] then (s, e # es)
      else case e of
          Sent n \<Rightarrow>
            (let k = min n (length (output_buffer c))
             in if 0 < k
                then let c' = c\<lparr>output_buffer := drop k (output_buffer c)\<rparr>
                  in send_loop fd c' es (put_client fd c'
                       (s\<lparr>wire := (wire s)(fd := wire s fd @ take k (output_buffer c))\<rparr>))
                else (close_client fd s, es))
        | Send_intr \<Rightarrow> send_loop fd c es s
        | Send_again \<Rightarrow> (s, es)
        | Send_error m \<Rightarrow> (close_client fd s, es))"

definition handle_write :: "int \<Rightarrow> send_result list \<Rightarrow> server \<Rightarrow> server \<times> send_result list" where
  "handle_write fd es s =
     (case map_of (clients s) fd of None \<Rightarrow> (s, es) | Some c \<Rightarrow> send_loop fd c es s)"

definition handle_plain_read ::
  "client \<Rightarrow> recv_result list \<Rightarrow> server \<Rightarrow> (server \<times> recv_result list) option" where
  "handle_plain_read c = handle_read (client_fd c)"

definition handle_plain_write :: "client \<Rightarrow> send_result list \<Rightarrow> server \<Rightarrow> server \<times> send_result list" where
  "handle_plain_write c = handle_write (client_fd c)"

definition handle_tls_read ::
  "client \<Rightarrow> recv_result list \<Rightarrow> server \<Rightarrow> (server \<times> recv_result list) option" where
  "handle_tls_read c = handle_plain_read c"

definition handle_tls_write :: "client \<Rightarrow> send_result list \<Rightarrow> server \<Rightarrow> server \<times> send_result list" where
  "handle_tls_write c = handle_plain_write c"

subsection \<open>The poll loop\<close>

text \<open>What one call of \<open>poll\<close> reports, with the scripts of the calls that follow from it.\<close>

record fd_events =
  ev_error :: bool
  ev_in :: bool
  ev_out :: bool
  recvs :: "recv_result list"
  sends :: "send_result list"

datatype poll_outcome =
    Poll_intr | Poll_failed | Poll_timeout
  | Poll_ready bool bool "accept_result list" "int \<Rightarrow> fd_events"

text \<open>The poll entries of the clients: the descriptor, and whether POLLOUT is asked for.\<close>

definition poll_list :: "server \<Rightarrow> (int \<times> bool) list" where
  "poll_list s = map (\<lambda>(fd, c). (fd, output_buffer c \<noteq> [])) (clients s)"

definition serve_fd :: "int \<Rightarrow> bool \<Rightarrow> fd_events \<Rightarrow> server \<Rightarrow> server option" where
  "serve_fd fd want_out ev s =
     (if map_of (clients s) fd = None then Some s
      else if ev_error ev then Some (close_client fd s)
      else case (if ev_in ev then map_option fst (handle_read fd (recvs ev) s) else Some s) of
          None \<Rightarrow> None
        | Some s' \<Rightarrow>
            if map_of (clients s') fd = None then Some s'
            else if ev_out ev \<and> want_out then Some (fst (handle_write fd (sends ev) s'))
            else Some s')"

fun serve_fds :: "(int \<times> bool) list \<Rightarrow> (int \<Rightarrow> fd_events) \<Rightarrow> server \<Rightarrow> server option" where
  "serve_fds [] evs s = Some s"
| "serve_fds ((fd, want_out) # fds) evs s =
     (case serve_fd fd want_out (evs fd) s of None \<Rightarrow> None | Some s' \<Rightarrow> serve_fds fds evs s')"

text \<open>One round of the loop in \<open>run\<close>: whether it goes on, and the new state.\<close>

definition poll_round :: "poll_outcome \<Rightarrow> server \<Rightarrow> (bool \<times> server) option" where
  "poll_round outcome s =
     (case outcome of
        Poll_intr \<Rightarrow> Some (True, s)
      | Poll_failed \<Rightarrow> Some (False, s)
      | Poll_timeout \<Rightarrow> Some (True, s)
      | Poll_ready listener_in listener_error accepts evs \<Rightarrow>
          (let fds = poll_list s;
               s' = (if listener_in then fst (accept_clients accepts s) else s)
           in if listener_error then Some (False, s')
              else map_option (Pair True) (serve_fds fds evs s')))"

text \<open>
  The loop, on the outcomes of the next calls of \<open>poll\<close>: it has ended, or the outcomes have run
  out and it is still polling. So a script stands for a finite part of an execution.
\<close>

datatype loop_state = Ended | Still_polling

fun main_loop :: "poll_outcome list \<Rightarrow> server \<Rightarrow> (loop_state \<times> server) option" where
  "main_loop [] s = Some (if running s then Still_polling else Ended, s)"
| "main_loop (outcome # outcomes) s =
     (if \<not> running s then Some (Ended, s)
      else case poll_round outcome s of
          None \<Rightarrow> None
        | Some (True, s') \<Rightarrow> main_loop outcomes s'
        | Some (False, s') \<Rightarrow> Some (Ended, s'))"

definition initialize_persistence :: "server \<Rightarrow> (string + unit) \<times> server" where
  "initialize_persistence s =
     (case initialize (dp_persistence (core s)) of
        (Inl e, pm) \<Rightarrow> (Inl e, s\<lparr>core := (core s)\<lparr>dp_persistence := pm\<rparr>\<rparr>)
      | (Inr _, pm) \<Rightarrow>
          (case recover (dp_database (core s)) pm of
             (r, db, pm') \<Rightarrow> (r, s\<lparr>core := (core s)\<lparr>dp_database := db, dp_persistence := pm'\<rparr>\<rparr>)))"

definition initialize_replication :: "server \<Rightarrow> server" where
  "initialize_replication s = s"

definition publish_write_command :: "string \<Rightarrow> server \<Rightarrow> server" where
  "publish_write_command request s = s"

definition update_poll_events :: "server \<Rightarrow> server" where
  "update_poll_events s = s"

text \<open>The end of \<open>run\<close>, and of the destructor: an exception of \<open>flush\<close> skips \<open>close\<close>.\<close>

definition shutdown_persistence :: "server \<Rightarrow> server" where
  "shutdown_persistence s =
     (case flush (dp_persistence (core s)) of
        (Inl e, pm) \<Rightarrow> s\<lparr>core := (core s)\<lparr>dp_persistence := pm\<rparr>\<rparr>
      | (Inr _, pm) \<Rightarrow> s\<lparr>core := (core s)\<lparr>dp_persistence := close pm\<rparr>\<rparr>)"

text \<open>\<open>run\<close> has thrown, has returned, or is in its loop.\<close>

datatype run_state = Threw string | Returned | Polling

definition run :: "listen_calls \<Rightarrow> poll_outcome list \<Rightarrow> server \<Rightarrow> (run_state \<times> server) option" where
  "run calls outcomes s =
     (if running s then Some (Returned, s)
      else case initialize_persistence s of
          (Inl e, s1) \<Rightarrow> Some (Threw e, s1)
        | (Inr _, s1) \<Rightarrow>
            (case setup_listener calls (initialize_replication s1) of
               (Inl e, s2) \<Rightarrow> Some (Threw e, s2)
             | (Inr _, s2) \<Rightarrow>
                 (case main_loop outcomes (s2\<lparr>running := True\<rparr>) of
                    None \<Rightarrow> None
                  | Some (Still_polling, s3) \<Rightarrow> Some (Polling, s3)
                  | Some (Ended, s3) \<Rightarrow>
                      Some (Returned, shutdown_persistence (s3\<lparr>running := False\<rparr>)))))"

definition stop :: "server \<Rightarrow> server" where
  "stop s = s\<lparr>running := False\<rparr>"

definition server_destructor :: "server \<Rightarrow> server" where
  "server_destructor s0 =
     (let s = shutdown_persistence (stop s0);
          fds = filter (\<lambda>fd. 0 \<le> fd) (map (\<lambda>(_, c). client_fd c) (clients s));
          s = s\<lparr>closed_fds := closed_fds s @ fds, clients := []\<rparr>
      in if 0 \<le> server_fd s
         then s\<lparr>closed_fds := closed_fds s @ [server_fd s], server_fd := -1\<rparr> else s)"

text \<open>
  The destructors of the members, which run after the body: \<open>~PersistenceManager\<close> closes the
  log, again where the body has skipped it; \<open>~TLSManager\<close> cleans up; \<open>~ThreadPool\<close> shuts the
  pool down, to which the server gives no job.
\<close>

definition destroy_members :: "server \<Rightarrow> server" where
  "destroy_members s =
     s\<lparr>core := (core s)\<lparr>dp_persistence := close (dp_persistence (core s))\<rparr>,
       tls_state := cleanup (tls_state s), thread_pool := shutdown_idle (thread_pool s)\<rparr>"

text \<open>
  \<open>main\<close> of \<open>src/main_server.cpp\<close>: the exit code, or \<open>None\<close> while \<open>run\<close> is polling; the
  server object is destroyed whether \<open>run\<close> has returned or thrown.
\<close>

definition server_main ::
  "(string \<Rightarrow> string) \<Rightarrow> nat \<Rightarrow> disk \<Rightarrow> clock \<Rightarrow> listen_calls \<Rightarrow> poll_outcome list \<Rightarrow>
     (int option \<times> server) option" where
  "server_main sha cpus d clk calls outcomes =
     (case run calls outcomes (new_server sha cpus 6379 d clk) of
        None \<Rightarrow> None
      | Some (Threw e, s) \<Rightarrow> Some (Some 1, destroy_members (server_destructor s))
      | Some (Returned, s) \<Rightarrow> Some (Some 0, destroy_members (server_destructor s))
      | Some (Polling, s) \<Rightarrow> Some (None, s))"

subsection \<open>Answering a list of requests\<close>

lemma run_requests_append:
  "run_requests (xs @ ys) d =
     (fst (run_requests xs d) @ fst (run_requests ys (snd (run_requests xs d))),
      snd (run_requests ys (snd (run_requests xs d))))"
  by (induction xs arbitrary: d) (auto split: prod.splits)

lemma answer_all_run:
  "answer_all rs c s =
     (c\<lparr>output_buffer := output_buffer c @ concat (fst (run_requests rs (core s)))\<rparr>,
      s\<lparr>core := snd (run_requests rs (core s))\<rparr>)"
  by (induction rs arbitrary: c s) (auto simp: server_execute_command_def split: prod.split)

lemma map_of_put [simp]: "map_of (clients (put_client fd c s)) = (map_of (clients s))(fd \<mapsto> c)"
  by (simp add: put_client_def update_conv')

lemma put_client_simps [simp]:
  "core (put_client fd c s) = core s" "wire (put_client fd c s) = wire s"
  "closed_fds (put_client fd c s) = closed_fds s"
  by (simp_all add: put_client_def)

lemma map_of_close [simp]: "map_of (clients (close_client fd s)) = (map_of (clients s))(fd := None)"
  by (auto simp: close_client_def delete_conv' split: option.split)

lemma close_client_simps [simp]:
  "core (close_client fd s) = core s" "wire (close_client fd s) = wire s"
  by (auto simp: close_client_def split: option.split)

text \<open>
  Reading a list of chunks is feeding them to the framing component and answering what comes
  out, in order, as long as the buffer stays within its limit.
\<close>

lemma recv_loop_feed:
  assumes "feed extract_requests (input_buffer c) chunks = Some (rs, b)"
    and "\<forall>x \<in> set chunks. x \<noteq> []" "map_of (clients s) fd = Some c"
    and "\<forall>pre x post. chunks = pre @ x # post \<longrightarrow>
      (\<exists>rs' b'. feed extract_requests (input_buffer c) pre = Some (rs', b') \<and>
         length (b' @ x) \<le> max_request_size)"
  shows "\<exists>s'. recv_loop fd c (map Received chunks @ es) s =
      recv_loop fd (c\<lparr>input_buffer := b, output_buffer := output_buffer c @ concat (fst (run_requests rs (core s)))\<rparr>) es s' \<and>
    map_of (clients s') = (map_of (clients s))(fd \<mapsto>
      c\<lparr>input_buffer := b, output_buffer := output_buffer c @ concat (fst (run_requests rs (core s)))\<rparr>) \<and>
    core s' = snd (run_requests rs (core s)) \<and> wire s' = wire s \<and> closed_fds s' = closed_fds s"
  using assms
proof (induction chunks arbitrary: c s rs)
  case Nil
  then have "rs = []" "b = input_buffer c" by simp_all
  then have "c\<lparr>input_buffer := b, output_buffer := output_buffer c @ concat (fst (run_requests rs (core s)))\<rparr> = c"
    by simp
  then show ?case using Nil.prems(3) \<open>rs = []\<close> by (intro exI [where x = s]) auto
next
  case (Cons x xs)
  from Cons.prems(1) obtain rs1 b1 rs2 where 1: "extract_requests (input_buffer c @ x) = Some (rs1, b1)"
    "feed extract_requests b1 xs = Some (rs2, b)" "rs = rs1 @ rs2"
    by (auto split: option.splits)
  define d1 where "d1 = snd (run_requests rs1 (core s))"
  define out1 where "out1 = concat (fst (run_requests rs1 (core s)))"
  define c1 where "c1 = c\<lparr>input_buffer := b1, output_buffer := output_buffer c @ out1\<rparr>"
  define s1 where "s1 = put_client fd c1 (s\<lparr>core := d1\<rparr>)"
  have small: "length (input_buffer c @ x) \<le> max_request_size"
    using Cons.prems(4) [rule_format, of "[]" x xs] by simp
  have step: "recv_loop fd c (map Received (x # xs) @ es) s = recv_loop fd c1 (map Received xs @ es) s1"
    using Cons.prems(2) small 1(1)
    by (simp add: Let_def process_client_buffer_def answer_all_run c1_def s1_def d1_def out1_def)
  have lim: "\<forall>pre y post. xs = pre @ y # post \<longrightarrow>
      (\<exists>rs' b'. feed extract_requests (input_buffer c1) pre = Some (rs', b') \<and>
         length (b' @ y) \<le> max_request_size)"
  proof (intro allI impI)
    fix pre y post
    assume "xs = pre @ y # post"
    then show "\<exists>rs' b'. feed extract_requests (input_buffer c1) pre = Some (rs', b') \<and>
        length (b' @ y) \<le> max_request_size"
      using Cons.prems(4) [rule_format, of "x # pre" y post] 1(1)
      by (auto simp: c1_def split: option.splits)
  qed
  have fd1: "feed extract_requests (input_buffer c1) xs = Some (rs2, b)" using 1(2) by (simp add: c1_def)
  have ne1: "\<forall>x \<in> set xs. x \<noteq> []" using Cons.prems(2) by simp
  have m1: "map_of (clients s1) fd = Some c1" by (simp add: s1_def)
  from Cons.IH [OF fd1 ne1 m1 lim] obtain s' where s': "recv_loop fd c1 (map Received xs @ es) s1 =
      recv_loop fd (c1\<lparr>input_buffer := b, output_buffer := output_buffer c1 @ concat (fst (run_requests rs2 (core s1)))\<rparr>) es s'"
    "map_of (clients s') = (map_of (clients s1))(fd \<mapsto>
      c1\<lparr>input_buffer := b, output_buffer := output_buffer c1 @ concat (fst (run_requests rs2 (core s1)))\<rparr>)"
    "core s' = snd (run_requests rs2 (core s1))" "wire s' = wire s1" "closed_fds s' = closed_fds s1"
    by (elim exE conjE) (rule that)
  have "c1\<lparr>input_buffer := b, output_buffer := output_buffer c1 @ concat (fst (run_requests rs2 (core s1)))\<rparr> =
      c\<lparr>input_buffer := b, output_buffer := output_buffer c @ concat (fst (run_requests rs (core s)))\<rparr>"
    by (simp add: c1_def s1_def d1_def out1_def 1(3) run_requests_append)
  with s' step show ?case
    by (intro exI [where x = s'])
      (simp add: s1_def d1_def 1(3) run_requests_append del: recv_loop.simps)
qed

text \<open>For whole requests in chunks within the limit, from a client whose buffer is unfinished.\<close>

lemma recv_loop_frames:
  assumes "map_of (clients s) fd = Some c" "partial_frame frame (input_buffer c)"
    and "list_all frame fs" "partial_frame frame p" "input_buffer c @ concat chunks = concat fs @ p"
    and "chunks \<noteq> []" "\<forall>x \<in> set chunks. x \<noteq> []"
    and "length (input_buffer c @ concat chunks) \<le> max_request_size"
  shows "\<exists>s'. recv_loop fd c (map Received chunks @ es) s =
      recv_loop fd (c\<lparr>input_buffer := p, output_buffer := output_buffer c @ concat (fst (run_requests fs (core s)))\<rparr>) es s' \<and>
    map_of (clients s') = (map_of (clients s))(fd \<mapsto>
      c\<lparr>input_buffer := p, output_buffer := output_buffer c @ concat (fst (run_requests fs (core s)))\<rparr>) \<and>
    core s' = snd (run_requests fs (core s)) \<and> wire s' = wire s \<and> closed_fds s' = closed_fds s"
proof (rule recv_loop_feed)
  have max: "length (input_buffer c @ concat chunks) \<le> max_size"
    using assms(8) by (simp add: max_request_size_def max_size_def)
  show "feed extract_requests (input_buffer c) chunks = Some (fs, p)"
    using assms(2-6) max by (intro requests.feed_frames) auto
  show "\<forall>pre x post. chunks = pre @ x # post \<longrightarrow>
      (\<exists>rs' b'. feed extract_requests (input_buffer c) pre = Some (rs', b') \<and>
         length (b' @ x) \<le> max_request_size)"
  proof (intro allI impI)
    fix pre x post
    assume ch: "chunks = pre @ x # post"
    show "\<exists>rs' b'. feed extract_requests (input_buffer c) pre = Some (rs', b') \<and>
        length (b' @ x) \<le> max_request_size"
    proof (cases "pre = []")
      case True
      with assms(8) ch show ?thesis by simp
    next
      case False
      from requests.cut_frames [OF assms(3,4), of "input_buffer c @ concat pre" "x @ concat post"]
      obtain j q where j: "input_buffer c @ concat pre = concat (take j fs) @ q" "partial_frame frame q"
        using assms(5) ch by auto
      have "list_all frame (take j fs)" using assms(3) by (auto simp: list_all_iff dest: in_set_takeD)
      moreover have "length (input_buffer c @ concat pre) \<le> max_size" using max ch by simp
      ultimately have "feed extract_requests (input_buffer c) pre = Some (take j fs, q)"
        using j False assms(2) by (intro requests.feed_frames) auto
      moreover have "length q \<le> length (input_buffer c @ concat pre)" using j(1) by simp
      then have "length (q @ x) \<le> max_request_size" using assms(8) ch by simp
      ultimately show ?thesis by blast
    qed
  qed
qed (rule assms(7), rule assms(1))

subsection \<open>The invariant\<close>

text \<open>No descriptor is closed more often than it was opened: those closed, those of the clients
  and the listener are, with their multiplicities, among those opened.\<close>

definition listener_fds :: "server \<Rightarrow> int multiset" where
  "listener_fds s = (if 0 \<le> server_fd s then {#server_fd s#} else {#})"

definition fds_balance :: "server \<Rightarrow> bool" where
  "fds_balance s \<longleftrightarrow>
     mset (closed_fds s) + mset (map fst (clients s)) + listener_fds s \<subseteq># mset (opened_fds s)"

definition server_inv :: "server \<Rightarrow> bool" where
  "server_inv s \<longleftrightarrow> distinct (map fst (clients s)) \<and> db_wf (dp_database (core s)) \<and> fds_balance s \<and>
     (\<forall>fd c. map_of (clients s) fd = Some c \<longrightarrow>
        client_fd c = fd \<and> length (input_buffer c) \<le> max_request_size)"

lemma db_ttl_wf: "db_wf db \<Longrightarrow> db_wf (fst (snd (db_ttl k db clk)))"
  using remove_if_expired_wf [of db k clk]
  by (auto simp: db_ttl_def now_def Let_def split: prod.splits option.splits)

lemma execute_command_wf:
  "db_wf (dp_database d) \<Longrightarrow> db_wf (dp_database (snd (execute_command command args d)))"
proof (cases command rule: command_cases)
  case 2
  assume "db_wf (dp_database d)"
  then show ?thesis using dbs.inv_set by (simp add: 2 execute_command_def)
next
  case 3
  assume "db_wf (dp_database d)"
  then show ?thesis using dbs.inv_get by (auto simp: 3 execute_command_def split: prod.split)
next
  case 4
  assume "db_wf (dp_database d)"
  then show ?thesis using dbs.inv_del by (auto simp: 4 execute_command_def split: prod.split)
next
  case 5
  assume "db_wf (dp_database d)"
  then show ?thesis using dbs.inv_exists by (auto simp: 5 execute_command_def split: prod.split)
next
  case 6
  assume wf: "db_wf (dp_database d)"
  have "db_wf db" if "db_expire (args ! 0) n (dp_database d) (dp_clock d) = (db, clk)" for n db clk
    using db_expire_wf [OF wf, of "args ! 0" n "dp_clock d"] that by simp
  then show ?thesis using wf by (auto simp: 6 execute_command_def split: prod.split bool.split)
next
  case 7
  assume wf: "db_wf (dp_database d)"
  have "db_wf db" if "db_ttl (args ! 0) (dp_database d) (dp_clock d) = (n, db, clk)" for n db clk
    using db_ttl_wf [OF wf, of "args ! 0" "dp_clock d"] that by simp
  then show ?thesis using wf by (auto simp: 7 execute_command_def split: prod.split)
next
  case 8
  assume "db_wf (dp_database d)"
  then show ?thesis using execute_save_frame [of d] by (simp add: 8 execute_command_def)
qed (simp_all add: execute_command_def)

lemma execute_wf: "db_wf (dp_database d) \<Longrightarrow> db_wf (dp_database (snd (execute s d)))"
  using execute_command_wf by (auto simp: execute_def Let_def split: prod.split bool.split)

lemma run_requests_wf: "db_wf (dp_database d) \<Longrightarrow> db_wf (dp_database (snd (run_requests ss d)))"
proof (induction ss arbitrary: d)
  case (Cons s ss)
  from Cons.IH [OF execute_wf [OF Cons.prems, of s]] show ?case
    by (cases "execute s d") (auto split: prod.splits)
qed simp

text \<open>What stays in the buffer is never longer than what was there.\<close>

lemma scan_arguments_Malformed:
  "scan_arguments n b pos = Malformed r b' \<Longrightarrow> length b' \<le> length b"
  by (induction n b pos rule: scan_arguments.induct)
    (auto simp: Let_def split: if_splits option.splits bool.splits)

lemma extract_loop_length: "extract_loop b acc = Some (rs, b') \<Longrightarrow> length b' \<le> length b"
proof (induction b acc rule: extract_loop.induct)
  case (1 b acc)
  show ?case
  proof (cases "max_size < length b \<or> b = []")
    case True
    with "1.prems" show ?thesis by (auto simp: extract_loop.simps [of b] split: if_splits)
  next
    case False
    then have c: "\<not> max_size < length b" "b \<noteq> []" by auto
    show ?thesis
    proof (cases "find_crlf b 0")
      case None
      with "1.prems" c show ?thesis by (simp add: extract_loop.simps [of b] split: if_splits)
    next
      case (Some e)
      show ?thesis
      proof (cases "b ! 0 = CHR ''*''")
        case ne: False
        with "1.prems" c Some have "extract_loop (drop (e + 2) b) (acc @ [substr b 0 (e + 2)]) = Some (rs, b')"
          by (simp add: extract_loop.simps [of b])
        from "1.IH"(1) [OF c ne Some this] show ?thesis by simp
      next
        case star: True
        then have nn: "\<not> b ! 0 \<noteq> CHR ''*''" by simp
        show ?thesis
        proof (cases "parse_decimal b 1 e")
          case None
          with "1.prems" c Some star
          have "extract_loop (drop (e + 2) b) (acc @ [''-ERR invalid RESP array'' @ CRLF]) = Some (rs, b')"
            by (simp add: extract_loop.simps [of b])
          from "1.IH"(2) [OF c nn Some None this] show ?thesis by simp
        next
          case n: (Some n)
          show ?thesis
          proof (cases "scan_arguments n b (e + 2)")
            case (Complete pos)
            with "1.prems" c Some star n
            have "extract_loop (drop pos b) (acc @ [substr b 0 pos]) = Some (rs, b')"
              by (simp add: extract_loop.simps [of b])
            from "1.IH"(3) [OF c nn Some n Complete this] show ?thesis by simp
          qed (use "1.prems" c Some star n scan_arguments_Malformed in
              \<open>auto simp: extract_loop.simps [of b]\<close>)
        qed
      qed
    qed
  qed
qed

lemma server_invD:
  assumes "server_inv s" "map_of (clients s) fd = Some c"
  shows "client_fd c = fd" "length (input_buffer c) \<le> max_request_size"
  using assms by (auto simp: server_inv_def)

lemma listener_fds_frame [simp]:
  "listener_fds (s\<lparr>core := d\<rparr>) = listener_fds s" "listener_fds (s\<lparr>wire := w\<rparr>) = listener_fds s"
  "listener_fds (s\<lparr>running := r\<rparr>) = listener_fds s" "listener_fds (s\<lparr>clients := cs\<rparr>) = listener_fds s"
  "listener_fds (s\<lparr>opened_fds := fs\<rparr>) = listener_fds s" "listener_fds (s\<lparr>closed_fds := fs\<rparr>) = listener_fds s"
  "listener_fds (s\<lparr>server_fd := fd\<rparr>) = (if 0 \<le> fd then {#fd#} else {#})"
  by (simp_all add: listener_fds_def)

lemma fds_balance_frame [simp]:
  "fds_balance (s\<lparr>core := d\<rparr>) = fds_balance s" "fds_balance (s\<lparr>wire := w\<rparr>) = fds_balance s"
  "fds_balance (s\<lparr>running := r\<rparr>) = fds_balance s"
  by (simp_all add: fds_balance_def)

lemma put_client_balance:
  "map_of (clients s) fd \<noteq> None \<Longrightarrow> fds_balance (put_client fd c s) = fds_balance s"
  by (auto simp: fds_balance_def put_client_def update_keys map_of_eq_None_iff
      simp del: mset_map)

lemma put_client_inv:
  "server_inv s \<Longrightarrow> map_of (clients s) fd \<noteq> None \<Longrightarrow> client_fd c = fd \<Longrightarrow>
     length (input_buffer c) \<le> max_request_size \<Longrightarrow> server_inv (put_client fd c s)"
  using put_client_balance [of s fd c]
  by (auto simp: server_inv_def put_client_def update_conv' distinct_update)

lemma close_client_balance:
  assumes "fds_balance s" "distinct (map fst (clients s))"
  shows "fds_balance (close_client fd s)"
proof (cases "map_of (clients s) fd")
  case None
  with assms show ?thesis by (simp add: close_client_def)
next
  case (Some c)
  then have "fd \<in> set (map fst (clients s))" by (force dest: map_of_SomeD)
  then have "mset (map fst (clients s)) = add_mset fd (mset (removeAll fd (map fst (clients s))))"
    by (simp add: distinct_remove1_removeAll [OF assms(2), symmetric] del: mset_map)
  with assms(1) Some show ?thesis
    by (simp add: close_client_def fds_balance_def delete_keys del: mset_map)
qed

lemma close_client_inv: "server_inv s \<Longrightarrow> server_inv (close_client fd s)"
  unfolding server_inv_def map_of_close close_client_simps
  using close_client_balance [of s fd]
  by (auto simp: close_client_def distinct_delete simp del: map_of_eq_Some_iff split: option.split if_splits)

lemma close_put_client:
  "map_of (clients s) fd \<noteq> None \<Longrightarrow> close_client fd (put_client fd c s) = close_client fd s"
  by (auto simp: close_client_def put_client_def update_conv' delete_update_same)

text \<open>A descriptor that is opened may become the listener, be closed, or be dropped.\<close>

lemma fds_balance_listener:
  assumes "fds_balance s"
  shows "fds_balance (s\<lparr>server_fd := -1\<rparr>)" "fds_balance (s\<lparr>server_fd := fd, opened_fds := opened_fds s @ [fd]\<rparr>)"
    "fds_balance (s\<lparr>opened_fds := opened_fds s @ [fd], closed_fds := closed_fds s @ [fd], server_fd := -1\<rparr>)"
    "fds_balance (s\<lparr>opened_fds := opened_fds s @ [fd], closed_fds := closed_fds s @ [fd]\<rparr>)"
    "map fst cs = map fst (clients s) \<or> map fst cs = map fst (clients s) @ [fd] \<Longrightarrow>
       fds_balance (s\<lparr>opened_fds := opened_fds s @ [fd], clients := cs\<rparr>)"
proof -
  have sub: "mset (closed_fds s) + mset (map fst (clients s)) \<subseteq># mset (opened_fds s)"
    using assms unfolding fds_balance_def by (meson mset_subset_eq_add_left subset_mset.order_trans)
  then have more: "mset (closed_fds s) + mset (map fst (clients s)) \<subseteq># add_mset fd (mset (opened_fds s))"
    by (metis add_mset_add_single mset_subset_eq_add_left subset_mset.order_trans)
  from sub more show "fds_balance (s\<lparr>server_fd := -1\<rparr>)"
    "fds_balance (s\<lparr>server_fd := fd, opened_fds := opened_fds s @ [fd]\<rparr>)"
    "fds_balance (s\<lparr>opened_fds := opened_fds s @ [fd], closed_fds := closed_fds s @ [fd], server_fd := -1\<rparr>)"
    by (simp_all add: fds_balance_def del: mset_map)
  have all: "mset (closed_fds s) + mset (map fst (clients s)) + listener_fds s \<subseteq># add_mset fd (mset (opened_fds s))"
    using assms unfolding fds_balance_def
    by (metis add_mset_add_single mset_subset_eq_add_left subset_mset.order_trans)
  from assms show "fds_balance (s\<lparr>opened_fds := opened_fds s @ [fd], closed_fds := closed_fds s @ [fd]\<rparr>)"
    by (simp add: fds_balance_def add.assoc del: mset_map)
  show "fds_balance (s\<lparr>opened_fds := opened_fds s @ [fd], clients := cs\<rparr>)"
    if "map fst cs = map fst (clients s) \<or> map fst cs = map fst (clients s) @ [fd]"
    using that all assms by (auto simp: fds_balance_def add.assoc simp del: mset_map)
qed

lemma frame_inv:
  "server_inv s \<Longrightarrow> clients s' = clients s \<Longrightarrow> core s' = core s \<Longrightarrow> opened_fds s' = opened_fds s \<Longrightarrow>
     closed_fds s' = closed_fds s \<Longrightarrow> server_fd s' = server_fd s \<Longrightarrow> server_inv s'"
  by (auto simp: server_inv_def fds_balance_def listener_fds_def simp del: mset_map split: if_splits)

lemma process_client_buffer_inv:
  assumes "process_client_buffer c s = Some (c', s')" "server_inv s"
    and "length (input_buffer c) \<le> max_request_size"
  shows "server_inv s' \<and> client_fd c' = client_fd c \<and> length (input_buffer c') \<le> max_request_size"
proof -
  from assms(1) obtain rs b where ex: "extract_requests (input_buffer c) = Some (rs, b)"
    and r: "answer_all rs (c\<lparr>input_buffer := b\<rparr>) s = (c', s')"
    by (auto simp: process_client_buffer_def split: option.splits)
  have "length b \<le> length (input_buffer c)"
    using ex unfolding extract_requests_def by (rule extract_loop_length)
  with r assms(2,3) run_requests_wf [of "core s" rs] show ?thesis
    by (auto simp: answer_all_run server_inv_def)
qed

lemma process_client_buffer_clients:
  "process_client_buffer c s = Some (c', s') \<Longrightarrow> clients s' = clients s"
  by (auto simp: process_client_buffer_def answer_all_run split: option.splits)

lemma recv_loop_inv:
  "recv_loop fd c es s = Some (s', es') \<Longrightarrow> server_inv s \<Longrightarrow> map_of (clients s) fd \<noteq> None \<Longrightarrow>
     client_fd c = fd \<Longrightarrow> server_inv s'"
proof (induction fd c es s rule: recv_loop.induct)
  case (2 fd c b es s)
  define c1 where "c1 = c\<lparr>input_buffer := input_buffer c @ b\<rparr>"
  show ?case
  proof (cases "b = [] \<or> max_request_size < length (input_buffer c1)")
    case True
    with "2.prems" show ?thesis
      by (auto simp: c1_def Let_def close_client_inv close_put_client split: if_splits)
  next
    case False
    with "2.prems"(1) obtain c2 s2 where pc: "process_client_buffer c1 s = Some (c2, s2)"
      and rest: "recv_loop fd c2 es (put_client fd c2 s2) = Some (s', es')"
      by (auto simp: c1_def Let_def split: option.splits)
    from process_client_buffer_inv [OF pc "2.prems"(2)] False "2.prems"(4)
    have "server_inv s2" "client_fd c2 = fd" "length (input_buffer c2) \<le> max_request_size"
      by (auto simp: c1_def)
    moreover have "map_of (clients s2) fd \<noteq> None"
      using process_client_buffer_clients [OF pc] "2.prems"(3) by simp
    ultimately have "server_inv (put_client fd c2 s2)" "client_fd c2 = fd"
      "map_of (clients (put_client fd c2 s2)) fd \<noteq> None" using put_client_inv by simp_all
    with "2.IH" [OF _ c1_def _ pc [unfolded c1_def [symmetric]] refl rest] False show ?thesis
      by simp
  qed
qed (auto intro: close_client_inv)

lemma handle_read_inv: "handle_read fd es s = Some (s', es') \<Longrightarrow> server_inv s \<Longrightarrow> server_inv s'"
  by (auto simp: handle_read_def split: option.splits dest: recv_loop_inv server_invD)

lemma send_loop_inv:
  "server_inv s \<Longrightarrow> client_fd c = fd \<Longrightarrow> length (input_buffer c) \<le> max_request_size \<Longrightarrow>
     map_of (clients s) fd \<noteq> None \<Longrightarrow> server_inv (fst (send_loop fd c es s))"
proof (induction es arbitrary: c s)
  case (Cons e es)
  show ?case
  proof (cases e)
    case (Sent n)
    let ?k = "min n (length (output_buffer c))"
    let ?c = "c\<lparr>output_buffer := drop ?k (output_buffer c)\<rparr>"
    let ?s = "s\<lparr>wire := (wire s)(fd := wire s fd @ take ?k (output_buffer c))\<rparr>"
    have "server_inv ?s" by (rule frame_inv [OF Cons.prems(1)]) simp_all
    then have "server_inv (put_client fd ?c ?s)"
      using Cons.prems(2-4) by (intro put_client_inv) simp_all
    from Cons.IH [OF this] Cons.prems show ?thesis
      by (simp add: Sent Let_def close_client_inv)
  qed (use Cons in \<open>simp_all add: close_client_inv\<close>)
qed simp

lemma handle_write_inv: "server_inv s \<Longrightarrow> server_inv (fst (handle_write fd es s))"
  by (auto simp: handle_write_def split: option.splits intro: send_loop_inv dest: server_invD)

lemma accept_clients_inv: "server_inv s \<Longrightarrow> server_inv (fst (accept_clients es s))"
proof (induction es arbitrary: s)
  case (Cons e es)
  show ?case
  proof (cases e)
    case (Accepted fd ok)
    let ?s = "s\<lparr>opened_fds := opened_fds s @ [fd]\<rparr>"
    have bal: "fds_balance s" using Cons.prems by (simp add: server_inv_def)
    have "server_inv (?s\<lparr>closed_fds := closed_fds s @ [fd]\<rparr>)"
      using Cons.prems fds_balance_listener(4) [OF bal, of fd] by (simp add: server_inv_def)
    moreover have "map fst (emplace fd (new_client fd) (clients s)) = map fst (clients s) \<or>
        map fst (emplace fd (new_client fd) (clients s)) = map fst (clients s) @ [fd]"
      by (auto simp: emplace_def update_keys split: option.split)
    from fds_balance_listener(5) [OF bal this]
    have "server_inv (?s\<lparr>clients := emplace fd (new_client fd) (clients s)\<rparr>)"
      using Cons.prems by (auto simp: server_inv_def map_of_emplace new_client_def split: if_splits)
    ultimately show ?thesis using Cons by (simp add: Accepted Let_def)
  qed (use Cons in simp_all)
qed simp

subsection \<open>Handler steps and the poll loop\<close>

inductive server_step :: "server \<Rightarrow> server \<Rightarrow> bool" where
  step_accept: "server_step s (fst (accept_clients es s))"
| step_read: "handle_read fd es s = Some (s', es') \<Longrightarrow> server_step s s'"
| step_write: "server_step s (fst (handle_write fd es s))"
| step_close: "server_step s (close_client fd s)"

lemma server_step_inv: "server_step s s' \<Longrightarrow> server_inv s \<Longrightarrow> server_inv s'"
  by (induction rule: server_step.induct)
    (auto intro: accept_clients_inv handle_read_inv handle_write_inv close_client_inv)

lemma server_steps_inv: "server_step\<^sup>*\<^sup>* s s' \<Longrightarrow> server_inv s \<Longrightarrow> server_inv s'"
  by (induction rule: rtranclp_induct) (auto intro: server_step_inv)

text \<open>A round of the poll loop is a sequence of handler steps, and so is the whole loop.\<close>

lemma serve_fd_steps: "serve_fd fd want ev s = Some s' \<Longrightarrow> server_step\<^sup>*\<^sup>* s s'"
proof -
  assume a: "serve_fd fd want ev s = Some s'"
  have w: "server_step\<^sup>*\<^sup>* s (fst (handle_write fd (sends ev) s1))" if "server_step\<^sup>*\<^sup>* s s1" for s1
    using that step_write rtranclp.rtrancl_into_rtrancl by metis
  have r: "server_step\<^sup>*\<^sup>* s s1" if "handle_read fd (recvs ev) s = Some (s1, es')" for s1 es'
    using that step_read r_into_rtranclp by metis
  have c: "server_step\<^sup>*\<^sup>* s (close_client fd s)" using step_close by blast
  from a w r c show ?thesis
    by (auto simp: serve_fd_def split: if_splits option.splits)
qed

lemma serve_fds_steps: "serve_fds fds evs s = Some s' \<Longrightarrow> server_step\<^sup>*\<^sup>* s s'"
proof (induction fds evs s rule: serve_fds.induct)
  case (2 fd want fds evs s)
  then show ?case by (auto split: option.splits dest: serve_fd_steps intro: rtranclp_trans)
qed simp

lemma poll_round_steps: "poll_round outcome s = Some (b, s') \<Longrightarrow> server_step\<^sup>*\<^sup>* s s'"
proof -
  assume a: "poll_round outcome s = Some (b, s')"
  have acc: "server_step\<^sup>*\<^sup>* s (fst (accept_clients es s))" for es using step_accept by blast
  have two: "server_step\<^sup>*\<^sup>* s s'" if "serve_fds fds evs (fst (accept_clients es s)) = Some s'" for fds evs es
    using rtranclp_trans [OF acc serve_fds_steps [OF that]] .
  from acc two serve_fds_steps show ?thesis
    using a by (auto simp: poll_round_def Let_def split: poll_outcome.splits if_splits)
qed

lemma main_loop_steps: "main_loop outcomes s = Some (e, s') \<Longrightarrow> server_step\<^sup>*\<^sup>* s s'"
proof (induction outcomes s rule: main_loop.induct)
  case (2 outcome outcomes s)
  then show ?case
    by (auto split: if_splits option.splits bool.splits dest: poll_round_steps intro: rtranclp_trans)
qed simp

lemma restore_entries_wf: "restore_entries n db st = (r, db', st') \<Longrightarrow> db_wf db \<Longrightarrow> db_wf db'"
  by (induction n arbitrary: db st) (auto split: prod.splits sum.splits)

lemma recover_wf: "recover db pm = (r, db', pm') \<Longrightarrow> db_wf db \<Longrightarrow> db_wf db'"
proof -
  assume r: "recover db pm = (r, db', pm')" and wf: "db_wf db"
  have snap: "db_wf d'" if "read_snapshot c db = (x, d')" for c x d'
    using that wf by (auto simp: read_snapshot_def dest: restore_entries_wf split: prod.splits if_splits sum.splits)
  have rec: "db_wf d'" if "recover_snapshot db p = (x, d', p')" for p x d' p'
    using that wf snap by (auto simp: recover_snapshot_def split: option.splits prod.splits sum.splits)
  have log: "d' = d" if "recover_append_only_log d p = (x, d', p')" for d d' p x p'
  proof -
    have "d1 = d" if "replay [] c d = (y, d1)" for c y d1 using replay_unchanged [of "[]" c d] that by simp
    with that show ?thesis
      by (auto simp: recover_append_only_log_def split: option.splits prod.splits sum.splits)
  qed
  from r wf show "db_wf db'"
    unfolding recover_def by (auto split: prod.splits sum.splits if_splits dest: rec log)
qed

lemma initialize_persistence_inv: "server_inv s \<Longrightarrow> server_inv (snd (initialize_persistence s))"
  by (auto simp: initialize_persistence_def server_inv_def dest: recover_wf split: prod.splits sum.splits)

lemma setup_listener_inv:
  assumes "server_inv s"
  shows "server_inv (snd (setup_listener calls s))"
proof -
  have bal: "fds_balance s" using assms by (simp add: server_inv_def)
  note facts = assms [unfolded server_inv_def] fds_balance_listener(1-3) [OF bal]
  have "server_inv (s\<lparr>server_fd := -1\<rparr>)" using facts by (simp add: server_inv_def)
  moreover have "server_inv (s\<lparr>server_fd := fd, opened_fds := opened_fds s @ [fd]\<rparr>)" for fd
    using facts by (simp add: server_inv_def)
  moreover have "server_inv (snd (abandon_listener m (s\<lparr>server_fd := fd, opened_fds := opened_fds s @ [fd]\<rparr>)))" for m fd
    using facts by (simp add: server_inv_def abandon_listener_def)
  ultimately show ?thesis
    by (simp add: setup_listener_def Let_def split: sum.split option.split)
qed

lemma shutdown_persistence_inv: "server_inv s \<Longrightarrow> server_inv (shutdown_persistence s)"
  by (auto simp: shutdown_persistence_def server_inv_def split: prod.splits sum.splits)

lemma new_server_inv: "server_inv (new_server sha cpus p d clk)"
  by (simp add: new_server_def server_inv_def fds_balance_def listener_fds_def)

lemma run_inv: "run calls outcomes s = Some (r, s') \<Longrightarrow> server_inv s \<Longrightarrow> server_inv s'"
proof -
  assume r: "run calls outcomes s = Some (r, s')" and inv: "server_inv s"
  have 1: "server_inv s1" if "initialize_persistence s = (x, s1)" for x s1
    using initialize_persistence_inv [OF inv] that by simp
  have 2: "server_inv s2" if "setup_listener calls s1 = (x, s2)" "server_inv s1" for x s1 s2
    using setup_listener_inv [OF that(2), of calls] that(1) by simp
  have 3: "server_inv s3" if "main_loop outcomes (s2\<lparr>running := True\<rparr>) = Some (e, s3)" "server_inv s2" for s2 s3 e
    using server_steps_inv [OF main_loop_steps [OF that(1)]] frame_inv [OF that(2)] by simp
  have 4: "server_inv (shutdown_persistence (s3\<lparr>running := False\<rparr>))" if "server_inv s3" for s3
    using shutdown_persistence_inv frame_inv [OF that] by simp
  from r inv 1 2 3 4 show "server_inv s'"
    by (auto simp: run_def initialize_replication_def
        split: if_splits prod.splits sum.splits option.splits loop_state.splits)
qed

text \<open>The destructor leaves nothing open: it closes every client and the listener.\<close>

lemma server_destructor_closes:
  assumes "server_inv s" "\<forall>fd \<in> set (map fst (clients s)). 0 \<le> fd"
  shows "clients (server_destructor s) = []" "server_fd (server_destructor s) < 0"
    "closed_fds (server_destructor s) =
       closed_fds s @ map fst (clients s) @ (if 0 \<le> server_fd s then [server_fd s] else [])"
proof -
  let ?s = "shutdown_persistence (stop s)"
  have f: "clients ?s = clients s" "server_fd ?s = server_fd s" "closed_fds ?s = closed_fds s"
    by (auto simp: shutdown_persistence_def stop_def split: prod.split sum.split)
  have "client_fd c = fd \<and> 0 \<le> fd" if "(fd, c) \<in> set (clients s)" for fd c
    using assms that by (force simp: server_inv_def map_of_eq_Some_iff)
  then have "map (\<lambda>(_, c). client_fd c) (clients s) = map fst (clients s)" by auto
  then have "filter (\<lambda>fd. 0 \<le> fd) (map (\<lambda>(_, c). client_fd c) (clients s)) = map fst (clients s)"
    using assms(2) by (simp add: filter_True)
  with f show "clients (server_destructor s) = []" "server_fd (server_destructor s) < 0"
    "closed_fds (server_destructor s) =
       closed_fds s @ map fst (clients s) @ (if 0 \<le> server_fd s then [server_fd s] else [])"
    by (simp_all add: server_destructor_def Let_def)
qed

text \<open>What a write step does: it moves bytes from the buffer to the wire.\<close>

lemma send_loop_effect:
  assumes "map_of (clients s) fd = Some c"
  shows "\<exists>n. wire (fst (send_loop fd c es s)) = (wire s)(fd := wire s fd @ take n (output_buffer c)) \<and>
    core (fst (send_loop fd c es s)) = core s \<and>
    (map_of (clients (fst (send_loop fd c es s))) fd = Some (c\<lparr>output_buffer := drop n (output_buffer c)\<rparr>) \<or>
     map_of (clients (fst (send_loop fd c es s))) fd = None)"
  using assms
proof (induction es arbitrary: c s)
  case Nil
  then show ?case by (intro exI [where x = 0]) simp
next
  case (Cons e es)
  show ?case
  proof (cases "output_buffer c = []")
    case True
    with Cons.prems show ?thesis by (intro exI [where x = 0]) simp
  next
    case ne: False
    show ?thesis
    proof (cases e)
      case (Sent n)
      let ?k = "min n (length (output_buffer c))"
      let ?c = "c\<lparr>output_buffer := drop ?k (output_buffer c)\<rparr>"
      let ?s = "put_client fd ?c (s\<lparr>wire := (wire s)(fd := wire s fd @ take ?k (output_buffer c))\<rparr>)"
      show ?thesis
      proof (cases "0 < ?k")
        case False
        then show ?thesis using ne by (intro exI [where x = 0]) (auto simp: Sent Let_def)
      next
        case True
        have run: "send_loop fd c (e # es) s = send_loop fd ?c es ?s"
          using ne True by (simp add: Sent Let_def)
        have "map_of (clients ?s) fd = Some ?c" by simp
        from Cons.IH [OF this] obtain m where
          m: "wire (fst (send_loop fd ?c es ?s)) = (wire ?s)(fd := wire ?s fd @ take m (output_buffer ?c))"
            "core (fst (send_loop fd ?c es ?s)) = core ?s"
            "map_of (clients (fst (send_loop fd ?c es ?s))) fd = Some (?c\<lparr>output_buffer := drop m (output_buffer ?c)\<rparr>) \<or>
             map_of (clients (fst (send_loop fd ?c es ?s))) fd = None" by (elim exE conjE) (rule that)
        have "take ?k (output_buffer c) @ take m (drop ?k (output_buffer c)) = take (?k + m) (output_buffer c)"
          by (rule take_add [symmetric])
        with m show ?thesis
          unfolding run by (intro exI [where x = "?k + m"]) (simp add: add.commute)
      qed
    next
      case Send_intr
      with Cons.IH [OF Cons.prems] ne show ?thesis by simp
    next
      case Send_again
      with Cons.prems ne show ?thesis by (intro exI [where x = 0]) simp
    next
      case (Send_error m)
      with ne show ?thesis by (intro exI [where x = 0]) simp
    qed
  qed
qed

text \<open>And when the socket keeps accepting bytes, it moves all of them.\<close>

lemma send_loop_drains:
  assumes "map_of (clients s) fd = Some c" "\<forall>n \<in> set ns. 0 < n"
    and "length (output_buffer c) \<le> sum_list ns"
  shows "\<exists>s' es. send_loop fd c (map Sent ns) s = (s', es) \<and>
    wire s' fd = wire s fd @ output_buffer c \<and>
    map_of (clients s') fd = Some (c\<lparr>output_buffer := []\<rparr>)"
  using assms
proof (induction ns arbitrary: c s)
  case (Cons n ns)
  show ?case
  proof (cases "output_buffer c = []")
    case True
    then have "c\<lparr>output_buffer := []\<rparr> = c" by simp
    with True Cons.prems(1) show ?thesis by simp
  next
    case False
    let ?k = "min n (length (output_buffer c))"
    let ?c = "c\<lparr>output_buffer := drop ?k (output_buffer c)\<rparr>"
    let ?s = "put_client fd ?c (s\<lparr>wire := (wire s)(fd := wire s fd @ take ?k (output_buffer c))\<rparr>)"
    have run: "send_loop fd c (map Sent (n # ns)) s = send_loop fd ?c (map Sent ns) ?s"
      using False Cons.prems(2) by (simp add: Let_def)
    have "map_of (clients ?s) fd = Some ?c" "\<forall>n \<in> set ns. 0 < n"
      "length (output_buffer ?c) \<le> sum_list ns" using Cons.prems(2,3) by auto
    from Cons.IH [OF this] show ?thesis unfolding run by auto
  qed
qed auto

subsection \<open>Properties\<close>

text \<open>C10 (server_invariant): whatever the system calls return, whatever the clients send and
  however the poll results interleave, after every round of the poll loop and at the end of
  \<open>run\<close> the client table has one entry per descriptor, stored under its own descriptor, no
  input buffer exceeds the request limit, the database is well-formed, and no descriptor has
  been closed more often than it was opened: the clients and the listener still hold theirs.
  Executions that read outside a buffer, which are \<open>None\<close> in the model, are excepted.\<close>

theorem server_invariant:
  assumes "run calls outcomes (new_server sha cpus p d clk) = Some (r, s)"
  shows "server_inv s"
  using assms by (rule run_inv) (rule new_server_inv)

definition sample_listener :: listen_calls where
  "sample_listener = \<lparr>socket_ret = Inr 3, setsockopt_err = None, getfl_err = None,
     setfl_err = None, bind_err = None, listen_err = None\<rparr>"

definition sample_server :: server where
  "sample_server = put_client 5 (new_client 5)
     (new_server (\<lambda>x. x) 4 6379 \<lparr>files = (\<lambda>_. None), sched = []\<rparr> (sconst 5))"

definition sample_outcomes :: "poll_outcome list" where
  "sample_outcomes =
    [Poll_ready True False [Accepted 5 True, Accept_again] (\<lambda>_. undefined),
     Poll_ready False False [] (\<lambda>_. \<lparr>ev_error = False, ev_in = True, ev_out = False,
       recvs = [Received ping_request, Recv_again], sends = []\<rparr>),
     Poll_ready False False [] (\<lambda>_. \<lparr>ev_error = False, ev_in = False, ev_out = True,
       recvs = [], sends = [Sent 4, Send_again]\<rparr>)]"

lemma ping_reply: "execute ping_request d = (''+PONG'' @ CRLF, d)"
proof -
  have "to_upper ''PING'' = ''PING''" by code_simp
  then show ?thesis
    using execute_request [OF resp_read_ping_request [unfolded resp_read_Inr], of d]
    by (simp add: max_size_def execute_command_def resp_simple_string_def)
qed

lemma ping_extract: "extract_requests ping_request = Some ([ping_request], [])"
  using extract_requests_frame [OF ping_request_frame, of "[]"]
  by (simp add: max_size_def extract_requests_def extract_loop.simps)

lemma initialize_persistence_frame:
  "initialize_persistence s = (r, s1) \<Longrightarrow>
     running s1 = running s \<and> clients s1 = clients s \<and> wire s1 = wire s"
  by (auto simp: initialize_persistence_def split: prod.splits sum.splits)

lemma sample_listens: "setup_listener sample_listener s = (Inr (), s\<lparr>server_fd := 3, opened_fds := opened_fds s @ [3]\<rparr>)"
  by (simp add: setup_listener_def sample_listener_def set_non_blocking_fd_def)

lemma sample_process:
  "input_buffer c = [] \<Longrightarrow> output_buffer c = [] \<Longrightarrow>
     process_client_buffer (c\<lparr>input_buffer := ping_request\<rparr>) s = Some (c\<lparr>output_buffer := ''+PONG'' @ CRLF\<rparr>, s)"
  by (simp add: process_client_buffer_def ping_extract server_execute_command_def ping_reply)

text \<open>A client connects, sends PING, and four bytes of the reply go out.\<close>

lemma sample_run:
  assumes "clients s = []"
  shows "main_loop sample_outcomes (s\<lparr>running := True\<rparr>) =
    Some (Still_polling, s\<lparr>running := True, opened_fds := opened_fds s @ [5],
       clients := [(5, (new_client 5)\<lparr>output_buffer := ''G'' @ CRLF\<rparr>)],
       wire := (wire s)(5 := wire s 5 @ ''+PON'')\<rparr>)"
proof -
  have "ping_request \<noteq> []" by (simp add: ping_request_def)
  then show ?thesis
    using sample_process [of "new_client 5"]
    by (simp add: assms sample_outcomes_def poll_round_def poll_list_def emplace_def serve_fd_def
        handle_read_def max_request_size_def put_client_def new_client_def handle_write_def)
qed

theorem server_invariant_witness:
  "case run sample_listener sample_outcomes
      (new_server (\<lambda>x. x) 4 6379 \<lparr>files = (\<lambda>_. None), sched = []\<rparr> (sconst 5)) of
     None \<Rightarrow> False | Some (r, s) \<Rightarrow> server_inv s"
proof -
  let ?s = "new_server (\<lambda>x. x) 4 6379 \<lparr>files = (\<lambda>_. None), sched = []\<rparr> (sconst 5)"
  have none: "clients ?s = []" "\<not> running ?s" by (simp_all add: new_server_def)
  have "run sample_listener sample_outcomes ?s \<noteq> None"
    using none sample_run
    by (auto simp: run_def sample_listens initialize_replication_def
        dest!: initialize_persistence_frame split: prod.splits sum.splits)
  then show ?thesis
    using server_invariant [of sample_listener sample_outcomes] by (auto split: option.splits)
qed

definition sample_client :: client where
  "sample_client = new_client 5"

lemma sample_server_facts [simp]:
  "map_of (clients sample_server) 5 = Some sample_client" "core sample_server =
     \<lparr>dp_database = empty_database, dp_persistence = new_persistence ''data'' \<lparr>files = (\<lambda>_. None), sched = []\<rparr>,
      dp_clock = sconst 5\<rparr>" "wire sample_server = (\<lambda>_. [])" "closed_fds sample_server = []"
  by (simp_all add: sample_server_def sample_client_def new_server_def)

lemma sample_client_facts [simp]: "input_buffer sample_client = []" "output_buffer sample_client = []"
  by (simp_all add: sample_client_def new_client_def)

lemma sample_chunks:
  "partial_frame frame ''*1''" "partial_frame frame []" "drop 9 ping_request \<noteq> []" "take 9 ping_request \<noteq> []"
  "take 9 ping_request @ drop 9 ping_request @ z = ping_request @ z"
  "length (concat [take 9 ping_request, drop 9 ping_request @ ping_request @ ''*1'']) \<le> max_request_size"
proof -
  have "frame (''*1'' @ drop 2 ping_request)" using ping_request_frame by (simp add: ping_request_def)
  then show "partial_frame frame ''*1''"
    unfolding partial_frame_def by (auto simp: ping_request_def intro!: exI [where x = "drop 2 ping_request"])
qed (simp_all add: partial_frame_def ping_request_def max_request_size_def append_assoc [symmetric] del: append_assoc)

text \<open>C5 (pipelined_requests): a client that pipelines any number of whole requests, at most
  1 MiB in total, cut into any chunks and with an unfinished request before and after, gets the replies of exactly those
  requests, executed once each in the order sent, appended to its output; the unfinished tail
  waits in its buffer, and no other client is touched.\<close>

theorem pipelined_requests:
  assumes "map_of (clients s) fd = Some c" "partial_frame frame (input_buffer c)"
    and "list_all frame fs" "partial_frame frame p" "input_buffer c @ concat chunks = concat fs @ p"
    and "chunks \<noteq> []" "\<forall>x \<in> set chunks. x \<noteq> []"
    and "length (input_buffer c @ concat chunks) \<le> max_request_size"
  shows "\<exists>s'. handle_read fd (map Received chunks @ [Recv_again]) s = Some (s', []) \<and>
    map_of (clients s') = (map_of (clients s))(fd \<mapsto> c\<lparr>input_buffer := p,
      output_buffer := output_buffer c @ concat (fst (run_requests fs (core s)))\<rparr>) \<and>
    core s' = snd (run_requests fs (core s)) \<and> wire s' = wire s \<and> closed_fds s' = closed_fds s"
  using recv_loop_frames [OF assms, of "[Recv_again]"] assms(1) by (auto simp: handle_read_def)

theorem pipelined_requests_witness:
  "\<exists>s'. handle_read 5 (map Received [take 9 ping_request, drop 9 ping_request @ ping_request @ ''*1''] @ [Recv_again])
      sample_server = Some (s', []) \<and>
    map_option output_buffer (map_of (clients s') 5) = Some (''+PONG'' @ CRLF @ ''+PONG'' @ CRLF) \<and>
    map_option input_buffer (map_of (clients s') 5) = Some ''*1''"
proof -
  from pipelined_requests [of sample_server 5 sample_client "[ping_request, ping_request]" "''*1''"
      "[take 9 ping_request, drop 9 ping_request @ ping_request @ ''*1'']"] ping_request_frame
  obtain s' where "handle_read 5 (map Received [take 9 ping_request,
        drop 9 ping_request @ ping_request @ ''*1''] @ [Recv_again]) sample_server = Some (s', [])"
    "map_of (clients s') 5 = Some (sample_client\<lparr>input_buffer := ''*1'', output_buffer := output_buffer sample_client @
       concat (fst (run_requests [ping_request, ping_request] (core sample_server)))\<rparr>)"
    using sample_chunks by fastforce
  then show ?thesis by (intro exI [where x = s']) (simp add: ping_reply)
qed

text \<open>C34 (eof_discards_replies): if the peer sends whole requests and then closes its sending side
  before the server has written, the requests are executed, but the client is removed and its
  descriptor closed with every reply discarded.\<close>

theorem eof_discards_replies:
  assumes "map_of (clients s) fd = Some c" "partial_frame frame (input_buffer c)"
    and "list_all frame fs" "partial_frame frame p" "input_buffer c @ concat chunks = concat fs @ p"
    and "chunks \<noteq> []" "\<forall>x \<in> set chunks. x \<noteq> []"
    and "length (input_buffer c @ concat chunks) \<le> max_request_size"
  shows "\<exists>s'. handle_read fd (map Received chunks @ [Received []]) s = Some (s', []) \<and>
    map_of (clients s') = (map_of (clients s))(fd := None) \<and>
    core s' = snd (run_requests fs (core s)) \<and> wire s' = wire s \<and> closed_fds s' = closed_fds s @ [fd]"
proof -
  from recv_loop_frames [OF assms, of "[Received []]"] obtain s1 c' where
    "recv_loop fd c (map Received chunks @ [Received []]) s = Some (close_client fd s1, [])"
    "map_of (clients s1) = (map_of (clients s))(fd \<mapsto> c')"
    "core s1 = snd (run_requests fs (core s))" "wire s1 = wire s" "closed_fds s1 = closed_fds s"
    by auto
  then show ?thesis using assms(1)
    by (intro exI [where x = "close_client fd s1"]) (simp add: handle_read_def close_client_def delete_conv')
qed

theorem eof_discards_replies_witness:
  "\<exists>s'. handle_read 5 (map Received [take 9 ping_request, drop 9 ping_request @ ping_request @ ''*1''] @ [Received []])
      sample_server = Some (s', []) \<and>
    map_of (clients s') 5 = None \<and> wire s' 5 = [] \<and> closed_fds s' = [5]"
proof -
  from eof_discards_replies [of sample_server 5 sample_client "[ping_request, ping_request]" "''*1''"
      "[take 9 ping_request, drop 9 ping_request @ ping_request @ ''*1'']"] ping_request_frame
  obtain s' where "handle_read 5 (map Received [take 9 ping_request,
        drop 9 ping_request @ ping_request @ ''*1''] @ [Received []]) sample_server = Some (s', [])"
    "map_of (clients s') = (map_of (clients sample_server))(5 := None)"
    "wire s' = wire sample_server" "closed_fds s' = closed_fds sample_server @ [5]"
    using sample_chunks by fastforce
  then show ?thesis by (intro exI [where x = s']) simp
qed

text \<open>C19 (writes_in_order): however the socket accepts bytes, a write sends a prefix of the
  output buffer after what was sent before, on this descriptor only, and keeps exactly the rest
  for later, or drops the client.\<close>

theorem writes_in_order:
  assumes "map_of (clients s) fd = Some c"
  shows "\<exists>n. wire (fst (handle_write fd es s)) = (wire s)(fd := wire s fd @ take n (output_buffer c)) \<and>
    core (fst (handle_write fd es s)) = core s \<and>
    (map_of (clients (fst (handle_write fd es s))) fd = Some (c\<lparr>output_buffer := drop n (output_buffer c)\<rparr>) \<or>
     map_of (clients (fst (handle_write fd es s))) fd = None)"
  using send_loop_effect [OF assms] assms by (simp add: handle_write_def)

definition pending_server :: server where
  "pending_server = put_client 5 (sample_client\<lparr>output_buffer := ''+PONG'' @ CRLF\<rparr>) sample_server"

theorem writes_in_order_witness:
  "\<exists>n. wire (fst (handle_write 5 [Sent 4, Send_intr, Sent 1, Send_error ''reset''] pending_server)) 5 =
      take n (''+PONG'' @ CRLF)"
  using writes_in_order [of pending_server 5 "sample_client\<lparr>output_buffer := ''+PONG'' @ CRLF\<rparr>"
      "[Sent 4, Send_intr, Sent 1, Send_error ''reset'']"]
  by (auto simp: pending_server_def)

text \<open>C20 (output_drains): as long as the socket accepts at least a byte per call, and the sizes it
  accepts add up to the output buffer, one write sends the whole buffer and leaves the client
  with an empty one.\<close>

theorem output_drains:
  assumes "map_of (clients s) fd = Some c" "\<forall>n \<in> set ns. 0 < n"
    and "length (output_buffer c) \<le> sum_list ns"
  shows "\<exists>s' es. handle_write fd (map Sent ns) s = (s', es) \<and>
    wire s' fd = wire s fd @ output_buffer c \<and>
    map_of (clients s') fd = Some (c\<lparr>output_buffer := []\<rparr>)"
  using send_loop_drains [OF assms] assms(1) by (auto simp: handle_write_def)

theorem output_drains_witness:
  "wire (fst (handle_write 5 [Sent 4, Sent 1, Sent 9] pending_server)) 5 = ''+PONG'' @ CRLF"
  using output_drains [of pending_server 5 "sample_client\<lparr>output_buffer := ''+PONG'' @ CRLF\<rparr>" "[4, 1, 9]"]
  by (auto simp: pending_server_def)

end
