(* ===== verification/Restart.thy ===== *)
theory Restart
  imports Server
begin

section \<open>What survives a restart\<close>

text \<open>
  A restart is a new \<open>Server\<close> (\<open>src/server.cpp\<close>) on the files another one left behind. The
  lemmas compose the dispatcher (\<open>src/command.cpp\<close>), which never calls \<open>append_command\<close>, with
  saving and recovery (\<open>src/persistence.cpp\<close>).
\<close>

definition restart ::
  "(string \<Rightarrow> string) \<Rightarrow> nat \<Rightarrow> int \<Rightarrow> clock \<Rightarrow> (string \<Rightarrow> string option) \<Rightarrow> (string + unit) \<times> server" where
  "restart sha cpus p clk fs = initialize_persistence (new_server sha cpus p \<lparr>files = fs, sched = []\<rparr> clk)"

subsection \<open>Requests other than SAVE leave the files alone\<close>

lemma execute_command_persistence:
  "command \<noteq> ''SAVE'' \<Longrightarrow> dp_persistence (snd (execute_command command args d)) = dp_persistence d"
  by (cases command rule: command_cases)
    (simp_all add: execute_command_def split: prod.splits if_splits option.splits bool.splits)

definition not_save :: "string \<Rightarrow> bool" where
  "not_save s \<longleftrightarrow> length s \<le> max_size \<and> (\<forall>args. resp_request args s \<longrightarrow> to_upper (hd args) \<noteq> ''SAVE'')"

lemma execute_persistence:
  "not_save s \<Longrightarrow> dp_persistence (snd (execute s d)) = dp_persistence d"
  using execute_command_persistence
  by (auto simp: not_save_def execute_read resp_read_Inr split: sum.splits)

lemma run_requests_persistence:
  "list_all not_save rs \<Longrightarrow> dp_persistence (snd (run_requests rs d)) = dp_persistence d"
proof (induction rs arbitrary: d)
  case (Cons r rs)
  obtain b d1 where ex: "execute r d = (b, d1)" by fastforce
  with Cons.prems execute_persistence [of r d] have "dp_persistence d1 = dp_persistence d" by simp
  with Cons.IH [of d1] Cons.prems ex show ?case by (auto split: prod.split)
qed simp

subsection \<open>SAVE and recovery\<close>

text \<open>An initialised manager with nothing buffered saves without touching the log.\<close>

lemma save_snapshot_log:
  assumes "save_snapshot db clk pm = (r, pm', clk')" "pm_wf pm" "initialized pm"
  shows "files pm' (append_only_log_file pm) = files pm (append_only_log_file pm)"
  using save_snapshot_others(1) [OF assms(1,2)] assms(3) by (simp add: opened_log_def)

lemma flush_quiet:
  assumes "flush pm = (r, pm')" "aof_buffer pm = []"
  shows "same_paths pm pm'" "initialized pm' = initialized pm"
    "p \<noteq> append_only_log_file pm \<Longrightarrow> files pm' p = files pm p"
    "case_option [] id (files pm' (append_only_log_file pm)) = case_option [] id (files pm (append_only_log_file pm))"
  using assms
  by (auto simp: flush_def stream_flush_def next_ret_def append_file_def same_paths_def Let_def
      split: if_splits list.splits sysret.splits option.splits)

text \<open>Recovery from a snapshot that can be opened, and an empty log.\<close>

lemmas restart_eval = restart_def initialize_persistence_def new_server_def new_persistence_def
  initialize_def create_data_directory_def open_append_only_log_def stream_open_def call_status_def
  next_ret_def append_file_def bind_io_def then_io_def return_io_def recover_def recover_snapshot_def
  read_file_def recover_append_only_log_def

lemma restart_reads:
  assumes "fs ''data/dump.rdb'' = Some contents" "read_snapshot contents empty_database = (Inr (), db)"
    and "case_option [] id (fs ''data/appendonly.aof'') = []"
  shows "\<exists>s. restart sha cpus p clk fs = (Inr (), s) \<and> dp_database (core s) = db"
  using assms by (auto simp: restart_eval split: option.splits)

lemma restart_refuses:
  assumes "fs ''data/dump.rdb'' = Some contents" "read_snapshot contents empty_database = (Inl e, db)"
  shows "fst (restart sha cpus p clk fs) = Inl e"
  using assms by (auto simp: restart_eval split: option.splits)

subsection \<open>Properties\<close>

text \<open>C11 (unsaved_writes_lost): no request but SAVE reaches the disk. Whatever was acknowledged since,
  a restart on the files gives exactly what a restart before those requests would have given.\<close>

theorem unsaved_writes_lost:
  assumes "list_all not_save rs"
  shows "restart sha cpus p clk (files (dp_persistence (snd (run_requests rs d)))) =
    restart sha cpus p clk (files (dp_persistence d))"
  by (simp add: run_requests_persistence [OF assms])

lemma sample_not_save: "not_save (encode_resp [''sEt'', ''k'', ''v''])"
proof -
  have "to_upper ''sEt'' = ''SET''" by code_simp
  then show ?thesis
    using small_request(2) [OF sample_requests(1,3)] sample_requests(1)
    by (auto simp: not_save_def resp_read_Inr [symmetric])
qed

definition fresh_dispatcher :: dispatcher where
  "fresh_dispatcher = \<lparr>dp_database = empty_database,
     dp_persistence = new_persistence ''data'' \<lparr>files = (\<lambda>_. None), sched = []\<rparr>, dp_clock = sconst 5\<rparr>"

lemma fresh_restart: "dp_database (core (snd (restart sha cpus p clk (\<lambda>_. None)))) = empty_database"
  by (simp add: restart_eval)

theorem unsaved_writes_lost_witness:
  "case execute (encode_resp [''sEt'', ''k'', ''v'']) fresh_dispatcher of (reply, d) \<Rightarrow>
     reply = ''+OK'' @ CRLF \<and> live 0 (dp_database d) ''k'' = Some ''v'' \<and>
     live 0 (dp_database (core (snd (restart (\<lambda>x. x) 4 6379 (sconst 6) (files (dp_persistence d)))))) ''k'' = None"
proof -
  let ?s = "encode_resp [''sEt'', ''k'', ''v'']"
  have "to_upper ''sEt'' = ''SET''" by code_simp
  then have ex: "execute ?s fresh_dispatcher =
      (''+OK'' @ CRLF, fresh_dispatcher\<lparr>dp_database := db_set ''k'' ''v'' empty_database\<rparr>)"
    using execute_request [OF small_request [OF sample_requests(1,3)], of fresh_dispatcher]
    by (simp add: execute_command_def resp_simple_string_def fresh_dispatcher_def)
  then have fin: "snd (run_requests [?s] fresh_dispatcher) =
      fresh_dispatcher\<lparr>dp_database := db_set ''k'' ''v'' empty_database\<rparr>" by simp
  have "restart (\<lambda>x. x) 4 6379 (sconst 6) (files (dp_persistence (snd (run_requests [?s] fresh_dispatcher)))) =
      restart (\<lambda>x. x) 4 6379 (sconst 6) (files (dp_persistence fresh_dispatcher))"
    by (rule unsaved_writes_lost) (simp add: sample_not_save)
  moreover have "files (dp_persistence fresh_dispatcher) = (\<lambda>_. None)"
    by (simp add: fresh_dispatcher_def new_persistence_def)
  ultimately show ?thesis
    unfolding ex fin using fresh_restart by (simp add: db_set_eq live_restore_set)
qed

text \<open>C4 (restart_after_save): once SAVE has been answered with OK, by an initialised server on
  the directory \<open>data\<close> whose log is empty, with nothing buffered for it, a server restarted on
  the same files, whose own system calls succeed, recovers, if at most 10,000,000 pairs were
  saved, every pair that was live at the end of the SAVE and only pairs that were live at its
  start, where the clock readings of the SAVE, one per entry at most, lie between the times \<open>t0\<close>
  and \<open>t1\<close>: exactly the live pairs when the clock stands still. It does so whatever its own
  clock reads, and keys that had an expiry time have none any more. If more pairs were saved, the restart
  fails, although SAVE was answered with OK.\<close>

theorem restart_after_save:
  assumes "resp_request [name] s" "to_upper name = ''SAVE''" "length s \<le> max_size"
    and "execute s d = (''+OK'' @ CRLF, d')"
    and "db_wf (dp_database d)" "readings (length (store (dp_database d))) t0 t1 (dp_clock d)"
    and "initialized (dp_persistence d)" "aof_buffer (dp_persistence d) = []"
    and "same_paths (new_persistence ''data'' dk) (dp_persistence d)"
    and "case_option [] id (files (dp_persistence d) ''data/appendonly.aof'') = []"
  shows "if length (fst (entries (dp_database d) (dp_clock d))) \<le> MAX_SNAPSHOT_ENTRIES
    then \<exists>s' m. restart sha cpus p clk (files (dp_persistence d')) = (Inr (), s') \<and>
      (\<forall>t'. live t' (dp_database (core s')) = m) \<and>
      live t1 (dp_database d) \<subseteq>\<^sub>m m \<and> m \<subseteq>\<^sub>m live t0 (dp_database d)
    else length (fst (entries (dp_database d) (dp_clock d))) < 2 ^ 64 \<longrightarrow>
      fst (restart sha cpus p clk (files (dp_persistence d'))) =
        Inl ''Snapshot contains too many entries''"
proof -
  have ex: "execute_save d = (''+OK'' @ CRLF, d')"
    using execute_request [OF assms(1,3)] assms(2,4) by (simp add: execute_command_def)
  obtain r pm1 where fl: "flush (dp_persistence d) = (r, pm1)" by fastforce
  with ex have r: "r = Inr ()" by (cases r) (auto simp: execute_save_def resp_simple_string_def resp_error_def)
  obtain r2 pm2 clk2 where sv: "save_snapshot (dp_database d) (dp_clock d) pm1 = (r2, pm2, clk2)"
    by (metis prod_cases3)
  with ex fl r have r2: "r2 = Inr ()" and d': "dp_persistence d' = pm2"
    by (auto simp: execute_save_def resp_simple_string_def resp_error_def split: sum.splits)
  note quiet = flush_quiet [OF fl assms(8)]
  have paths: "snapshot_file pm1 = ''data/dump.rdb''" "append_only_log_file pm1 = ''data/appendonly.aof''"
    "append_only_log_file (dp_persistence d) = ''data/appendonly.aof''" "pm_wf pm1"
    using quiet(1) assms(9) by (auto simp: same_paths_def new_persistence_def pm_wf_def)
  have log: "case_option [] id (files pm2 ''data/appendonly.aof'') = []"
    using save_snapshot_log [OF sv paths(4)] quiet(2,4) assms(7,10) paths(2,3) by simp
  from assms(5,6) paths(4) sv [unfolded r2] show ?thesis
  proof (cases rule: saved_snapshot_reads)
    case (restores contents db' m)
    with restart_reads [of "files pm2" contents db' sha cpus p clk] log paths(1)
    show ?thesis unfolding d' by auto
  next
    case (refused contents)
    with restart_refuses [of "files pm2" contents _ _ sha cpus p clk] paths(1)
    show ?thesis unfolding d' by auto
  qed
qed

definition saving_dispatcher :: dispatcher where
  "saving_dispatcher = \<lparr>dp_database = sample_db, dp_persistence = sample_persistence [], dp_clock = sconst 5\<rparr>"

lemma sample_save_reply: "\<exists>d'. execute (encode_resp [''save'']) saving_dispatcher = (''+OK'' @ CRLF, d')"
proof -
  have rd: "resp_read (encode_resp [''save'']) = Inr [''save'']" and up: "to_upper ''save'' = ''SAVE''"
    by code_simp+
  have len: "length (encode_resp [''save'']) \<le> max_size"
    by (simp add: encode_resp_def encode_bulk_def show_nat.simps max_size_def)
  have "\<exists>pm. flush (sample_persistence []) = (Inr (), pm) \<and> initialized pm \<and> pm_wf pm \<and> sched pm = []"
    by (simp add: flush_def stream_flush_def next_ret_def append_file_def sample_persistence_def
        new_persistence_def pm_wf_def return_io_def)
  then obtain pm where pm: "flush (sample_persistence []) = (Inr (), pm)" "initialized pm" "pm_wf pm" "sched pm = []"
    by blast
  from save_snapshot_ok [OF pm(2,3) _ sample_fits] pm(4) obtain pm' clk' where
    "save_snapshot sample_db (sconst 5) pm = (Inr (), pm', clk')" by auto
  then have "execute_save saving_dispatcher =
      (''+OK'' @ CRLF, saving_dispatcher\<lparr>dp_persistence := pm', dp_clock := clk'\<rparr>)"
    by (simp add: execute_save_def saving_dispatcher_def pm(1) resp_simple_string_def)
  then show ?thesis by (simp add: execute_read [OF len] rd up execute_command_def)
qed

theorem restart_after_save_witness:
  "\<exists>d' s'. execute (encode_resp [''save'']) saving_dispatcher = (''+OK'' @ CRLF, d') \<and>
     restart (\<lambda>x. x) 4 6379 (sconst 1000) (files (dp_persistence d')) = (Inr (), s') \<and>
     live 1000 (dp_database (core s')) ''b'' = Some ''2'' \<and>
     live 1000 (dp_database saving_dispatcher) ''b'' = None"
proof -
  have rd: "resp_read (encode_resp [''save'']) = Inr [''save'']" and up: "to_upper ''save'' = ''SAVE''"
    by code_simp+
  have len: "length (encode_resp [''save'']) \<le> max_size"
    by (simp add: encode_resp_def encode_bulk_def show_nat.simps max_size_def)
  obtain d' where ex: "execute (encode_resp [''save'']) saving_dispatcher = (''+OK'' @ CRLF, d')"
    using sample_save_reply by blast
  have "same_paths (new_persistence ''data'' \<lparr>files = (\<lambda>_. None), sched = []\<rparr>) (sample_persistence [])"
    by (simp add: same_paths_def sample_persistence_def new_persistence_def)
  with restart_after_save [OF rd [unfolded resp_read_Inr] up len ex, of 5 5]
  have "\<exists>s'. restart (\<lambda>x. x) 4 6379 (sconst 1000) (files (dp_persistence d')) = (Inr (), s') \<and>
      (\<forall>t'. live t' (dp_database (core s')) = live 5 (dp_database saving_dispatcher))"
    by (fastforce simp: saving_dispatcher_def sample_persistence_facts sample_db_wf sample_entries
        MAX_SNAPSHOT_ENTRIES_def dest: map_le_antisym)
  then obtain s' where "restart (\<lambda>x. x) 4 6379 (sconst 1000) (files (dp_persistence d')) = (Inr (), s')"
    "\<forall>t'. live t' (dp_database (core s')) = live 5 sample_db"
    by (auto simp: saving_dispatcher_def)
  moreover have "live 5 sample_db ''b'' = Some ''2''" "live 1000 sample_db ''b'' = None"
    by (simp_all add: live_def sample_db_def expired_at_def)
  ultimately show ?thesis using ex by (intro exI [where x = d'] exI [where x = s']) (simp add: saving_dispatcher_def)
qed

end
