(* ===== verification/Cli.thy ===== *)
theory Cli
  imports Command
begin

section \<open>The command line client\<close>

text \<open>
  \<open>src/main_cli.cpp\<close>: the tokenizer of input lines, sending a request, receiving one reply,
  printing it, the command line options and the session loop. The encoder \<open>encode_resp\<close> is in
  \<open>Resp\<close>. Socket calls take their outcomes from scripts, and \<open>None\<close> is a call that never
  returns: the script has run out and the blocking socket waits.
\<close>

subsection \<open>The tokenizer\<close>

abbreviation BACKSLASH :: char where
  "BACKSLASH \<equiv> CHR 0x5C"

abbreviation DOUBLE_QUOTE :: char where
  "DOUBLE_QUOTE \<equiv> CHR 0x22"

abbreviation SINGLE_QUOTE :: char where
  "SINGLE_QUOTE \<equiv> CHR 0x27"

text \<open>The loop over the line; its variables are \<open>tokens\<close>, \<open>current\<close>, \<open>quoted\<close>,
  \<open>quote_character\<close> and \<open>escaping\<close>, and its last equation is the code after the loop.\<close>

fun tokenize_loop ::
  "string \<Rightarrow> string list \<Rightarrow> string \<Rightarrow> bool \<Rightarrow> char \<Rightarrow> bool \<Rightarrow> string + string list" where
  "tokenize_loop (c # line) tokens current is_quoted quote_character escaping =
     (if escaping then tokenize_loop line tokens (current @ [c]) is_quoted quote_character False
      else if c = BACKSLASH then tokenize_loop line tokens current is_quoted quote_character True
      else if is_quoted then
        (if c = quote_character then tokenize_loop line tokens current False quote_character False
         else tokenize_loop line tokens (current @ [c]) True quote_character False)
      else if c = DOUBLE_QUOTE \<or> c = SINGLE_QUOTE then
        tokenize_loop line tokens current True c False
      else if is_space c then
        (if current \<noteq> [] then tokenize_loop line (tokens @ [current]) [] False quote_character False
         else tokenize_loop line tokens current False quote_character False)
      else tokenize_loop line tokens (current @ [c]) False quote_character False)"
| "tokenize_loop [] tokens current is_quoted quote_character escaping =
     (let current = (if escaping then current @ [BACKSLASH] else current)
      in if is_quoted then Inl ''unterminated quoted argument''
         else if current \<noteq> [] then Inr (tokens @ [current]) else Inr tokens)"

definition tokenize :: "string \<Rightarrow> string + string list" where
  "tokenize line = tokenize_loop line [] [] False (CHR 0x00) False"

subsection \<open>Sending and receiving\<close>

definition MAX_RESPONSE_SIZE :: nat where
  "MAX_RESPONSE_SIZE = 1024 * 1024"

text \<open>\<open>Cli_sent n\<close>: the call accepts \<open>n\<close> bytes, or all that are left if there are fewer.\<close>

datatype cli_send = Cli_sent nat | Cli_send_intr | Cli_send_error string

definition throw_socket_error :: "string \<Rightarrow> string \<Rightarrow> string" where
  "throw_socket_error operation reason = operation @ '': '' @ reason"

text \<open>Bytes delivered so far, the rest of the script, and whether the loop threw.\<close>

fun send_all_loop ::
  "string \<Rightarrow> nat \<Rightarrow> cli_send list \<Rightarrow> ((string + unit) \<times> nat \<times> cli_send list) option" where
  "send_all_loop data offset es =
     (if length data \<le> offset then Some (Inr (), offset, es)
      else case es of
          [] \<Rightarrow> None
        | Cli_send_intr # es' \<Rightarrow> send_all_loop data offset es'
        | Cli_send_error m # es' \<Rightarrow> Some (Inl (throw_socket_error ''send'' m), offset, es')
        | Cli_sent n # es' \<Rightarrow>
            (let written = min n (length data - offset)
             in if written = 0 then Some (Inl ''send returned zero bytes'', offset, es')
                else send_all_loop data (offset + written) es'))"

declare send_all_loop.simps [simp del]

definition send_all :: "string \<Rightarrow> cli_send list \<Rightarrow> ((string + unit) \<times> string \<times> cli_send list) option" where
  "send_all data es =
     map_option (\<lambda>(r, offset, es'). (r, take offset data, es')) (send_all_loop data 0 es)"

text \<open>\<open>Cli_received []\<close> is the end of the stream; a call returns at most 4096 bytes.\<close>

datatype cli_recv = Cli_received string | Cli_recv_intr | Cli_recv_error string

text \<open>The loop over the items of an array reply: the position after the last one.\<close>

fun item_loop :: "nat \<Rightarrow> string \<Rightarrow> nat \<Rightarrow> nat option" where
  "item_loop 0 response position = Some position"
| "item_loop (Suc count) response position =
     (case find_crlf response position of
        None \<Rightarrow> None
      | Some item_end \<Rightarrow>
          if length response \<le> position \<or> response ! position \<noteq> CHR ''$'' then None
          else (case from_chars_all (substr response (position + 1) (item_end - (position + 1))) 0 of
              None \<Rightarrow> None
            | Some len \<Rightarrow>
                if len < 0 then None
                else let position' = item_end + 2 + nat len + 2
                  in if length response < position' then None
                     else item_loop count response position'))"

definition ends_in_crlf :: "string \<Rightarrow> bool" where
  "ends_in_crlf response \<longleftrightarrow> 2 \<le> length response \<and> substr response (length response - 2) 2 = CRLF"

text \<open>The tests at the end of each round: the reply, if it is complete.\<close>

definition complete_response :: "string \<Rightarrow> string option" where
  "complete_response response =
     (let c = response ! 0 in
      if c = CHR ''+'' \<or> c = CHR ''-'' \<or> c = CHR '':'' then
        (if ends_in_crlf response then Some response else None)
      else if c = CHR ''$'' then
        (case find_crlf response 0 of
           None \<Rightarrow> None
         | Some line_end \<Rightarrow>
             (case from_chars_all (substr response 1 (line_end - 1)) 0 of
                None \<Rightarrow> None
              | Some len \<Rightarrow>
                  if len = -1 then Some response
                  else if 0 \<le> len then
                    (let expected = line_end + 2 + nat len + 2
                     in if expected \<le> length response then Some (substr response 0 expected) else None)
                  else None))
      else if c = CHR ''*'' then
        (case find_crlf response 0 of
           None \<Rightarrow> None
         | Some line_end \<Rightarrow>
             (case from_chars_all (substr response 1 (line_end - 1)) 0 of
                None \<Rightarrow> None
              | Some count \<Rightarrow>
                  if 0 \<le> count then
                    map_option (substr response 0) (item_loop (nat count) response (line_end + 2))
                  else None))
      else None)"

fun receive_loop :: "string \<Rightarrow> cli_recv list \<Rightarrow> ((string + string) \<times> cli_recv list) option" where
  "receive_loop response [] = None"
| "receive_loop response (Cli_recv_intr # es) = receive_loop response es"
| "receive_loop response (Cli_recv_error m # es) = Some (Inl (throw_socket_error ''recv'' m), es)"
| "receive_loop response (Cli_received b # es) =
     (if b = [] then Some (Inl ''server closed the connection'', es)
      else let response' = response @ b
        in if MAX_RESPONSE_SIZE < length response'
           then Some (Inl ''server response exceeds maximum size'', es)
           else case complete_response response' of
               Some r \<Rightarrow> Some (Inr r, es)
             | None \<Rightarrow> receive_loop response' es)"

definition receive_resp :: "cli_recv list \<Rightarrow> ((string + string) \<times> cli_recv list) option" where
  "receive_resp = receive_loop []"

subsection \<open>Printing a reply\<close>

text \<open>\<open>substr(1, size() - 3)\<close>, where a short reply wraps the count around to the rest.\<close>

definition reply_line :: "string \<Rightarrow> string" where
  "reply_line response =
     (if length response < 3 then drop 1 response else substr response 1 (length response - 3))"

definition decode_resp :: "string \<Rightarrow> string" where
  "decode_resp response =
     (if response = [] then ''(empty response)''
      else let c = response ! 0 in
      if c = CHR ''+'' then reply_line response
      else if c = CHR ''-'' then ''(error) '' @ reply_line response
      else if c = CHR '':'' then ''(integer) '' @ reply_line response
      else if c = CHR ''$'' then
        (case find_crlf response 0 of
           None \<Rightarrow> ''(protocol error)''
         | Some line_end \<Rightarrow>
             if substr response 1 (line_end - 1) = ''-1'' then ''(nil)''
             else let value_start = line_end + 2;
                 value_end = (if ends_in_crlf response then length response - 2 else length response)
               in [DOUBLE_QUOTE] @
                  (if value_end < value_start then drop value_start response
                   else substr response value_start (value_end - value_start)) @ [DOUBLE_QUOTE])
      else response)"

subsection \<open>The command line and the connection\<close>

text \<open>The loop over \<open>argv\<close>: an error, or \<open>None\<close> for \<open>--help\<close>, or the host and the port.\<close>

fun parse_options :: "string list \<Rightarrow> string \<Rightarrow> int \<Rightarrow> string + (string \<times> int) option" where
  "parse_options [] host port = Inr (Some (host, port))"
| "parse_options (argument # rest) host port =
     (if argument = ''--host'' then
        (case rest of
           [] \<Rightarrow> Inl ''--host requires a value''
         | h # rest' \<Rightarrow> parse_options rest' h port)
      else if argument = ''--port'' then
        (case rest of
           [] \<Rightarrow> Inl ''--port requires a value''
         | p # rest' \<Rightarrow>
             (case stoi p of
                Inl e \<Rightarrow> Inl e
              | Inr n \<Rightarrow>
                  if n < 1 \<or> 65535 < n then Inl ''port must be between 1 and 65535''
                  else parse_options rest' host n))
      else if argument = ''--help'' \<or> argument = ''-h'' then Inr None
      else Inl (''unknown option: '' @ argument))"

text \<open>What \<open>socket\<close>, \<open>inet_pton\<close> and \<open>connect\<close> return.\<close>

record connect_calls =
  cli_socket :: "string + int"
  address_valid :: bool
  connect_err :: "string option"

text \<open>The descriptor or the exception, and the descriptors closed on the way.\<close>

definition connect_to_server :: "connect_calls \<Rightarrow> string \<Rightarrow> int \<Rightarrow> (string + int) \<times> int list" where
  "connect_to_server calls host port =
     (case cli_socket calls of
        Inl m \<Rightarrow> (Inl (throw_socket_error ''socket'' m), [])
      | Inr fd \<Rightarrow>
          if \<not> address_valid calls then (Inl (''invalid IPv4 address: '' @ host), [fd])
          else (case connect_err calls of
              Some m \<Rightarrow> (Inl (''connect: '' @ m), [fd])
            | None \<Rightarrow> (Inr fd, [])))"

definition NEWLINE :: string where
  "NEWLINE = [LF]"

definition help_text :: string where
  "help_text = concat (map (\<lambda>line. line @ NEWLINE)
     [''KoshDB interactive CLI'', ''Commands:'', ''  PING'', ''  SET <key> <value>'',
      ''  GET <key>'', ''  DEL <key>'', ''  EXISTS <key>'', ''  EXPIRE <key> <seconds>'',
      ''  TTL <key>'', ''  HELP'', ''  EXIT or QUIT'', [],
      ''Arguments may be enclosed in single or double quotes.''])"

subsection \<open>The session\<close>

text \<open>What is printed, the bytes delivered to the server, and the outcomes still to come.\<close>

record cli =
  console :: string
  sent :: string
  sends_left :: "cli_send list"
  recvs_left :: "cli_recv list"

definition print :: "string \<Rightarrow> cli \<Rightarrow> cli" where
  "print text st = st\<lparr>console := console st @ text\<rparr>"

definition print_help :: "cli \<Rightarrow> cli" where
  "print_help = print help_text"

text \<open>One command: send the request, receive the reply, print it.\<close>

definition round_trip :: "string list \<Rightarrow> cli \<Rightarrow> ((string + unit) \<times> cli) option" where
  "round_trip arguments st =
     (case send_all (encode_resp arguments) (sends_left st) of
        None \<Rightarrow> None
      | Some (r, delivered, es) \<Rightarrow>
          (let st1 = st\<lparr>sent := sent st @ delivered, sends_left := es\<rparr> in
           case r of
             Inl e \<Rightarrow> Some (Inl e, st1)
           | Inr _ \<Rightarrow>
               (case receive_resp (recvs_left st) of
                  None \<Rightarrow> None
                | Some (Inl e, rs) \<Rightarrow> Some (Inl e, st1\<lparr>recvs_left := rs\<rparr>)
                | Some (Inr response, rs) \<Rightarrow>
                    Some (Inr (), print (decode_resp response @ NEWLINE) (st1\<lparr>recvs_left := rs\<rparr>)))))"

text \<open>The lines of standard input; the end of the list is the end of the input.\<close>

fun session_loop :: "string list \<Rightarrow> cli \<Rightarrow> ((string + unit) \<times> cli) option" where
  "session_loop [] st = Some (Inr (), print (''koshdb> '' @ NEWLINE) st)"
| "session_loop (line # lines) st0 =
     (let st = print ''koshdb> '' st0 in
      if line = [] then session_loop lines st
      else case tokenize line of
          Inl e \<Rightarrow> Some (Inl e, st)
        | Inr arguments \<Rightarrow>
            if arguments = [] then session_loop lines st
            else if arguments ! 0 = ''EXIT'' \<or> arguments ! 0 = ''exit'' \<or>
              arguments ! 0 = ''QUIT'' \<or> arguments ! 0 = ''quit'' then Some (Inr (), st)
            else if arguments ! 0 = ''HELP'' \<or> arguments ! 0 = ''help'' then
              session_loop lines (print_help st)
            else (case round_trip arguments st of
                None \<Rightarrow> None
              | Some (Inl e, st') \<Rightarrow> Some (Inl e, st')
              | Some (Inr _, st') \<Rightarrow> session_loop lines st'))"

text \<open>The exit code, what goes to standard error, the client and the descriptors closed.\<close>

definition cli_main ::
  "string list \<Rightarrow> connect_calls \<Rightarrow> string list \<Rightarrow> cli \<Rightarrow> (int \<times> string \<times> cli \<times> int list) option" where
  "cli_main argv calls lines st =
     (let failed = (\<lambda>e. ''KoshDB CLI error: '' @ e @ NEWLINE) in
      case parse_options argv ''127.0.0.1'' 6379 of
        Inl e \<Rightarrow> Some (1, failed e, st, [])
      | Inr None \<Rightarrow> Some (0, [], print (''Usage: koshdb-cli [--host <address>] [--port <port>]'' @ NEWLINE) st, [])
      | Inr (Some (host, port)) \<Rightarrow>
          (case connect_to_server calls host port of
             (Inl e, closed) \<Rightarrow> Some (1, failed e, st, closed)
           | (Inr fd, closed) \<Rightarrow>
               (case session_loop lines
                   (print (''Connected to KoshDB at '' @ host @ '':'' @ show_int port @ NEWLINE @
                      ''Type HELP for commands.'' @ NEWLINE) st) of
                  None \<Rightarrow> None
                | Some (Inl e, st') \<Rightarrow> Some (1, failed e, st', closed)
                | Some (Inr _, st') \<Rightarrow>
                    Some (0, [], print (''Disconnected from KoshDB.'' @ NEWLINE) st', closed @ [fd]))))"

subsection \<open>Quoting and the tokenizer\<close>

text \<open>How a user can write any argument: in double quotes, with a backslash before a double
  quote and before a backslash.\<close>

definition escape_char :: "char \<Rightarrow> string" where
  "escape_char c = (if c = DOUBLE_QUOTE \<or> c = BACKSLASH then [BACKSLASH, c] else [c])"

definition quote :: "string \<Rightarrow> string" where
  "quote a = [DOUBLE_QUOTE] @ concat (map escape_char a) @ [DOUBLE_QUOTE]"

lemma tokenize_quoted_body:
  "tokenize_loop (concat (map escape_char a) @ rest) tokens current True DOUBLE_QUOTE False =
     tokenize_loop rest tokens (current @ a) True DOUBLE_QUOTE False"
  by (induction a arbitrary: current) (auto simp: escape_char_def)

lemma tokenize_quote:
  "\<exists>q. tokenize_loop (quote a @ rest) tokens current False q0 False =
     tokenize_loop rest tokens (current @ a) False q False"
  by (simp add: quote_def tokenize_quoted_body) blast

text \<open>A line of quoted arguments separated by blanks.\<close>

fun quote_line :: "string list \<Rightarrow> string" where
  "quote_line [] = []"
| "quote_line (a # as) = quote a @ '' '' @ quote_line as"

lemma tokenize_quote_line:
  "\<forall>a \<in> set as. a \<noteq> [] \<Longrightarrow> tokenize_loop (quote_line as) tokens [] False q False = Inr (tokens @ as)"
proof (induction as arbitrary: tokens q)
  case (Cons a as)
  obtain q' where "tokenize_loop (quote a @ '' '' @ quote_line as) tokens [] False q False =
      tokenize_loop ('' '' @ quote_line as) tokens a False q' False"
    using tokenize_quote [of a "'' '' @ quote_line as" tokens "[]" q] by auto
  also have "\<dots> = tokenize_loop (quote_line as) (tokens @ [a]) [] False q' False"
    using Cons.prems by (simp add: is_space_def)
  finally show ?case using Cons by simp
qed simp

subsection \<open>Receiving one reply\<close>

text \<open>A reply is recognised when it is complete, and not before.\<close>

lemma ends_in_crlf_append: "ends_in_crlf (a @ CRLF)"
  by (simp add: ends_in_crlf_def substr_def)

lemma ends_in_crlf_LF: "ends_in_crlf s \<Longrightarrow> LF \<in> set s"
proof -
  assume e: "ends_in_crlf s"
  then have "set CRLF \<subseteq> set s"
    unfolding ends_in_crlf_def substr_def by (metis set_take_subset set_drop_subset subset_trans)
  then show "LF \<in> set s" by simp
qed

lemma line_reply_complete:
  assumes "r = c # l @ CRLF" "c \<in> {CHR ''+'', CHR ''-'', CHR '':''}" "line_safe l"
  shows "complete_response r = Some r" "p \<noteq> [] \<Longrightarrow> p @ z = r \<Longrightarrow> z \<noteq> [] \<Longrightarrow> complete_response p = None"
proof -
  show "complete_response r = Some r"
    using assms ends_in_crlf_append [of "c # l"] by (auto simp: complete_response_def)
  assume p: "p \<noteq> []" "p @ z = r" "z \<noteq> []"
  then have "p ! 0 = c" using assms(1) by (cases p) auto
  moreover have "butlast r = c # l @ [CR]" using assms(1) by (simp add: butlast_append)
  then have "LF \<notin> set (butlast r)" using assms(2,3) by (auto simp: line_safe_def)
  then have "LF \<notin> set p" using p by (auto simp: butlast_append)
  ultimately show "complete_response p = None"
    using assms(2) ends_in_crlf_LF by (auto simp: complete_response_def)
qed

lemma bulk_reply_complete:
  assumes "length v < 2 ^ 63"
  shows "complete_response (render (Bulk v)) = Some (render (Bulk v))"
    "p \<noteq> [] \<Longrightarrow> p @ z = render (Bulk v) \<Longrightarrow> z \<noteq> [] \<Longrightarrow> complete_response p = None"
proof -
  let ?h = "CHR ''$'' # show_nat (length v)"
  have r: "render (Bulk v) = ?h @ CRLF @ v @ CRLF" by simp
  have cr: "CR \<notin> set ?h" by simp
  have at: "complete_response (?h @ CRLF @ q) =
      (if length v + 2 \<le> length q then Some (substr (?h @ CRLF @ q) 0 (length ?h + 2 + length v + 2)) else None)" for q
    using find_crlf_at [OF cr, of "[]" q] assms
    by (simp add: complete_response_def substr_def Let_def)
  show "complete_response (render (Bulk v)) = Some (render (Bulk v))"
    unfolding r at by (simp add: substr_def)
  assume p: "p \<noteq> []" "p @ z = render (Bulk v)" "z \<noteq> []"
  then have "p ! 0 = CHR ''$''" by (cases p) (auto simp: r)
  show "complete_response p = None"
  proof (cases "length (?h @ CRLF) \<le> length p")
    case True
    have "p = take (length (?h @ CRLF)) p @ drop (length (?h @ CRLF)) p" by simp
    also have "take (length (?h @ CRLF)) p = take (length (?h @ CRLF)) (p @ z)" using True by simp
    also have "\<dots> = ?h @ CRLF" unfolding p(2) r by simp
    finally obtain q where q: "p = ?h @ CRLF @ q" by simp
    with p(2,3) have "length q < length v + 2"
      unfolding r by (cases z) (auto dest: arg_cong [where f = length])
    then show ?thesis unfolding q at by simp
  next
    case False
    have "p = take (length p) (p @ z)" by simp
    also have "\<dots> = take (length p) ((?h @ CRLF) @ v @ CRLF)" unfolding p(2) r by simp
    also have "\<dots> = take (length p) (?h @ CRLF)" using False by (subst take_append) simp
    finally have "?h @ CRLF = p @ drop (length p) (?h @ CRLF)" by (metis append_take_drop_id)
    moreover have "drop (length p) (?h @ CRLF) \<noteq> []" using False unfolding drop_eq_Nil by simp
    ultimately have "crlf_index p = None" by (rule crlf_index_partial_line [OF cr])
    with \<open>p ! 0 = CHR ''$''\<close> show ?thesis by (simp add: complete_response_def find_crlf_def)
  qed
qed

lemma null_reply_complete:
  shows "complete_response (render Null) = Some (render Null)"
    "p \<noteq> [] \<Longrightarrow> p @ z = render Null \<Longrightarrow> z \<noteq> [] \<Longrightarrow> complete_response p = None"
proof -
  show "complete_response (render Null) = Some (render Null)" by code_simp
  assume p: "p \<noteq> []" "p @ z = render Null" "z \<noteq> []"
  then have "crlf_index p = None"
    by (intro crlf_index_partial_line [of "''$-1''" p z]) simp_all
  moreover have "p ! 0 = CHR ''$''" using p by (cases p) auto
  ultimately show "complete_response p = None" by (simp add: complete_response_def find_crlf_def)
qed

lemma reply_value_cases:
  assumes "reply_value r"
  obtains (line) c l where "r = c # l @ CRLF" "c \<in> {CHR ''+'', CHR ''-'', CHR '':''}" "line_safe l"
    | (bulk) v where "r = render (Bulk v)" | (null) "r = render Null"
  using assms unfolding reply_value_def by auto

lemma reply_complete:
  assumes "reply_value r" "length r \<le> MAX_RESPONSE_SIZE"
  shows "complete_response r = Some r \<and>
    (\<forall>p z. p \<noteq> [] \<longrightarrow> p @ z = r \<longrightarrow> z \<noteq> [] \<longrightarrow> complete_response p = None)"
proof -
  have small: "length v < 2 ^ 63" if "r = render (Bulk v)" for v
    using assms(2) that by (simp add: MAX_RESPONSE_SIZE_def)
  from assms(1) show ?thesis
  proof (cases rule: reply_value_cases)
    case line
    with line_reply_complete [OF line] show ?thesis by simp
  next
    case bulk
    with bulk_reply_complete [OF small [OF bulk]] show ?thesis by blast
  next
    case null
    with null_reply_complete show ?thesis by blast
  qed
qed

lemma receive_loop_reply:
  assumes "reply_value r" "length r \<le> MAX_RESPONSE_SIZE"
    and "p @ concat chunks = r" "[] \<notin> set chunks" "chunks \<noteq> []"
  shows "receive_loop p (map Cli_received chunks @ es) = Some (Inr r, es)"
  using assms(3-)
proof (induction chunks arbitrary: p)
  case (Cons b bs)
  note whole = reply_complete [OF assms(1,2)]
  have len: "length (p @ b) \<le> length r" using Cons.prems(1) by auto
  show ?case
  proof (cases "bs = []")
    case True
    with Cons.prems whole assms(2) show ?thesis by simp
  next
    case False
    then have ne: "concat bs \<noteq> []" using Cons.prems(2) by (cases bs) auto
    have "complete_response (p @ b) = None"
      using whole Cons.prems(1,2) ne by (metis append_assoc append_is_Nil_conv concat.simps(2) list.set_intros(1))
    with Cons.IH [of "p @ b"] Cons.prems False len assms(2) show ?thesis by (cases b) auto
  qed
qed simp

subsection \<open>What the user is shown\<close>

text \<open>What a user is shown for each value of the reply language.\<close>

fun shown :: "reply \<Rightarrow> string" where
  "shown (Status t) = t"
| "shown (Failure t) = ''(error) '' @ t"
| "shown (Number i) = ''(integer) '' @ show_int i"
| "shown (Bulk v) = [DOUBLE_QUOTE] @ v @ [DOUBLE_QUOTE]"
| "shown Null = ''(nil)''"

lemma reply_line_line: "reply_line (c # l @ CRLF) = l"
  by (simp add: reply_line_def substr_def)

text \<open>\<open>decode_resp\<close> shows every value, CR and LF inside a bulk string included.\<close>

lemma decode_render: "decode_resp (render x) = shown x"
proof (cases x)
  case (Bulk v)
  let ?h = "CHR ''$'' # show_nat (length v)"
  have cr: "CR \<notin> set ?h" by simp
  have at: "find_crlf (?h @ CRLF @ v @ CRLF) 0 = Some (length ?h)"
    using find_crlf_at [OF cr, of "[]" "v @ CRLF"] by simp
  have neq: "show_nat (length v) \<noteq> ''-1''"
    using show_nat_hd_neq(1) [of "length v"] by (metis nth_Cons_0)
  have "ends_in_crlf (?h @ CRLF @ v @ CRLF)"
    using ends_in_crlf_append [of "?h @ CRLF @ v"] by simp
  with Bulk at neq show ?thesis by (simp add: decode_resp_def substr_def)
next
  case Null
  have "decode_resp (''$-1'' @ CRLF) = ''(nil)''" by code_simp
  with Null show ?thesis by simp
qed (simp_all add: decode_resp_def reply_line_line [simplified])

lemma decode_rendered: "rendered r \<Longrightarrow> \<exists>x. read_reply r = Some (x, []) \<and> decode_resp r = shown x"
  using read_render [of _ "[]"] by (auto simp: rendered_def decode_render)

subsection \<open>Sending a request\<close>

lemma send_all_loop_complete:
  "\<forall>n \<in> set ns. 0 < n \<Longrightarrow> offset + sum_list ns = length data \<Longrightarrow>
     send_all_loop data offset (map Cli_sent ns @ es) = Some (Inr (), length data, es)"
proof (induction ns arbitrary: offset)
  case Nil
  then show ?case by (simp add: send_all_loop.simps [of data "length data"])
next
  case (Cons n ns)
  then show ?case by (simp add: send_all_loop.simps [of data offset] Let_def)
qed

lemma send_all_complete:
  "\<forall>n \<in> set ns. 0 < n \<Longrightarrow> sum_list ns = length data \<Longrightarrow>
     send_all data (map Cli_sent ns @ es) = Some (Inr (), data, es)"
  by (simp add: send_all_def send_all_loop_complete)

subsection \<open>A whole session\<close>

text \<open>A line that is sent to the server, and the requests the theorem below is about.\<close>

definition command_line :: "string \<Rightarrow> string list \<Rightarrow> bool" where
  "command_line line args \<longleftrightarrow> tokenize line = Inr args \<and> args \<noteq> [] \<and>
     args ! 0 \<notin> {''EXIT'', ''exit'', ''QUIT'', ''quit'', ''HELP'', ''help''}"

definition small_command :: "string list \<Rightarrow> bool" where
  "small_command args \<longleftrightarrow> length args \<le> 1024 \<and> length (encode_resp args) \<le> max_size \<and>
     line_safe (hd args) \<and> to_upper (hd args) \<noteq> ''SAVE''"

lemma small_command_reply:
  assumes "args \<noteq> []" "small_command args"
  shows "rendered (fst (execute (encode_resp args) d))"
proof (rule execute_rendered)
  show "length (encode_resp args) \<le> max_size" using assms(2) by (simp add: small_command_def)
  have "\<forall>a \<in> set args. length a < 2 ^ 63"
    using encode_resp_arg_length assms(2) by (fastforce simp: small_command_def max_size_def)
  then have req: "resp_request args (encode_resp args)"
    using assms by (intro encode_resp_request) (auto simp: small_command_def)
  fix args'
  assume "resp_request args' (encode_resp args)"
  with resp_request_unique [OF req, of args' "encode_resp args" "[]" "[]"] assms(2)
  show "line_safe (hd args') \<and> to_upper (hd args') \<noteq> ''SAVE''" by (simp add: small_command_def)
qed

lemma round_trip_reply:
  assumes "\<forall>n \<in> set ns. 0 < n" "sum_list ns = length (encode_resp args)"
    and "reply_value r" "length r \<le> MAX_RESPONSE_SIZE" "concat chunks = r" "[] \<notin> set chunks"
    and "sends_left st = map Cli_sent ns @ es" "recvs_left st = map Cli_received chunks @ rs"
  shows "round_trip args st = Some (Inr (), st\<lparr>console := console st @ decode_resp r @ NEWLINE,
    sent := sent st @ encode_resp args, sends_left := es, recvs_left := rs\<rparr>)"
proof -
  have "chunks \<noteq> []" using assms(3,5) by (auto simp: reply_value_def)
  with receive_loop_reply [OF assms(3,4), of "[]" chunks rs] assms(5,6)
  have "receive_resp (recvs_left st) = Some (Inr r, rs)" by (simp add: receive_resp_def assms(8))
  then show ?thesis
    using send_all_complete [OF assms(1,2), of es] by (simp add: round_trip_def assms(7) print_def)
qed

text \<open>One conversation: what each line sends, how the socket takes it, and how the replies of
  the server arrive.\<close>

fun conversation ::
  "string list \<Rightarrow> string list list \<Rightarrow> nat list list \<Rightarrow> string list list \<Rightarrow> dispatcher \<Rightarrow> bool" where
  "conversation [] [] [] [] d \<longleftrightarrow> True"
| "conversation (line # lines) (args # argss) (ns # nss) (chunks # chunkss) d \<longleftrightarrow>
     command_line line args \<and> small_command args \<and>
     list_all (\<lambda>n. 0 < n) ns \<and> sum_list ns = length (encode_resp args) \<and>
     concat chunks = fst (execute (encode_resp args) d) \<and> [] \<notin> set chunks \<and>
     length (concat chunks) \<le> MAX_RESPONSE_SIZE \<and>
     conversation lines argss nss chunkss (snd (execute (encode_resp args) d))"
| "conversation _ _ _ _ d \<longleftrightarrow> False"

text \<open>Every reply of a conversation is one value, and is shown as such.\<close>

definition reply_shown :: "string \<Rightarrow> bool" where
  "reply_shown r \<longleftrightarrow> (\<exists>x. read_reply r = Some (x, []) \<and> decode_resp r = shown x)"

lemma conversation_shown:
  "conversation lines argss nss chunkss d \<Longrightarrow>
     list_all reply_shown (fst (run_requests (map encode_resp argss) d))"
proof (induction lines argss nss chunkss d rule: conversation.induct)
  case (2 line lines args argss ns nss chunks chunkss d)
  then have "args \<noteq> []" "small_command args" by (auto simp: command_line_def)
  with 2 decode_rendered [OF small_command_reply [of args d]] show ?case
    by (auto simp: reply_shown_def split: prod.split)
qed simp_all

lemma session_loop_conversation:
  "conversation lines argss nss chunkss d \<Longrightarrow>
   sends_left st = concat (map (map Cli_sent) nss) \<Longrightarrow> recvs_left st = concat (map (map Cli_received) chunkss) \<Longrightarrow>
   \<exists>st'. session_loop lines st = Some (Inr (), st') \<and>
     sent st' = sent st @ concat (map encode_resp argss) \<and>
     console st' = console st @
       concat (map (\<lambda>r. ''koshdb> '' @ decode_resp r @ NEWLINE) (fst (run_requests (map encode_resp argss) d))) @
       ''koshdb> '' @ NEWLINE"
proof (induction lines argss nss chunkss d arbitrary: st rule: conversation.induct)
  case (2 line lines args argss ns nss chunks chunkss d)
  let ?r = "fst (execute (encode_resp args) d)"
  let ?d = "snd (execute (encode_resp args) d)"
  let ?st = "print ''koshdb> '' st"
  from "2.prems"(1) have cmd: "command_line line args" and small: "small_command args"
    and ns: "\<forall>n \<in> set ns. 0 < n" "sum_list ns = length (encode_resp args)"
    and ch: "concat chunks = ?r" "[] \<notin> set chunks" "length ?r \<le> MAX_RESPONSE_SIZE"
    and rest: "conversation lines argss nss chunkss ?d"
    by (auto simp: list_all_iff)
  from cmd have tok: "tokenize line = Inr args" "args \<noteq> []" "line \<noteq> []"
    by (auto simp: command_line_def tokenize_def)
  define st1 where "st1 = ?st\<lparr>console := console ?st @ decode_resp ?r @ NEWLINE,
    sent := sent ?st @ encode_resp args, sends_left := concat (map (map Cli_sent) nss),
    recvs_left := concat (map (map Cli_received) chunkss)\<rparr>"
  have "round_trip args ?st = Some (Inr (), st1)"
    unfolding st1_def using "2.prems"(2,3)
    by (intro round_trip_reply [OF ns rendered_value [OF small_command_reply [OF tok(2) small]] ch(3,1,2)])
      (simp_all add: print_def)
  then have step: "session_loop (line # lines) st = session_loop lines st1"
    using cmd tok by (auto simp: command_line_def Let_def)
  have "sends_left st1 = concat (map (map Cli_sent) nss)" "recvs_left st1 = concat (map (map Cli_received) chunkss)"
    by (simp_all add: st1_def)
  from "2.IH" [OF rest this] show ?case
    unfolding step by (auto simp: st1_def print_def split: prod.split)
qed (simp_all add: print_def)

subsection \<open>Properties\<close>

text \<open>C30 (tokenize_quote_roundtrip): any non-empty arguments, with blanks, quotes, backslashes or
  line ends in them, can be typed: the tokenizer reads back exactly the arguments from their
  quoted forms.\<close>

theorem tokenize_quote_roundtrip:
  assumes "\<forall>a \<in> set arguments. a \<noteq> []"
  shows "tokenize (quote_line arguments) = Inr arguments"
  using tokenize_quote_line [OF assms] by (simp add: tokenize_def)

theorem tokenize_quote_roundtrip_witness:
  "tokenize (quote_line [''SET'', ''a b'', [DOUBLE_QUOTE, BACKSLASH, SINGLE_QUOTE]]) =
     Inr [''SET'', ''a b'', [DOUBLE_QUOTE, BACKSLASH, SINGLE_QUOTE]]"
  by (rule tokenize_quote_roundtrip) simp

lemma show_nat_two: "show_nat (Suc (Suc 0)) = ''2''"
  by code_simp

text \<open>C18 (receive_whole_reply): however the network cuts a reply of the server, within the size
  limit of the client, into chunks, the client returns exactly that reply after its last byte,
  and never earlier; the rest of the stream is untouched.\<close>

theorem receive_whole_reply:
  assumes "reply_value r" "length r \<le> MAX_RESPONSE_SIZE" "concat chunks = r" "[] \<notin> set chunks"
  shows "receive_resp (map Cli_received chunks @ es) = Some (Inr r, es)"
proof -
  have "chunks \<noteq> []" using assms(1,3) by (auto simp: reply_value_def)
  then show ?thesis
    using receive_loop_reply [OF assms(1,2), of "[]" chunks es] assms(3,4) by (simp add: receive_resp_def)
qed

theorem receive_whole_reply_witness:
  "receive_resp [Cli_received ''$2'', Cli_received (CRLF @ CRLF), Cli_received [CR], Cli_received [LF], Cli_recv_intr] =
     Some (Inr (''$2'' @ CRLF @ CRLF @ CRLF), [Cli_recv_intr])"
proof -
  have "reply_value (''$2'' @ CRLF @ CRLF @ CRLF)"
    using reply_value_render [of "Bulk CRLF"] by (simp add: line_reply_def show_nat_two)
  from receive_whole_reply [OF this, of "[''$2'', CRLF @ CRLF, [CR], [LF]]" "[Cli_recv_intr]"]
  show ?thesis by (simp add: MAX_RESPONSE_SIZE_def)
qed

text \<open>C17 (session_prints_replies): a session of commands other than SAVE, typed on one line each,
  sends exactly their requests in order, and prints for each the decoded reply of the
  dispatcher run over those requests, whatever the sizes in which the socket takes the
  requests and delivers the replies; then it ends with the input. Each reply is one value of
  the protocol, and what is printed is that value in full: a status, an error text, an
  integer, the bytes of a string in quotes, or nil.\<close>

theorem session_prints_replies:
  assumes "conversation lines argss nss chunkss d"
    and "sends_left st = concat (map (map Cli_sent) nss)"
    and "recvs_left st = concat (map (map Cli_received) chunkss)"
  shows "\<exists>st'. session_loop lines st = Some (Inr (), st') \<and>
    sent st' = sent st @ concat (map encode_resp argss) \<and>
    console st' = console st @
      concat (map (\<lambda>r. ''koshdb> '' @ decode_resp r @ NEWLINE) (fst (run_requests (map encode_resp argss) d))) @
      ''koshdb> '' @ NEWLINE \<and>
    (\<forall>r \<in> set (fst (run_requests (map encode_resp argss) d)).
       \<exists>x. read_reply r = Some (x, []) \<and> decode_resp r = shown x)"
  using session_loop_conversation [OF assms] conversation_shown [OF assms(1)]
  unfolding list_all_iff reply_shown_def by blast

lemma sample_reply: "fst (execute ping_request sample_dispatcher) = ''+PONG'' @ CRLF"
proof -
  have "to_upper ''PING'' = ''PING''" by code_simp
  then show ?thesis
    using execute_request [OF resp_read_ping_request [unfolded resp_read_Inr], of sample_dispatcher]
    by (simp add: max_size_def execute_command_def resp_simple_string_def)
qed

lemma sample_conversation:
  "conversation [''PING''] [[''PING'']] [[10, 4]] [[''+PO'', ''NG'' @ [CR], [LF]]] sample_dispatcher"
proof -
  have "encode_resp [''PING''] = ping_request" by code_simp
  moreover have "tokenize ''PING'' = Inr [''PING'']" by code_simp
  moreover have "to_upper ''PING'' = ''PING''" by code_simp
  ultimately show ?thesis
    using sample_reply by (simp add: command_line_def small_command_def line_safe_def max_size_def MAX_RESPONSE_SIZE_def)
qed

theorem session_prints_replies_witness:
  "map_option (\<lambda>(r, st). (r, console st)) (session_loop [''PING'']
     \<lparr>console = [], sent = [], sends_left = [Cli_sent 10, Cli_sent 4],
      recvs_left = [Cli_received ''+PO'', Cli_received (''NG'' @ [CR]), Cli_received [LF]]\<rparr>) =
   Some (Inr (), ''koshdb> '' @ ''PONG'' @ NEWLINE @ ''koshdb> '' @ NEWLINE)"
proof -
  let ?st = "\<lparr>console = [], sent = [], sends_left = [Cli_sent 10, Cli_sent 4],
      recvs_left = [Cli_received ''+PO'', Cli_received (''NG'' @ [CR]), Cli_received [LF]]\<rparr>"
  have enc: "encode_resp [''PING''] = ping_request" by code_simp
  have dec: "decode_resp (''+PONG'' @ CRLF) = ''PONG''" by code_simp
  obtain d' where ex: "execute ping_request sample_dispatcher = (''+PONG'' @ CRLF, d')"
    using sample_reply by (metis prod.collapse)
  from session_prints_replies [OF sample_conversation, of ?st] obtain st' where
    "session_loop [''PING''] ?st = Some (Inr (), st')"
    "console st' = concat (map (\<lambda>r. ''koshdb> '' @ decode_resp r @ NEWLINE)
       (fst (run_requests (map encode_resp [[''PING'']]) sample_dispatcher))) @ ''koshdb> '' @ NEWLINE" by auto
  then show ?thesis by (simp add: enc ex dec [simplified])
qed

end
