(* ===== verification/Spec2Isabelle.thy ===== *)
theory Spec2Isabelle
  imports Restart Cli
begin

text \<open>
  A verification library for KoshDB, a small key-value server in C++ with a RESP protocol,
  snapshots and a command line client.

  \<^bold>\<open>The program.\<close> One thread runs the poll loop of \<open>src/server.cpp\<close>. It reads bytes into a buffer
  per client, cuts the buffer into requests, gives each request to the dispatcher of
  \<open>src/command.cpp\<close> and appends the reply to the client's output. The dispatcher parses the
  request again with \<open>src/resp.cpp\<close> and works on the database of \<open>src/database.cpp\<close>, whose keys
  may expire; SAVE writes a snapshot with \<open>src/persistence.cpp\<close>, which also reads snapshot and
  append-only log when the server starts. \<open>src/main_cli.cpp\<close> is the client. \<open>src/auth.cpp\<close>,
  \<open>src/thread_pool.cpp\<close>, \<open>src/tls_manager.cpp\<close> and \<open>src/replication.cpp\<close> are members of the server
  that its handlers do not call yet; they are modelled as components of their own.

  \<^bold>\<open>The theories, and the files they model.\<close>
  \<^item> \<open>Byte_Strings\<close>: the prelude. Byte strings, CRLF search, and the parts of the C++ library the
    code calls (\<open>find\<close>, \<open>substr\<close>, \<open>to_string\<close>, \<open>from_chars\<close>, \<open>stoll\<close>, \<open>stoi\<close>, \<open>isspace\<close>, \<open>toupper\<close>),
    with 64-bit wrap-around written out.
  \<^item> \<open>Kv_Map\<close>: association lists as maps, and the interface \<open>kv_map\<close> of an unordered map.
  \<^item> \<open>Resp\<close>: \<open>RespParser\<close> and the reply helpers of \<open>src/resp.cpp\<close>, the client's encoder, the
    request language as a parser on suffixes and as a grammar, and the reply language: values,
    their bytes (\<open>render\<close>) and a reader (\<open>read_reply\<close>), with which the helpers are compared.
  \<^item> \<open>Database\<close>: \<open>src/database.cpp\<close>. The clock is a stream of readings in nanoseconds, one for
    each call of \<open>now()\<close>; \<open>live t db\<close> is the map of the keys not expired at \<open>t\<close>, and \<open>kv_store\<close> the
    interface that the other components rely on.
  \<^item> \<open>Disk\<close>, \<open>Snapshot_Codec\<close>, \<open>Persistence\<close>: \<open>src/persistence.cpp\<close>. A disk is a map from paths to
    contents and a schedule of the outcomes of the system calls to come (short reads and
    writes, EINTR, errors). \<open>Snapshot_Codec\<close> has the interface of a binary format that can be read back, with
    its composition to pairs.
  \<^item> \<open>Command\<close>: \<open>src/command.cpp\<close>, and its abstract specification \<open>map_machine\<close>, a machine on a
    plain map that gives values of the reply language.
  \<^item> \<open>Framing\<close>: \<open>extract_requests\<close> of \<open>src/server.cpp\<close>, and the interface \<open>framing\<close>, from which the
    independence of chunking follows.
  \<^item> \<open>Auth\<close>, \<open>Replication\<close>, \<open>Thread_Pool\<close>, \<open>Tls\<close>: the four members named above. SHA-256 and OpenSSL
    are parameters. The pool is a step relation; its steps are the critical sections, the
    notifications of the condition variable, on which a waiting worker depends, and spurious
    wakeups.
  \<^item> \<open>Server\<close>: all handlers of \<open>src/server.cpp\<close> on one record, the poll loop, start, shutdown, the
    destructor with those of the members, and \<open>main\<close> of \<open>src/main_server.cpp\<close>. Socket calls take
    their outcomes from scripts; when the script of the poll loop runs out, the loop is still
    polling, so the scripts stand for all finite parts of an execution.
  \<^item> \<open>Restart\<close>: a second server on the files the first one left.
  \<^item> \<open>Cli\<close>: \<open>src/main_cli.cpp\<close>, from the tokenizer to \<open>main\<close>.

  \<^bold>\<open>State and errors.\<close> Classes are records with the members' names, and methods are functions that
  return the updated record. An exception is \<open>Inl\<close> of its text. In \<open>Framing\<close> and \<open>Server\<close>, \<open>None\<close> is
  undefined behaviour (a read outside a string); in \<open>Cli\<close> it is a blocking call that never
  returns. Machine integers are \<open>64 word\<close> where they are stored, and \<open>nat\<close> or \<open>int\<close> with the wrap
  written out in the parsers.

  \<^bold>\<open>What the lemmas show.\<close>
  \<^item> Parsing: the parser object computes a suffix parser, error texts included; it accepts exactly
    the grammar, and it reads back what the client encodes. Requests are prefix free.
  \<^item> Framing: whole requests come out in order whatever the chunks; crafted lengths that wrap are
    shown to spin or to read out of bounds, and a malformed argument to stall what follows.
  \<^item> Database: lazy removal is invisible, and the four map operations refine a plain map at
    every time; when EXPIRE keeps, kills or revives a key; what TTL answers.
  \<^item> Dispatcher: without EXPIRE and SAVE it refines \<open>map_machine\<close>; an error changes nothing; a
    reply is the bytes of one RESP value, which a reader takes off a stream exactly, unless the
    command name smuggles in a line end.
  \<^item> Persistence: the snapshot round trip, between the first and the last clock reading of the
    save and up to the number of entries that recovery accepts, refusal of every truncated snapshot, atomic
    replacement under any failing call, exactly when a save succeeds; the log as it is written
    and as recovery reads it, which is not the same.
  \<^item> Server: an invariant of every reachable state, by steps of the handlers, with the balance of
    opened and closed descriptors; pipelining,
    ordering of the output, progress of writes, and the fate of replies at the end of a stream.
  \<^item> Restart: SAVE followed by a restart gives the live pairs back, up to that number; without SAVE nothing since
    the last one survives.
  \<^item> Client: quoting round trip, recognition of a reply in any chunks, and whole sessions
    against the dispatcher; in this theory, the session and the server together.
  \<^item> The other members: no job of the pool is lost or run twice, no wakeup is lost, and shutdown
    drains the pool; the login depends on the last password set; interleaved offsets are exact
    modulo \<open>2^64\<close>; TLS is never half open, though nothing assures its restriction to TLS 1.2.

  \<^bold>\<open>Bounds and loops.\<close> No definition uses fuel. Loops over system calls recurse on the list of
  outcomes to come; the loops of the parsers recurse on counts or on the shrinking buffer, for
  which \<open>extract_loop\<close> refuses strings longer than \<open>max_size\<close>, the longest \<open>std::string\<close> there
  is. The write and read loops terminate by the measure of schedule and bytes left.

  The pool's steps end by a measure on jobs, workers and pending notifications; spurious wakeups,
  which may go on for ever, are no progress and are left out of it.

  \<^bold>\<open>Not modelled.\<close> Log output; the ordering of an \<open>unordered_map\<close>, for which the model takes the
  order of insertion; what a power failure does to data that was not synced; memory exhaustion;
  the insides of OpenSSL and of the socket and file system calls; tests and benchmarks.
\<close>

section \<open>Client and server together\<close>

lemma conversation_replies:
  "conversation lines argss nss chunkss d \<Longrightarrow>
     map concat chunkss = fst (run_requests (map encode_resp argss) d) \<and>
     list_all frame (map encode_resp argss) \<and> (lines \<noteq> [] \<longrightarrow> argss \<noteq> [])"
  by (induction lines argss nss chunkss d rule: conversation.induct)
    (auto simp: small_command_def encode_resp_frame split: prod.split)

lemma encode_resp_nonempty: "encode_resp args \<noteq> []"
  by (simp add: encode_resp_eq)

text \<open>C8 (session_served): what a session of the client sends is what the server understands, and
  what the server answers is what the session reads. The session is of commands other than
  SAVE whose requests together have at most 1 MiB. Whatever pieces the network makes of the
  bytes that the session has sent, the server executes its commands and queues exactly the
  reply bytes from which the session printed its output; each reply is one value of the
  protocol, and the output shows that value.\<close>

theorem session_served:
  assumes "conversation lines argss nss chunkss (core s)" "lines \<noteq> []"
    and "sends_left st = concat (map (map Cli_sent) nss)"
    and "recvs_left st = concat (map (map Cli_received) chunkss)" "sent st = []"
    and "map_of (clients s) fd = Some c" "input_buffer c = []"
    and "length (concat (map encode_resp argss)) \<le> max_request_size"
  shows "\<exists>st'. session_loop lines st = Some (Inr (), st') \<and>
    console st' = console st @
      concat (map (\<lambda>r. ''koshdb> '' @ decode_resp r @ NEWLINE) (map concat chunkss)) @ ''koshdb> '' @ NEWLINE \<and>
    (\<forall>chunks \<in> set chunkss. \<exists>x. read_reply (concat chunks) = Some (x, []) \<and>
      decode_resp (concat chunks) = shown x) \<and>
    (\<forall>network. concat network = sent st' \<and> [] \<notin> set network \<longrightarrow>
      (\<exists>s'. handle_read fd (map Received network @ [Recv_again]) s = Some (s', []) \<and>
        map_of (clients s') fd =
          Some (c\<lparr>output_buffer := output_buffer c @ concat (map concat chunkss)\<rparr>)))"
proof -
  let ?fs = "map encode_resp argss"
  from conversation_replies [OF assms(1)] assms(2)
  have replies: "map concat chunkss = fst (run_requests ?fs (core s))" and frames: "list_all frame ?fs"
    and ne: "argss \<noteq> []" by auto
  from session_loop_conversation [OF assms(1,3,4)] assms(5) obtain st' where
    st': "session_loop lines st = Some (Inr (), st')" "sent st' = concat ?fs"
      "console st' = console st @ concat (map (\<lambda>r. ''koshdb> '' @ decode_resp r @ NEWLINE)
         (fst (run_requests ?fs (core s)))) @ ''koshdb> '' @ NEWLINE" by auto
  have "\<exists>s'. handle_read fd (map Received network @ [Recv_again]) s = Some (s', []) \<and>
      map_of (clients s') fd = Some (c\<lparr>output_buffer := output_buffer c @ concat (map concat chunkss)\<rparr>)"
    if net: "concat network = sent st'" "[] \<notin> set network" for network
  proof -
    have "concat ?fs \<noteq> []" using ne encode_resp_nonempty by (cases argss) auto
    then have pieces: "network \<noteq> []" "\<forall>x \<in> set network. x \<noteq> []" using net st'(2) by auto
    have keep: "c\<lparr>input_buffer := [], output_buffer := x\<rparr> = c\<lparr>output_buffer := x\<rparr>" for x
      using assms(7) by (cases c) simp
    have "partial_frame frame []" by (simp add: partial_frame_def)
    with pieces show ?thesis
      using recv_loop_frames [OF assms(6) _ frames, of "[]" network "[Recv_again]"] net(1) st'(2) assms(6-8)
      by (auto simp: handle_read_def replies keep)
  qed
  moreover have "\<forall>chunks \<in> set chunkss. reply_shown (concat chunks)"
    using conversation_shown [OF assms(1)] unfolding replies [symmetric] by (simp add: list_all_iff)
  ultimately show ?thesis
    using st' replies unfolding reply_shown_def by (intro exI [where x = st']) simp
qed

theorem session_served_witness:
  "\<exists>s'. handle_read 5 [Received (take 3 ping_request), Received (drop 3 ping_request), Recv_again] sample_server =
      Some (s', []) \<and>
    map_option output_buffer (map_of (clients s') 5) = Some (''+PONG'' @ CRLF)"
proof -
  let ?st = "\<lparr>console = [], sent = [], sends_left = [Cli_sent 10, Cli_sent 4],
      recvs_left = [Cli_received ''+PO'', Cli_received (''NG'' @ [CR]), Cli_received [LF]]\<rparr>"
  have enc: "encode_resp [''PING''] = ping_request" by code_simp
  have "conversation [''PING''] [[''PING'']] [[10, 4]] [[''+PO'', ''NG'' @ [CR], [LF]]] (core sample_server)"
    using sample_conversation enc by (simp add: ping_reply)
  from session_served [OF this, of ?st 5 sample_client] obtain st' where
    st': "session_loop [''PING''] ?st = Some (Inr (), st')" and
    net: "\<forall>network. concat network = sent st' \<and> [] \<notin> set network \<longrightarrow>
      (\<exists>s'. handle_read 5 (map Received network @ [Recv_again]) sample_server = Some (s', []) \<and>
        map_of (clients s') 5 = Some (sample_client\<lparr>output_buffer := ''+PONG'' @ CRLF\<rparr>))"
    by (auto simp: enc max_request_size_def)
  have "sent st' = ping_request"
    using session_loop_conversation [OF sample_conversation, of ?st] st' enc by simp
  with net [rule_format, of "[take 3 ping_request, drop 3 ping_request]"] show ?thesis
    by (auto simp: ping_request_def)
qed

end
